(* ===== verification/Prelude.thy ===== *)
theory Prelude
  imports Main "HOL-Library.Word"
begin

text \<open>
  Shared vocabulary of the development: the integer widths of the C++ code, pointers into
  the element array of a memory pool, faults as values, the result type that threads them,
  and the generic facts on lists that several components use.
\<close>

section \<open>Machine integers and pointers\<close>

type_synonym u32 = "32 word"
type_synonym u64 = "64 word"
type_synonym size_t = "64 word"

text \<open>
  A pointer to an object of a pool is the number of the slot that holds the object;
  \<open>None\<close> is \<open>nullptr\<close>.
\<close>

type_synonym ptr = "nat option"

section \<open>Faults and results\<close>

text \<open>
  The C++ code raises no exceptions. What can go wrong is a null dereference, an access
  through a pointer that is not the address of an element, the \<open>std::abort\<close> of
  the pools' \<open>ASSERT\<close>, and the overflow of a signed \<open>int\<close>, which C++ leaves undefined.
  Each is a value, so that every operation is a total function and a theorem that an operation
  returns says that none of these happens.
\<close>

datatype fault = NullDeref | OutOfRange | Aborted | Int_Overflow

type_synonym 'a result = "fault + 'a"

definition rbind :: "'a result \<Rightarrow> ('a \<Rightarrow> 'b result) \<Rightarrow> 'b result" where
  "rbind m f = (case m of Inl e \<Rightarrow> Inl e | Inr x \<Rightarrow> f x)"

lemma rbind_Inr [simp]: "rbind (Inr x) f = f x"
  by (simp add: rbind_def)

lemma rbind_Inl [simp]: "rbind (Inl e) f = Inl e"
  by (simp add: rbind_def)

lemma rbind_eq_Inr: "rbind m f = Inr y \<longleftrightarrow> (\<exists>x. m = Inr x \<and> f x = Inr y)"
  by (cases m) simp_all

lemma rbind_InrE:
  assumes "rbind m f = Inr y"
  obtains x where "m = Inr x" "f x = Inr y"
  using assms by (auto simp: rbind_eq_Inr)

section \<open>Ends of a list, as pointers\<close>

definition ptr_hd :: "nat list \<Rightarrow> ptr" where
  "ptr_hd xs = (case xs of [] \<Rightarrow> None | x # _ \<Rightarrow> Some x)"

definition ptr_last :: "nat list \<Rightarrow> ptr" where
  "ptr_last xs = (if xs = [] then None else Some (last xs))"

lemma ptr_hd_simps [simp]: "ptr_hd [] = None" "ptr_hd (x # xs) = Some x"
  by (simp_all add: ptr_hd_def)

lemma ptr_last_simps [simp]: "ptr_last [] = None" "ptr_last [x] = Some x" "ptr_last (xs @ [x]) = Some x"
  by (simp_all add: ptr_last_def)

lemma ptr_hd_None [simp]: "ptr_hd xs = None \<longleftrightarrow> xs = []"
  by (cases xs) simp_all

lemma ptr_last_None [simp]: "ptr_last xs = None \<longleftrightarrow> xs = []"
  by (simp add: ptr_last_def)

lemma ptr_hd_Some_in: "ptr_hd xs = Some x \<Longrightarrow> x \<in> set xs"
  by (cases xs) auto

lemma ptr_last_Some_in: "ptr_last xs = Some x \<Longrightarrow> x \<in> set xs"
  by (auto simp: ptr_last_def split: if_splits)

section \<open>Generic facts\<close>

lemma remove1_middle: "x \<notin> set xs \<Longrightarrow> remove1 x (xs @ x # ys) = xs @ ys"
  by (simp add: remove1_append)

lemma distinct_middle_split:
  assumes "x \<in> set xs" and "distinct xs"
  obtains us vs where "xs = us @ x # vs" "x \<notin> set us" "x \<notin> set vs" "remove1 x xs = us @ vs"
proof -
  from assms(1) obtain us vs where xs: "xs = us @ x # vs" by (auto simp: in_set_conv_decomp)
  with assms(2) show thesis by (intro that [of us vs]) (auto simp: remove1_append)
qed

lemma list_update_same_length: "length (xs[i := y]) = length xs"
  by simp

lemma unat_word_of_nat: "n < 2 ^ LENGTH('a) \<Longrightarrow> unat (word_of_nat n :: 'a::len word) = n"
  by (simp add: unat_of_nat take_bit_nat_eq_self)

lemma word_of_nat_eq_0: "n < 2 ^ LENGTH('a) \<Longrightarrow> (word_of_nat n :: 'a::len word) = 0 \<longleftrightarrow> n = 0"
  by (metis unat_eq_zero unat_word_of_nat)

lemma distinct_below_length:
  "distinct xs \<Longrightarrow> \<forall>x \<in> set xs. x < n \<Longrightarrow> length xs \<le> n"
  by (metis atLeast0LessThan card_lessThan card_mono distinct_card finite_lessThan lessThan_iff subsetI)

text \<open>A loop that rewrites the elements of an array one index at a time.\<close>

lemma fold_update_prefix:
  "k \<le> length st \<Longrightarrow>
     fold (\<lambda>i st. st[i := f i (st ! i)]) [0..<k] st = map (\<lambda>i. f i (st ! i)) [0..<k] @ drop k st"
proof (induction k)
  case (Suc k)
  then have "drop k st = st ! k # drop (Suc k) st" by (simp add: Cons_nth_drop_Suc)
  with Suc show ?case by (simp add: nth_append list_update_append)
qed simp

lemma fold_update_all:
  "fold (\<lambda>i st. st[i := f i (st ! i)]) [0..<length st] st = map (\<lambda>i. f i (st ! i)) [0..<length st]"
  by (simp add: fold_update_prefix)

end
