(* ===== verification/Slot_Allocator.thy ===== *)
theory Slot_Allocator
  imports Prelude
begin

text \<open>
  The interface of a fixed-size pool of slots, which \<open>MemPool\<close> and
  \<open>MemPoolSeparateFreeStructure\<close> both provide: a free list kept through the elements,
  and the laws of \<open>allocate\<close> and \<open>deallocate\<close> over it. What a client may rely on
  over a whole sequence of requests is proved here once, for both.
\<close>

section \<open>Free lists threaded through an array\<close>

text \<open>
  \<open>lk e\<close> is the index stored in the element \<open>e\<close>; an index that is not below the
  length of the array ends the list.
\<close>

fun chain :: "('e \<Rightarrow> size_t) \<Rightarrow> 'e list \<Rightarrow> size_t \<Rightarrow> nat list \<Rightarrow> bool" where
  "chain lk st i [] \<longleftrightarrow> length st \<le> unat i"
| "chain lk st i (f # fs) \<longleftrightarrow> unat i = f \<and> f < length st \<and> chain lk st (lk (st ! f)) fs"

fun free_walk :: "('e \<Rightarrow> size_t) \<Rightarrow> 'e list \<Rightarrow> nat \<Rightarrow> size_t \<Rightarrow> nat list" where
  "free_walk lk st 0 i = []"
| "free_walk lk st (Suc n) i =
     (if unat i < length st then unat i # free_walk lk st n (lk (st ! unat i)) else [])"

lemma chain_walk: "chain lk st i fs \<Longrightarrow> length fs \<le> n \<Longrightarrow> free_walk lk st n i = fs"
proof (induction fs arbitrary: i n)
  case Nil
  then show ?case by (cases n) auto
next
  case (Cons f fs)
  then show ?case by (cases n) auto
qed

lemma chain_below: "chain lk st i fs \<Longrightarrow> f \<in> set fs \<Longrightarrow> f < length st"
  by (induction fs arbitrary: i) auto

lemma chain_update: "j \<notin> set fs \<Longrightarrow> chain lk (st[j := e]) i fs = chain lk st i fs"
  by (induction fs arbitrary: i) auto

lemma chain_cong:
  "length st' = length st \<Longrightarrow> \<forall>f \<in> set fs. lk (st' ! f) = lk (st ! f) \<Longrightarrow>
     chain lk st' i fs = chain lk st i fs"
  by (induction fs arbitrary: i) auto

lemma chain_upt:
  assumes "\<And>i. i < n \<Longrightarrow> lk (st ! i) = word_of_nat (Suc i)" and "length st = n" and "n < 2 ^ 64"
  shows "k \<le> n \<Longrightarrow> chain lk st (word_of_nat k) [k..<n]"
proof (induction "n - k" arbitrary: k)
  case 0
  with assms(2,3) show ?case by (simp add: unat_word_of_nat)
next
  case (Suc d)
  then have "k < n" "d = n - Suc k" by simp_all
  with Suc.hyps(1) [of "Suc k"] assms show ?case
    by (simp add: upt_conv_Cons unat_word_of_nat)
qed

section \<open>Requests\<close>

datatype 'a request = Alloc 'a | Dealloc nat

fun pool_run ::
  "('p \<Rightarrow> 'a \<Rightarrow> ptr \<times> 'p) \<Rightarrow> (ptr \<Rightarrow> 'p \<Rightarrow> 'p result) \<Rightarrow> 'a request list \<Rightarrow> 'p \<Rightarrow> (ptr list \<times> 'p) result"
where
  "pool_run al de [] p = Inr ([], p)"
| "pool_run al de (Alloc v # rs) p =
     (case al p v of (r, p') \<Rightarrow> rbind (pool_run al de rs p') (\<lambda>(out, q). Inr (r # out, q)))"
| "pool_run al de (Dealloc i # rs) p = rbind (de (Some i) p) (\<lambda>p'. pool_run al de rs p')"

text \<open>The specification: a stack of free slots.\<close>

fun free_run :: "'a request list \<Rightarrow> nat list \<Rightarrow> ptr list \<times> nat list" where
  "free_run [] fs = ([], fs)"
| "free_run (Alloc v # rs) [] = (case free_run rs [] of (out, fs) \<Rightarrow> (None # out, fs))"
| "free_run (Alloc v # rs) (f # fs) = (case free_run rs fs of (out, fs') \<Rightarrow> (Some f # out, fs'))"
| "free_run (Dealloc i # rs) fs = free_run rs (i # fs)"

text \<open>A client only returns slots that it holds.\<close>

fun valid_requests :: "nat \<Rightarrow> 'a request list \<Rightarrow> nat list \<Rightarrow> bool" where
  "valid_requests n [] fs = True"
| "valid_requests n (Alloc v # rs) fs = valid_requests n rs (tl fs)"
| "valid_requests n (Dealloc i # rs) fs \<longleftrightarrow> i < n \<and> i \<notin> set fs \<and> valid_requests n rs (i # fs)"

definition frees_slot :: "nat \<Rightarrow> 'a request list \<Rightarrow> bool" where
  "frees_slot i rs \<longleftrightarrow> Dealloc i \<in> set rs"

section \<open>The interface\<close>

locale slot_allocator =
  fixes alloc :: "'p \<Rightarrow> 'a \<Rightarrow> ptr \<times> 'p"
    and dealloc :: "ptr \<Rightarrow> 'p \<Rightarrow> 'p result"
    and free :: "'p \<Rightarrow> nat list"
    and cap :: "'p \<Rightarrow> nat"
    and contents :: "'p \<Rightarrow> nat \<Rightarrow> 'a"
    and inv :: "'p \<Rightarrow> bool"
  assumes alloc_full: "inv p \<Longrightarrow> free p = [] \<Longrightarrow> alloc p v = (None, p)"
    and alloc_free: "inv p \<Longrightarrow> free p = f # fs \<Longrightarrow>
      \<exists>p'. alloc p v = (Some f, p') \<and> inv p' \<and> free p' = fs \<and> cap p' = cap p \<and>
           contents p' f = v \<and> (\<forall>j. j \<noteq> f \<longrightarrow> contents p' j = contents p j)"
    and dealloc_live: "inv p \<Longrightarrow> i < cap p \<Longrightarrow> i \<notin> set (free p) \<Longrightarrow>
      \<exists>p'. dealloc (Some i) p = Inr p' \<and> inv p' \<and> free p' = i # free p \<and> cap p' = cap p \<and>
           (\<forall>j. j \<noteq> i \<longrightarrow> contents p' j = contents p j)"
    and free_distinct: "inv p \<Longrightarrow> distinct (free p)"
    and free_below: "inv p \<Longrightarrow> f \<in> set (free p) \<Longrightarrow> f < cap p"
begin

text \<open>The slots in use, and their number.\<close>

definition live :: "'p \<Rightarrow> nat set" where
  "live p = {..<cap p} - set (free p)"

lemma card_live: "inv p \<Longrightarrow> card (live p) + length (free p) = cap p"
proof -
  assume "inv p"
  then have "set (free p) \<subseteq> {..<cap p}" "card (set (free p)) = length (free p)"
    by (auto simp: free_below distinct_card [OF free_distinct])
  then show ?thesis
    using card_mono [of "{..<cap p}" "set (free p)"] by (simp add: live_def card_Diff_subset)
qed

lemma alloc_None_iff: "inv p \<Longrightarrow> fst (alloc p v) = None \<longleftrightarrow> card (live p) = cap p"
  using card_live [of p] alloc_full [of p v] alloc_free [of p _ _ v]
  by (cases "free p") fastforce+

text \<open>A slot that is handed out was not in use, and is in use afterwards.\<close>

lemma alloc_fresh:
  assumes "inv p" and "alloc p v = (Some i, p')"
  shows "i < cap p" "i \<notin> live p" "live p' = insert i (live p)" "contents p' i = v" "inv p'"
proof -
  from assms alloc_full [of p v] obtain f fs where f: "free p = f # fs" by (cases "free p") auto
  with alloc_free [OF assms(1) f, of v] assms(2)
  have i: "f = i" and p': "inv p'" "free p' = fs" "cap p' = cap p" "contents p' i = v" by auto
  from free_distinct [OF assms(1)] free_below [OF assms(1), of i] f i
  show "i < cap p" "i \<notin> live p" "live p' = insert i (live p)" "contents p' i = v" "inv p'"
    using p' by (auto simp: live_def)
qed

lemma dealloc_then_alloc:
  assumes "inv p" "i < cap p" "i \<notin> set (free p)"
  obtains p' p'' where "dealloc (Some i) p = Inr p'" "alloc p' v = (Some i, p'')" "free p'' = free p"
    "contents p'' i = v"
proof -
  from dealloc_live [OF assms] obtain p' where p': "dealloc (Some i) p = Inr p'" "inv p'" "free p' = i # free p"
    by blast
  from alloc_free [OF p'(2,3), of v] obtain p'' where
    "alloc p' v = (Some i, p'')" "free p'' = free p" "contents p'' i = v" by blast
  with p'(1) show thesis by (rule that)
qed

text \<open>Any run of a well-behaved client answers as the stack of free slots does.\<close>

lemma pool_run_spec:
  "inv p \<Longrightarrow> valid_requests (cap p) rs (free p) \<Longrightarrow>
     \<exists>p'. pool_run alloc dealloc rs p = Inr (fst (free_run rs (free p)), p') \<and>
          inv p' \<and> free p' = snd (free_run rs (free p)) \<and> cap p' = cap p"
proof (induction rs arbitrary: p)
  case (Cons r rs)
  show ?case
  proof (cases r)
    case (Alloc v)
    show ?thesis
    proof (cases "free p")
      case Nil
      then show ?thesis using Cons.IH [of p] Cons.prems Alloc
        by (fastforce simp: alloc_full split: prod.split)
    next
      case (Cons f fs)
      then obtain p1 where "alloc p v = (Some f, p1)" "inv p1" "free p1 = fs" "cap p1 = cap p"
        using alloc_free [OF Cons.prems(1), of f fs v] by blast
      then show ?thesis using Cons.IH [of p1] Cons.prems Alloc Cons
        by (fastforce split: prod.split)
    qed
  next
    case (Dealloc i)
    then obtain p1 where "dealloc (Some i) p = Inr p1" "inv p1" "free p1 = i # free p" "cap p1 = cap p"
      using dealloc_live [OF Cons.prems(1), of i] Cons.prems(2) by auto
    then show ?thesis using Cons.IH [of p1] Cons.prems Dealloc by auto
  qed
qed simp

text \<open>An object keeps its value for as long as the client does not give its slot back.\<close>

lemma pool_run_contents:
  "inv p \<Longrightarrow> valid_requests (cap p) rs (free p) \<Longrightarrow> i \<in> live p \<Longrightarrow> \<not> frees_slot i rs \<Longrightarrow>
     pool_run alloc dealloc rs p = Inr (out, p') \<Longrightarrow> contents p' i = contents p i"
proof (induction rs arbitrary: p out)
  case (Cons r rs)
  show ?case
  proof (cases r)
    case (Alloc v)
    show ?thesis
    proof (cases "free p")
      case Nil
      then show ?thesis using Cons.IH [of p] Cons.prems Alloc
        by (auto simp: alloc_full frees_slot_def rbind_eq_Inr)
    next
      case (Cons f fs)
      then obtain p1 where p1: "alloc p v = (Some f, p1)" "inv p1" "free p1 = fs" "cap p1 = cap p"
        "\<forall>j. j \<noteq> f \<longrightarrow> contents p1 j = contents p j"
        using alloc_free [OF Cons.prems(1), of f fs v] by blast
      moreover have "i \<noteq> f" "i \<in> live p1" using Cons.prems(3) Cons p1 by (auto simp: live_def)
      ultimately show ?thesis using Cons.IH [of p1] Cons.prems Alloc Cons
        by (auto simp: frees_slot_def rbind_eq_Inr)
    qed
  next
    case (Dealloc k)
    then obtain p1 where p1: "dealloc (Some k) p = Inr p1" "inv p1" "free p1 = k # free p" "cap p1 = cap p"
      "\<forall>j. j \<noteq> k \<longrightarrow> contents p1 j = contents p j"
      using dealloc_live [OF Cons.prems(1), of k] Cons.prems(2) by auto
    moreover have "i \<noteq> k" "i \<in> live p1" using Cons.prems(3,4) Dealloc p1
      by (auto simp: live_def frees_slot_def)
    ultimately show ?thesis using Cons.IH [of p1] Cons.prems Dealloc
      by (auto simp: frees_slot_def rbind_eq_Inr)
  qed
qed simp

end

end
