(* ===== verification/Mem_Pool.thy ===== *)
theory Mem_Pool
  imports Slot_Allocator
begin

text \<open>
  \<open>project/mem_pool.hpp\<close>: \<open>MemPool<T>\<close>, whose free list is threaded through the
  storage of the free elements. The link overlays the first eight bytes of the object, so the
  model takes the overlay of an object type as a parameter: how the storage reads as a
  \<open>size_t\<close> and how a write of a \<open>size_t\<close> changes the object that was there.
\<close>

section \<open>Elements and the overlay of the link\<close>

record 'a overlay =
  get_idx :: "'a \<Rightarrow> size_t"
  set_idx :: "size_t \<Rightarrow> 'a \<Rightarrow> 'a"

record 'a element =
  is_free_or_in_use :: bool
  object :: 'a

record 'a mem_pool =
  store :: "'a element list"
  next_free_index :: size_t

definition next_free_of :: "'a overlay \<Rightarrow> 'a element \<Rightarrow> size_t" where
  "next_free_of ov e = get_idx ov (object e)"

definition set_next_free_of :: "'a overlay \<Rightarrow> size_t \<Rightarrow> 'a element \<Rightarrow> 'a element" where
  "set_next_free_of ov w e = e\<lparr>object := set_idx ov w (object e)\<rparr>"

section \<open>Operations\<close>

text \<open>
  The constructor. \<open>zero\<close> is the zero-initialised storage of an element. The loop marks
  element \<open>i\<close> free and links it to \<open>i + 1\<close>.
\<close>

definition mem_pool_new :: "'a overlay \<Rightarrow> 'a \<Rightarrow> size_t \<Rightarrow> 'a mem_pool result" where
  "mem_pool_new ov zero num_elems =
     (if num_elems > 0 then
        Inr \<lparr>store = fold (\<lambda>i st. st[i := set_next_free_of ov (word_of_nat i + 1) ((st ! i)\<lparr>is_free_or_in_use := True\<rparr>)])
                     [0..<unat num_elems]
                     (replicate (unat num_elems) \<lparr>is_free_or_in_use = True, object = zero\<rparr>),
             next_free_index = 0\<rparr>
      else Inl Aborted)"

definition allocate :: "'a overlay \<Rightarrow> 'a mem_pool \<Rightarrow> 'a \<Rightarrow> ptr \<times> 'a mem_pool" where
  "allocate ov p v =
     (if next_free_index p \<ge> word_of_nat (length (store p)) then (None, p)
      else
        let i = unat (next_free_index p);
            elem = store p ! i
        in (Some i, p\<lparr>next_free_index := next_free_of ov elem,
                      store := (store p)[i := elem\<lparr>is_free_or_in_use := False, object := v\<rparr>]\<rparr>))"

text \<open>
  \<open>deallocate\<close> recovers the element from the address of its object (as \<open>Pool_Bytes\<close> does on
  addresses); the destructor of an order is trivial (\<open>Object_Lifetime\<close> has the others).
\<close>

definition deallocate :: "'a overlay \<Rightarrow> ptr \<Rightarrow> 'a mem_pool \<Rightarrow> 'a mem_pool result" where
  "deallocate ov pt p = (case pt of
     None \<Rightarrow> Inl NullDeref
   | Some i \<Rightarrow>
       if i < length (store p) then
         Inr (p\<lparr>store := (store p)[i := set_next_free_of ov (next_free_index p)
                                          ((store p ! i)\<lparr>is_free_or_in_use := True\<rparr>)],
                next_free_index := word_of_nat i\<rparr>)
       else Inl OutOfRange)"

section \<open>The free list and the invariant\<close>

definition free_slots :: "'a overlay \<Rightarrow> 'a mem_pool \<Rightarrow> nat list" where
  "free_slots ov p = free_walk (next_free_of ov) (store p) (length (store p)) (next_free_index p)"

definition pool_cap :: "'a mem_pool \<Rightarrow> nat" where
  "pool_cap p = length (store p)"

definition pool_contents :: "'a mem_pool \<Rightarrow> nat \<Rightarrow> 'a" where
  "pool_contents p i = object (store p ! i)"

definition pool_repr :: "'a overlay \<Rightarrow> 'a mem_pool \<Rightarrow> nat list \<Rightarrow> bool" where
  "pool_repr ov p fs \<longleftrightarrow>
     length (store p) < 2 ^ 64 \<and> distinct fs \<and>
     chain (next_free_of ov) (store p) (next_free_index p) fs \<and>
     (\<forall>i < length (store p). is_free_or_in_use (store p ! i) \<longleftrightarrow> i \<in> set fs)"

definition pool_ok :: "'a overlay \<Rightarrow> 'a mem_pool \<Rightarrow> bool" where
  "pool_ok ov p \<longleftrightarrow> pool_repr ov p (free_slots ov p)"

lemma pool_repr_below: "pool_repr ov p fs \<Longrightarrow> f \<in> set fs \<Longrightarrow> f < length (store p)"
  by (auto simp: pool_repr_def dest: chain_below)

lemma pool_repr_free_slots: "pool_repr ov p fs \<Longrightarrow> free_slots ov p = fs"
  unfolding free_slots_def
  by (rule chain_walk) (auto simp: pool_repr_def dest: chain_below intro!: distinct_below_length)

lemma pool_repr_ok: "pool_repr ov p fs \<Longrightarrow> pool_ok ov p"
  by (simp add: pool_ok_def pool_repr_free_slots)

lemma pool_ok_bound: "pool_ok ov p \<Longrightarrow> pool_cap p < 2 ^ 64"
  by (simp add: pool_ok_def pool_repr_def pool_cap_def)

lemma free_flag: "pool_ok ov p \<Longrightarrow> i < pool_cap p \<Longrightarrow>
    is_free_or_in_use (store p ! i) \<longleftrightarrow> i \<in> set (free_slots ov p)"
  by (simp add: pool_ok_def pool_repr_def pool_cap_def)

lemma allocate_full: "pool_repr ov p [] \<Longrightarrow> allocate ov p v = (None, p)"
  by (auto simp: pool_repr_def allocate_def word_le_nat_alt unat_word_of_nat)

lemma allocate_repr:
  assumes "pool_repr ov p (f # fs)"
  shows "fst (allocate ov p v) = Some f"
    and "store (snd (allocate ov p v)) = (store p)[f := \<lparr>is_free_or_in_use = False, object = v\<rparr>]"
    and "pool_repr ov (snd (allocate ov p v)) fs"
proof -
  let ?st = "store p"
  from assms have f: "unat (next_free_index p) = f" "f < length ?st" "length ?st < 2 ^ 64"
    and ch: "chain (next_free_of ov) ?st (next_free_of ov (?st ! f)) fs"
    and ds: "f \<notin> set fs" "distinct fs"
    and fl: "\<forall>i < length ?st. is_free_or_in_use (?st ! i) \<longleftrightarrow> i \<in> set (f # fs)"
    by (auto simp: pool_repr_def)
  have le: "\<not> word_of_nat (length ?st) \<le> next_free_index p"
    using f by (simp add: word_le_nat_alt unat_word_of_nat)
  have eq: "(?st ! f)\<lparr>is_free_or_in_use := False, object := v\<rparr> = \<lparr>is_free_or_in_use = False, object = v\<rparr>"
    by simp
  have al: "allocate ov p v = (Some f, p\<lparr>next_free_index := next_free_of ov (?st ! f),
                      store := ?st[f := \<lparr>is_free_or_in_use = False, object = v\<rparr>]\<rparr>)"
    using le by (simp add: allocate_def Let_def f(1) eq del: not_le)
  show "fst (allocate ov p v) = Some f"
    "store (snd (allocate ov p v)) = (store p)[f := \<lparr>is_free_or_in_use = False, object = v\<rparr>]"
    by (simp_all add: al)
  show "pool_repr ov (snd (allocate ov p v)) fs"
    using f ch ds fl by (auto simp: al pool_repr_def chain_update nth_list_update)
qed

section \<open>Correctness over any overlay that reads back what it writes\<close>

locale storage_overlay =
  fixes ov :: "'a overlay"
  assumes get_set: "get_idx ov (set_idx ov w a) = w"
begin

lemma next_free_of_set [simp]: "next_free_of ov (set_next_free_of ov w e) = w"
  by (simp add: next_free_of_def set_next_free_of_def get_set)

lemma deallocate_repr:
  assumes p: "pool_repr ov p fs" and i: "i < length (store p)" "i \<notin> set fs"
  obtains p' where "deallocate ov (Some i) p = Inr p'" "pool_repr ov p' (i # fs)"
    "store p' = (store p)[i := \<lparr>is_free_or_in_use = True,
                                object = set_idx ov (next_free_index p) (object (store p ! i))\<rparr>]"
proof -
  define e where "e = set_next_free_of ov (next_free_index p) ((store p ! i)\<lparr>is_free_or_in_use := True\<rparr>)"
  define p' where "p' = p\<lparr>store := (store p)[i := e], next_free_index := word_of_nat i\<rparr>"
  have lk: "next_free_of ov e = next_free_index p" by (simp add: e_def)
  have fr: "is_free_or_in_use e" by (simp add: e_def set_next_free_of_def)
  have e: "e = \<lparr>is_free_or_in_use = True, object = set_idx ov (next_free_index p) (object (store p ! i))\<rparr>"
    by (simp add: e_def set_next_free_of_def)
  have "deallocate ov (Some i) p = Inr p'" using i by (simp add: deallocate_def p'_def e_def)
  moreover have "pool_repr ov p' (i # fs)"
    using p i lk fr by (auto simp: p'_def pool_repr_def chain_update unat_word_of_nat nth_list_update)
  ultimately show thesis by (rule that) (simp add: p'_def e)
qed

lemma mem_pool_new_repr:
  assumes "n > 0"
  obtains p where "mem_pool_new ov z n = Inr p" "pool_repr ov p [0..<unat n]" "pool_cap p = unat n"
proof -
  define g where "g i e = set_next_free_of ov (word_of_nat i + 1) (e\<lparr>is_free_or_in_use := True\<rparr>)" for i e
  define st where "st = map (\<lambda>i. g i (replicate (unat n) \<lparr>is_free_or_in_use = True, object = z\<rparr> ! i)) [0..<unat n]"
  have fold: "fold (\<lambda>i st. st[i := g i (st ! i)]) [0..<unat n]
      (replicate (unat n) \<lparr>is_free_or_in_use = True, object = z\<rparr>) = st"
    unfolding st_def using fold_update_all [of g "replicate (unat n) \<lparr>is_free_or_in_use = True, object = z\<rparr>"]
    by simp
  have new: "mem_pool_new ov z n = Inr \<lparr>store = st, next_free_index = 0\<rparr>"
    using assms fold by (simp add: mem_pool_new_def g_def)
  have len: "length st = unat n" by (simp add: st_def)
  have bound: "unat n < 2 ^ 64" using unsigned_less [of n] by simp
  have "next_free_of ov (st ! i) = word_of_nat (Suc i)" if "i < unat n" for i
    using that by (simp add: st_def g_def add.commute)
  from chain_upt [where lk = "next_free_of ov", OF this len bound, of 0]
  have "chain (next_free_of ov) st 0 [0..<unat n]" by simp
  moreover have "is_free_or_in_use (st ! i)" if "i < unat n" for i
    using that by (simp add: st_def g_def set_next_free_of_def)
  ultimately have "pool_repr ov \<lparr>store = st, next_free_index = 0\<rparr> [0..<unat n]"
    using len bound by (auto simp: pool_repr_def)
  with new len show thesis by (intro that) (auto simp: pool_cap_def)
qed

text \<open>The pool provides the allocator interface.\<close>

lemma mem_pool_allocator:
  "slot_allocator (allocate ov) (deallocate ov) (free_slots ov) pool_cap pool_contents (pool_ok ov)"
proof
  fix p :: "'a mem_pool" and v f fs i
  assume ok: "pool_ok ov p"
  then have r: "pool_repr ov p (free_slots ov p)" by (simp add: pool_ok_def)
  show "free_slots ov p = [] \<Longrightarrow> allocate ov p v = (None, p)"
    using r by (simp add: allocate_full)
  show "distinct (free_slots ov p)" using r by (simp add: pool_repr_def)
  show "f \<in> set (free_slots ov p) \<Longrightarrow> f < pool_cap p"
    using pool_repr_below [OF r] by (simp add: pool_cap_def)
  show "\<exists>p'. allocate ov p v = (Some f, p') \<and> pool_ok ov p' \<and> free_slots ov p' = fs \<and>
      pool_cap p' = pool_cap p \<and> pool_contents p' f = v \<and>
      (\<forall>j. j \<noteq> f \<longrightarrow> pool_contents p' j = pool_contents p j)" if "free_slots ov p = f # fs"
  proof (intro exI conjI)
    let ?p' = "snd (allocate ov p v)"
    note al = allocate_repr [OF r [unfolded that], of v]
    show "allocate ov p v = (Some f, ?p')" using al(1) by (simp add: prod_eq_iff)
    show "pool_ok ov ?p'" "free_slots ov ?p' = fs"
      using al(3) by (simp_all add: pool_repr_ok pool_repr_free_slots)
    have "f < length (store p)" using pool_repr_below [OF r] that by simp
    then show "pool_cap ?p' = pool_cap p" "pool_contents ?p' f = v"
      "\<forall>j. j \<noteq> f \<longrightarrow> pool_contents ?p' j = pool_contents p j"
      using al(2) by (simp_all add: pool_cap_def pool_contents_def)
  qed
  show "\<exists>p'. deallocate ov (Some i) p = Inr p' \<and> pool_ok ov p' \<and>
      free_slots ov p' = i # free_slots ov p \<and> pool_cap p' = pool_cap p \<and>
      (\<forall>j. j \<noteq> i \<longrightarrow> pool_contents p' j = pool_contents p j)"
    if "i < pool_cap p" "i \<notin> set (free_slots ov p)"
  proof -
    from that have i: "i < length (store p)" "i \<notin> set (free_slots ov p)" by (simp_all add: pool_cap_def)
    then obtain p' where "deallocate ov (Some i) p = Inr p'" "pool_repr ov p' (i # free_slots ov p)"
      "store p' = (store p)[i := \<lparr>is_free_or_in_use = True,
                                object = set_idx ov (next_free_index p) (object (store p ! i))\<rparr>]"
      using deallocate_repr [OF r i] by blast
    then show ?thesis
      by (intro exI [of _ p']) (simp add: pool_cap_def pool_contents_def pool_repr_ok pool_repr_free_slots)
  qed
qed

text \<open>
  A slot given back twice is linked to itself, so the next two allocations both return it.
\<close>

lemma double_deallocate:
  assumes p: "pool_ok ov p" and i: "i < pool_cap p" "i \<notin> set (free_slots ov p)"
  obtains p1 p2 p3 p4 where "deallocate ov (Some i) p = Inr p1" "deallocate ov (Some i) p1 = Inr p2"
    "allocate ov p2 v = (Some i, p3)" "allocate ov p3 w = (Some i, p4)"
proof -
  from p have r: "pool_repr ov p (free_slots ov p)" by (simp add: pool_ok_def)
  from i have i': "i < length (store p)" and n: "length (store p) < 2 ^ 64"
    using r by (simp_all add: pool_cap_def pool_repr_def)
  then have u: "unat (word_of_nat i :: size_t) = i"
    by (intro unat_word_of_nat) simp
  have nle: "\<not> (word_of_nat (length (store p)) :: size_t) \<le> word_of_nat i"
    using i' n u by (simp add: word_le_nat_alt unat_word_of_nat)
  show thesis
    by (rule that) (use i' u nle in \<open>auto simp: deallocate_def allocate_def Let_def set_next_free_of_def
      next_free_of_def get_set\<close>)
qed

end

sublocale storage_overlay \<subseteq> alloc: slot_allocator "allocate ov" "deallocate ov" "free_slots ov"
  pool_cap pool_contents "pool_ok ov"
  by (rule mem_pool_allocator)

end
