(* ===== verification/Intrusive_Queue.thy ===== *)
theory Intrusive_Queue
  imports Prelude
begin

text \<open>
  \<open>project/intrusive_queue.hpp\<close>: a doubly linked FIFO queue whose links live inside the
  queued objects. The objects are in a heap \<open>'h\<close> that the queue reaches only through
  \<open>get_node\<close>, the template's access to \<open>item->list_node\<close>; here it is a record
  of a read and a write of the node of an object. The locale \<open>node_heap\<close> states what the
  queue relies on, and proves that the pointer code implements a FIFO list.
\<close>

section \<open>Nodes and the queue\<close>

record node =
  nxt :: ptr
  prv :: ptr

abbreviation null_node :: node where
  "null_node \<equiv> \<lparr>nxt = None, prv = None\<rparr>"

record queue =
  q_head :: ptr
  q_tail :: ptr
  q_size :: size_t

definition empty_queue :: queue where
  "empty_queue = \<lparr>q_head = None, q_tail = None, q_size = 0\<rparr>"

record 'h node_ops =
  get_node :: "'h \<Rightarrow> nat \<Rightarrow> node option"
  put_node :: "'h \<Rightarrow> nat \<Rightarrow> node \<Rightarrow> 'h"

text \<open>A read and a write of a node through a pointer; \<open>nullptr\<close> and wild pointers fault.\<close>

definition load :: "'h node_ops \<Rightarrow> 'h \<Rightarrow> ptr \<Rightarrow> node result" where
  "load H h p = (case p of
     None \<Rightarrow> Inl NullDeref
   | Some a \<Rightarrow> (case get_node H h a of None \<Rightarrow> Inl OutOfRange | Some n \<Rightarrow> Inr n))"

definition save :: "'h node_ops \<Rightarrow> 'h \<Rightarrow> ptr \<Rightarrow> node \<Rightarrow> 'h result" where
  "save H h p n = (case p of
     None \<Rightarrow> Inl NullDeref
   | Some a \<Rightarrow> (case get_node H h a of None \<Rightarrow> Inl OutOfRange | Some _ \<Rightarrow> Inr (put_node H h a n)))"

section \<open>Operations\<close>

definition q_peek :: "queue \<Rightarrow> ptr" where
  "q_peek q = q_head q"

definition q_empty :: "queue \<Rightarrow> bool" where
  "q_empty q \<longleftrightarrow> q_size q = 0"

definition q_append :: "'h node_ops \<Rightarrow> ptr \<Rightarrow> 'h \<times> queue \<Rightarrow> ('h \<times> queue) result" where
  "q_append H item hq = (case hq of (h, q) \<Rightarrow>
     rbind (load H h item) (\<lambda>_.
       if q_head q = None then
         rbind (save H h item \<lparr>nxt = None, prv = None\<rparr>) (\<lambda>h1.
           Inr (h1, q\<lparr>q_head := item, q_tail := item, q_size := q_size q + 1\<rparr>))
       else
         rbind (load H h (q_tail q)) (\<lambda>tail_node.
         rbind (save H h (q_tail q) (tail_node\<lparr>nxt := item\<rparr>)) (\<lambda>h1.
         rbind (save H h1 item \<lparr>nxt = None, prv = q_tail q\<rparr>) (\<lambda>h2.
           Inr (h2, q\<lparr>q_tail := item, q_size := q_size q + 1\<rparr>))))))"

text \<open>
  \<open>remove\<close> reads the item's node again after the write through \<open>node.prev\<close>, as the
  reference \<open>node\<close> of the C++ code does.
\<close>

definition q_unlink_prev :: "'h node_ops \<Rightarrow> ptr \<Rightarrow> 'h \<times> queue \<Rightarrow> ('h \<times> queue) result" where
  "q_unlink_prev H item hq = (case hq of (h, q) \<Rightarrow>
     rbind (load H h item) (\<lambda>node.
       if prv node \<noteq> None then
         rbind (load H h (prv node)) (\<lambda>pnode.
         rbind (save H h (prv node) (pnode\<lparr>nxt := nxt node\<rparr>)) (\<lambda>h1. Inr (h1, q)))
       else Inr (h, q\<lparr>q_head := nxt node\<rparr>)))"

definition q_unlink_next :: "'h node_ops \<Rightarrow> ptr \<Rightarrow> 'h \<times> queue \<Rightarrow> ('h \<times> queue) result" where
  "q_unlink_next H item hq = (case hq of (h, q) \<Rightarrow>
     rbind (load H h item) (\<lambda>node.
       if nxt node \<noteq> None then
         rbind (load H h (nxt node)) (\<lambda>nnode.
         rbind (save H h (nxt node) (nnode\<lparr>prv := prv node\<rparr>)) (\<lambda>h1. Inr (h1, q)))
       else Inr (h, q\<lparr>q_tail := prv node\<rparr>)))"

definition q_remove :: "'h node_ops \<Rightarrow> ptr \<Rightarrow> 'h \<times> queue \<Rightarrow> ('h \<times> queue) result" where
  "q_remove H item hq =
     rbind (q_unlink_prev H item hq) (\<lambda>hq1.
     rbind (q_unlink_next H item hq1) (\<lambda>(h2, q2).
     rbind (save H h2 item \<lparr>nxt = None, prv = None\<rparr>) (\<lambda>h3.
       Inr (h3, q2\<lparr>q_size := q_size q2 - 1\<rparr>))))"

definition q_pop :: "'h node_ops \<Rightarrow> 'h \<times> queue \<Rightarrow> (ptr \<times> 'h \<times> queue) result" where
  "q_pop H hq = (case hq of (h, q) \<Rightarrow>
     if q_head q = None then Inr (None, h, q)
     else rbind (q_remove H (q_head q) (h, q)) (\<lambda>(h1, q1). Inr (q_head q, h1, q1)))"

text \<open>The accessors \<open>head()\<close>, \<open>tail()\<close> and \<open>size()\<close>.\<close>

definition head_q :: "queue \<Rightarrow> ptr" where
  "head_q q = q_head q"

definition tail_q :: "queue \<Rightarrow> ptr" where
  "tail_q q = q_tail q"

definition size_q :: "queue \<Rightarrow> size_t" where
  "size_q q = q_size q"

text \<open>The list of items from the head, at most \<open>n\<close> of them, by the \<open>next\<close> links.\<close>

fun q_walk :: "'h node_ops \<Rightarrow> 'h \<Rightarrow> nat \<Rightarrow> ptr \<Rightarrow> nat list" where
  "q_walk H h 0 p = []"
| "q_walk H h (Suc n) p = (case p of
     None \<Rightarrow> []
   | Some a \<Rightarrow> (case get_node H h a of None \<Rightarrow> [] | Some nd \<Rightarrow> a # q_walk H h n (nxt nd)))"

lemma q_remove_size: "q_remove H x (h, q) = Inr (h', q') \<Longrightarrow> q_size q' = q_size q - 1"
  by (auto simp: q_remove_def q_unlink_prev_def q_unlink_next_def rbind_eq_Inr split: if_splits)

section \<open>What a queue represents\<close>

text \<open>
  \<open>links H h p xs s\<close>: the nodes of \<open>xs\<close> are chained in both directions, the first
  one's predecessor is \<open>p\<close> and the last one's successor is \<open>s\<close>.
\<close>

fun links :: "'h node_ops \<Rightarrow> 'h \<Rightarrow> ptr \<Rightarrow> nat list \<Rightarrow> ptr \<Rightarrow> bool" where
  "links H h p [] s = True"
| "links H h p (x # xs) s \<longleftrightarrow>
     get_node H h x = Some \<lparr>nxt = (case xs of [] \<Rightarrow> s | y # _ \<Rightarrow> Some y), prv = p\<rparr> \<and>
     links H h (Some x) xs s"

definition q_repr :: "'h node_ops \<Rightarrow> 'h \<Rightarrow> queue \<Rightarrow> nat list \<Rightarrow> bool" where
  "q_repr H h q xs \<longleftrightarrow>
     q_head q = ptr_hd xs \<and> q_tail q = ptr_last xs \<and> q_size q = word_of_nat (length xs) \<and>
     length xs < 2 ^ 64 \<and> distinct xs \<and> links H h None xs None"

lemma links_append:
  "links H h p (xs @ ys) s \<longleftrightarrow>
     links H h p xs (if ys = [] then s else ptr_hd ys) \<and>
     links H h (if xs = [] then p else ptr_last xs) ys s"
proof (induction xs arbitrary: p)
  case (Cons x xs)
  then show ?case
    by (cases xs; cases ys) (auto simp: ptr_last_def)
qed simp

lemma links_get_node: "links H h p xs s \<Longrightarrow> x \<in> set xs \<Longrightarrow> get_node H h x \<noteq> None"
  by (induction xs arbitrary: p) auto

lemma links_cong:
  "\<forall>x \<in> set xs. get_node H h' x = get_node H h x \<Longrightarrow> links H h' p xs s = links H h p xs s"
  by (induction xs arbitrary: p) auto

lemma q_repr_cong:
  "\<forall>x \<in> set xs. get_node H h' x = get_node H h x \<Longrightarrow> q_repr H h' q xs = q_repr H h q xs"
  using links_cong [of xs H h' h None None] by (simp add: q_repr_def)

lemma q_repr_distinct: "q_repr H h q xs \<Longrightarrow> distinct xs"
  by (simp add: q_repr_def)

lemma q_repr_get_node: "q_repr H h q xs \<Longrightarrow> x \<in> set xs \<Longrightarrow> get_node H h x \<noteq> None"
  by (auto simp: q_repr_def dest: links_get_node)

lemma q_repr_empty [simp]: "q_repr H h empty_queue []"
  by (simp add: q_repr_def empty_queue_def)

lemma q_repr_peek: "q_repr H h q xs \<Longrightarrow> q_peek q = ptr_hd xs"
  by (simp add: q_repr_def q_peek_def)

lemma q_repr_is_empty: "q_repr H h q xs \<Longrightarrow> q_empty q \<longleftrightarrow> xs = []"
  by (simp add: q_repr_def q_empty_def word_of_nat_eq_0)

lemma q_walk_links:
  "links H h p xs None \<Longrightarrow> length xs \<le> n \<Longrightarrow> q_walk H h n (ptr_hd xs) = xs"
proof (induction xs arbitrary: p n)
  case Nil
  then show ?case by (cases n) auto
next
  case (Cons x xs)
  then obtain n' where n: "n = Suc n'" by (cases n) auto
  from Cons.prems(1) have "links H h (Some x) xs None" by simp
  with Cons.IH Cons.prems(2) n have "q_walk H h n' (ptr_hd xs) = xs" by simp
  with Cons.prems(1) n show ?case by (cases xs) auto
qed

lemma q_repr_walk:
  "q_repr H h q xs \<Longrightarrow> length xs \<le> n \<Longrightarrow> q_walk H h n (q_head q) = xs"
  by (auto simp: q_repr_def intro: q_walk_links)

section \<open>The interface of the heap, and the correctness of the queue over it\<close>

locale node_heap =
  fixes H :: "'h node_ops" and payload :: "'h \<Rightarrow> 'p"
  assumes get_put: "get_node H h a \<noteq> None \<Longrightarrow>
      get_node H (put_node H h a n) b = (if a = b then Some n else get_node H h b)"
    and payload_put: "payload (put_node H h a n) = payload h"
begin

lemma load_Some: "get_node H h a = Some n \<Longrightarrow> load H h (Some a) = Inr n"
  by (simp add: load_def)

lemma save_Some: "get_node H h a = Some n \<Longrightarrow> save H h (Some a) n' = Inr (put_node H h a n')"
  by (simp add: save_def)

lemmas heap_simps = load_Some save_Some get_put payload_put

lemma links_put_other:
  "get_node H h a \<noteq> None \<Longrightarrow> a \<notin> set xs \<Longrightarrow>
     links H (put_node H h a n) p xs s = links H h p xs s"
  by (rule links_cong) (auto simp: get_put)

text \<open>Appending implements \<open>xs @ [x]\<close>, and writes to the old tail and the item only.\<close>

lemma q_append_repr:
  assumes q: "q_repr H h q xs" and x: "x \<notin> set xs" and gx: "get_node H h x \<noteq> None"
    and len: "Suc (length xs) < 2 ^ 64"
  obtains h' q' where "q_append H (Some x) (h, q) = Inr (h', q')" "q_repr H h' q' (xs @ [x])"
    "payload h' = payload h"
    "\<And>b. b \<notin> set xs \<Longrightarrow> b \<noteq> x \<Longrightarrow> get_node H h' b = get_node H h b"
    "\<And>b. get_node H h' b = None \<longleftrightarrow> get_node H h b = None"
proof (cases xs rule: rev_cases)
  case Nil
  from q Nil gx show thesis
    by (intro that [of "put_node H h x null_node" "q\<lparr>q_head := Some x, q_tail := Some x, q_size := q_size q + 1\<rparr>"])
       (auto simp: q_append_def q_repr_def heap_simps)
next
  case (snoc us t)
  let ?n = "\<lambda>us. \<lparr>nxt = None, prv = (if us = [] then None else ptr_last us)\<rparr>"
  have lus: "links H h None us (Some t)" and gt: "get_node H h t = Some (?n us)"
    using q snoc by (auto simp: q_repr_def links_append)
  have hd: "q_head q \<noteq> None" and tl: "q_tail q = Some t" using q snoc by (auto simp: q_repr_def)
  have tx: "t \<noteq> x" and tus: "t \<notin> set us" "x \<notin> set us"
    using x snoc q_repr_distinct [OF q] by auto
  define h1 where "h1 = put_node H h t ((?n us)\<lparr>nxt := Some x\<rparr>)"
  define h2 where "h2 = put_node H h1 x \<lparr>nxt = None, prv = Some t\<rparr>"
  have g1: "get_node H h1 b = (if b = t then Some ((?n us)\<lparr>nxt := Some x\<rparr>) else get_node H h b)" for b
    using gt by (simp add: h1_def get_put)
  have g2: "get_node H h2 b = (if b = x then Some \<lparr>nxt = None, prv = Some t\<rparr> else get_node H h1 b)" for b
    using gx tx by (simp add: h2_def get_put g1)
  have "links H h2 None us (Some t)"
    using lus tus by (subst links_cong [of _ _ _ h]) (auto simp: g1 g2)
  then have lk: "links H h2 None (xs @ [x]) None"
    using tx by (simp add: snoc links_append g1 g2)
  have sz: "q_size q + 1 = word_of_nat (length (xs @ [x]))" using q by (simp add: q_repr_def)
  have "ptr_hd (xs @ [x]) = ptr_hd xs" using snoc by (cases us) simp_all
  then have ends: "q_head q = ptr_hd (xs @ [x])" using q by (simp add: q_repr_def)
  have dis: "distinct (xs @ [x])" using q_repr_distinct [OF q] x by simp
  have bound: "length (xs @ [x]) < 2 ^ 64" using len by simp
  have repr: "q_repr H h2 (q\<lparr>q_tail := Some x, q_size := q_size q + 1\<rparr>) (xs @ [x])"
    unfolding q_repr_def using ends dis bound lk sz ptr_last_simps(3) [of xs x] by simp
  from gx obtain nx where gx': "get_node H h x = Some nx" by blast
  have gx1: "get_node H h1 x = Some nx" using gx' tx by (simp add: g1)
  have sv: "save H h (Some t) ((?n us)\<lparr>nxt := Some x\<rparr>) = Inr h1"
    "save H h1 (Some x) \<lparr>nxt = None, prv = Some t\<rparr> = Inr h2"
    unfolding h2_def save_Some [OF gx1] by (simp_all only: save_Some [OF gt] h1_def)
  have "q_append H (Some x) (h, q) = Inr (h2, q\<lparr>q_tail := Some x, q_size := q_size q + 1\<rparr>)"
    using hd by (simp only: q_append_def prod.case tl load_Some [OF gx'] load_Some [OF gt] sv
        rbind_Inr if_False)
  moreover have "payload h2 = payload h" by (simp add: h2_def h1_def payload_put)
  moreover have "get_node H h2 b = get_node H h b" if "b \<notin> set xs" "b \<noteq> x" for b
    using that snoc by (auto simp: g1 g2)
  moreover have "get_node H h2 b = None \<longleftrightarrow> get_node H h b = None" for b
    using gt gx by (auto simp: g1 g2)
  ultimately show thesis using repr that by blast
qed

text \<open>Removing implements deletion from the list, and writes to the items of the list only.\<close>

lemma q_remove_repr:
  assumes q: "q_repr H h q xs" and x: "x \<in> set xs"
  obtains h' q' where "q_remove H (Some x) (h, q) = Inr (h', q')" "q_repr H h' q' (remove1 x xs)"
    "payload h' = payload h" "get_node H h' x = Some null_node"
    "\<And>b. b \<notin> set xs \<Longrightarrow> get_node H h' b = get_node H h b"
    "\<And>b. get_node H h' b = None \<longleftrightarrow> get_node H h b = None"
proof -
  obtain us vs where xs: "xs = us @ x # vs" and nus: "x \<notin> set us" and nvs: "x \<notin> set vs"
    and rem: "remove1 x xs = us @ vs"
    using distinct_middle_split [OF x q_repr_distinct [OF q]] by blast
  have dis: "distinct us" "distinct vs" "set us \<inter> set vs = {}"
    using q_repr_distinct [OF q] xs by auto
  let ?nx = "ptr_hd vs" and ?pv = "ptr_last us"
  have lus: "links H h None us (Some x)" and gx: "get_node H h x = Some \<lparr>nxt = ?nx, prv = ?pv\<rparr>"
    and lvs: "links H h (Some x) vs None"
    using q xs by (auto simp: q_repr_def links_append ptr_hd_def split: list.splits)
  define q1 where "q1 = (if us = [] then q\<lparr>q_head := ?nx\<rparr> else q)"
  define h1 where "h1 = (case ?pv of None \<Rightarrow> h | Some a \<Rightarrow> put_node H h a ((the (get_node H h a))\<lparr>nxt := ?nx\<rparr>))"
  define q2 where "q2 = (if vs = [] then q1\<lparr>q_tail := ?pv\<rparr> else q1)"
  define h2 where "h2 = (case ?nx of None \<Rightarrow> h1 | Some a \<Rightarrow> put_node H h1 a ((the (get_node H h1 a))\<lparr>prv := ?pv\<rparr>))"
  define h3 where "h3 = put_node H h2 x null_node"
  have gpv: "get_node H h a \<noteq> None" "a \<noteq> x" "a \<in> set us" if "?pv = Some a" for a
    using that links_get_node [OF lus, of a] ptr_last_Some_in [OF that] nus by auto
  have gnx: "get_node H h a \<noteq> None" "a \<noteq> x" "a \<in> set vs" if "?nx = Some a" for a
    using that links_get_node [OF lvs, of a] ptr_hd_Some_in [OF that] nvs by auto
  have g1: "get_node H h1 b = (if ?pv = Some b then Some ((the (get_node H h b))\<lparr>nxt := ?nx\<rparr>) else get_node H h b)" for b
    using gpv by (auto simp: h1_def get_put split: option.splits)
  have gnx1: "get_node H h1 a \<noteq> None" if "?nx = Some a" for a
    using gnx [OF that] by (simp add: g1)
  have g2: "get_node H h2 b = (if ?nx = Some b then Some ((the (get_node H h1 b))\<lparr>prv := ?pv\<rparr>) else get_node H h1 b)" for b
    using gnx1 by (auto simp: h2_def get_put split: option.splits)
  have gx1: "get_node H h1 x = Some \<lparr>nxt = ?nx, prv = ?pv\<rparr>" using gx gpv by (auto simp: g1)
  have gx2: "get_node H h2 x = Some \<lparr>nxt = ?nx, prv = ?pv\<rparr>" using gx1 gnx by (auto simp: g2)
  have g3: "get_node H h3 b = (if b = x then Some null_node else get_node H h2 b)" for b
    using gx2 by (simp add: h3_def get_put)
  have s1: "q_unlink_prev H (Some x) (h, q) = Inr (h1, q1)"
  proof (cases "?pv")
    case None
    then show ?thesis using gx by (simp add: q_unlink_prev_def heap_simps h1_def q1_def)
  next
    case (Some a)
    with gpv [OF Some] gx show ?thesis
      by (auto simp: q_unlink_prev_def heap_simps h1_def q1_def)
  qed
  have s2: "q_unlink_next H (Some x) (h1, q1) = Inr (h2, q2)"
  proof (cases "?nx")
    case None
    then show ?thesis using gx1 by (simp add: q_unlink_next_def heap_simps h2_def q2_def)
  next
    case (Some a)
    with gnx1 [OF Some] gx1 show ?thesis
      by (auto simp: q_unlink_next_def heap_simps h2_def q2_def)
  qed
  have run: "q_remove H (Some x) (h, q) = Inr (h3, q2\<lparr>q_size := q_size q2 - 1\<rparr>)"
    using s1 s2 gx2 by (simp add: q_remove_def heap_simps h3_def)
  have lk: "links H h3 None (us @ vs) None"
  proof -
    have "links H h3 None us ?nx"
    proof (cases us rule: rev_cases)
      case (snoc us' t)
      have "links H h3 None us' (Some t)"
        using lus snoc dis nus xs
        by (subst links_cong [of _ _ _ h]) (auto simp: links_append g1 g2 g3 dest: gnx)
      then show ?thesis using lus snoc nus dis
        by (auto simp: links_append g1 g2 g3 dest: gnx)
    qed simp
    moreover have "links H h3 ?pv vs None"
    proof (cases vs)
      case (Cons t vs')
      have "links H h3 (Some t) vs' None"
        using lvs Cons dis nvs by (subst links_cong [of _ _ _ h]) (auto simp: g1 g2 g3 dest: gpv)
      then show ?thesis using lvs Cons nvs dis
        by (auto simp: g1 g2 g3 dest: gpv)
    qed simp
    ultimately show ?thesis by (auto simp: links_append split: if_splits)
  qed
  have sz: "word_of_nat (length xs) - 1 = (word_of_nat (length (us @ vs)) :: size_t)"
    by (simp add: xs)
  have "q_repr H h3 (q2\<lparr>q_size := q_size q2 - 1\<rparr>) (us @ vs)"
    using q lk dis sz
    by (auto simp: q_repr_def q2_def q1_def xs ptr_hd_def ptr_last_def split: list.splits)
  moreover have "payload h3 = payload h"
    by (auto simp: h3_def h2_def h1_def payload_put split: option.splits)
  moreover have "get_node H h3 b = get_node H h b" if "b \<notin> set xs" for b
    using that gpv [of b] gnx [of b] by (auto simp: g3 g2 g1 xs)
  moreover have "get_node H h3 b = None \<longleftrightarrow> get_node H h b = None" for b
    using gpv [of b] gnx [of b] gx by (auto simp: g3 g2 g1)
  ultimately show thesis using run g3 [of x] rem by (intro that [of h3]) auto
qed

lemma q_pop_repr:
  assumes q: "q_repr H h q (x # xs)"
  obtains h' q' where "q_pop H (h, q) = Inr (Some x, h', q')" "q_repr H h' q' xs" "payload h' = payload h"
proof -
  obtain h' q' where "q_remove H (Some x) (h, q) = Inr (h', q')" "q_repr H h' q' xs" "payload h' = payload h"
    by (rule q_remove_repr [OF q, of x]) auto
  moreover have "q_head q = Some x" using q by (simp add: q_repr_def)
  ultimately show thesis by (intro that [of h' q']) (auto simp: q_pop_def)
qed

lemma q_pop_empty: "q_repr H h q [] \<Longrightarrow> q_pop H (h, q) = Inr (None, h, q)"
  by (simp add: q_pop_def q_repr_def)

end

end
