(* ===== verification/Order_Model.thy ===== *)
theory Order_Model
  imports Mem_Pool Intrusive_Queue
begin

text \<open>
  \<open>project/order_type.hpp\<close> and \<open>project/order.hpp\<close>: the order, its size arithmetic on 32 bits
  and its text form; and what an \<open>Order\<close> provides to the pool (its first eight bytes are
  \<open>order_id\<close>, which the free-list link overlays) and to the queue (its \<open>list_node\<close>).
\<close>

section \<open>Order types and orders\<close>

datatype order_type = Limit | Market

fun to_string :: "order_type \<Rightarrow> string" where
  "to_string Limit = ''Limit''"
| "to_string Market = ''Market''"

record order =
  order_id :: u64
  client_id :: u64
  symbol :: string
  order_size :: u32
  price :: u64
  is_buy_side :: bool
  order_type :: order_type
  list_node :: node

text \<open>The aggregate initialisation of an order by \<open>allocate\<close>: the node starts with null links.\<close>

definition mk_order :: "u64 \<Rightarrow> u64 \<Rightarrow> string \<Rightarrow> u32 \<Rightarrow> u64 \<Rightarrow> bool \<Rightarrow> order_type \<Rightarrow> order" where
  "mk_order oid cid sy sz pr buy ty =
     \<lparr>order_id = oid, client_id = cid, symbol = sy, order_size = sz, price = pr,
      is_buy_side = buy, order_type = ty, list_node = null_node\<rparr>"

text \<open>Zero-initialised storage, read as an order.\<close>

definition zero_order :: order where
  "zero_order = mk_order 0 0 [] 0 0 False Limit"

text \<open>Removes at most the available size, and returns the amount removed.\<close>

definition decrease_size :: "u32 \<Rightarrow> order \<Rightarrow> u32 \<times> order" where
  "decrease_size amount ord =
     (if amount \<ge> order_size ord then
        let removed = order_size ord in (removed, ord\<lparr>order_size := 0\<rparr>)
      else (amount, ord\<lparr>order_size := order_size ord - amount\<rparr>))"

lemma decrease_size_removed:
  "unat (fst (decrease_size a ord)) = min (unat a) (unat (order_size ord))"
  by (simp add: decrease_size_def Let_def word_le_nat_alt)

lemma decrease_size_left:
  "unat (order_size (snd (decrease_size a ord))) = unat (order_size ord) - unat a"
  by (simp add: decrease_size_def Let_def word_le_nat_alt unat_sub_if_size)

lemma decrease_size_frame [simp]:
  "order_id (snd (decrease_size a ord)) = order_id ord"
  "client_id (snd (decrease_size a ord)) = client_id ord"
  "symbol (snd (decrease_size a ord)) = symbol ord"
  "price (snd (decrease_size a ord)) = price ord"
  "is_buy_side (snd (decrease_size a ord)) = is_buy_side ord"
  "order_type (snd (decrease_size a ord)) = order_type ord"
  "list_node (snd (decrease_size a ord)) = list_node ord"
  by (simp_all add: decrease_size_def Let_def)

section \<open>Text form\<close>

text \<open>
  What the code uses of the \<open>fmt\<close> library and of floating point, as parameters: \<open>fixed d n k\<close>
  is the text of the double quotient of \<open>n\<close> and \<open>k\<close> with \<open>d\<close> decimals, \<open>midpoint n k\<close> that
  of \<open>(double(n) + double(k)) / 200.0\<close> with two, \<open>uint\<close> the text of an integer, and
  \<open>right10\<close> the alignment \<open>{:>10}\<close>.
\<close>

record fmt_ops =
  fixed :: "nat \<Rightarrow> nat \<Rightarrow> nat \<Rightarrow> string"
  midpoint :: "nat \<Rightarrow> nat \<Rightarrow> string"
  uint :: "nat \<Rightarrow> string"
  right10 :: "string \<Rightarrow> string"

definition esc :: string where
  "esc = [char_of (27::nat)]"

definition order_to_string :: "fmt_ops \<Rightarrow> order \<Rightarrow> string" where
  "order_to_string F ord =
     (let color = (if is_buy_side ord then esc @ ''[92m'' else esc @ ''[31m'');
          reset = esc @ ''[0m''
      in color @ (if is_buy_side ord then ''Bid'' else ''Ask'') @ '', '' @ to_string (order_type ord) @
         '': '' @ symbol ord @ '', '' @ fixed F 3 (unat (order_size ord)) 1000 @ '' @ $'' @
         fixed F 2 (unat (price ord)) 100 @ '' [id: '' @ uint F (unat (order_id ord)) @ '']'' @ reset)"

section \<open>An order as an element of the pool\<close>

definition order_overlay :: "order overlay" where
  "order_overlay = \<lparr>get_idx = order_id, set_idx = (\<lambda>w ord. ord\<lparr>order_id := w\<rparr>)\<rparr>"

interpretation om: storage_overlay order_overlay
  by unfold_locales (simp add: order_overlay_def)

section \<open>An order as an element of the queue\<close>

type_synonym order_store = "order element list"

definition order_nodes :: "order_store node_ops" where
  "order_nodes =
     \<lparr>get_node = (\<lambda>st a. if a < length st then Some (list_node (object (st ! a))) else None),
      put_node = (\<lambda>st a n. st[a := (st ! a)\<lparr>object := (object (st ! a))\<lparr>list_node := n\<rparr>\<rparr>])\<rparr>"

text \<open>An order without its links, and everything in a store that is not a link.\<close>

definition core :: "order \<Rightarrow> order" where
  "core ord = ord\<lparr>list_node := null_node\<rparr>"

definition store_core :: "order_store \<Rightarrow> order_store" where
  "store_core st = map (\<lambda>e. e\<lparr>object := core (object e)\<rparr>) st"

lemma core_simps [simp]:
  "order_id (core ord) = order_id ord" "client_id (core ord) = client_id ord"
  "symbol (core ord) = symbol ord" "order_size (core ord) = order_size ord"
  "price (core ord) = price ord" "is_buy_side (core ord) = is_buy_side ord"
  "order_type (core ord) = order_type ord" "list_node (core ord) = null_node"
  "core (core ord) = core ord"
  by (simp_all add: core_def)

lemma core_update [simp]:
  "core (ord\<lparr>list_node := n\<rparr>) = core ord"
  "core (ord\<lparr>order_size := s\<rparr>) = (core ord)\<lparr>order_size := s\<rparr>"
  by (simp_all add: core_def)

lemma get_order_node [simp]:
  "get_node order_nodes st a = (if a < length st then Some (list_node (object (st ! a))) else None)"
  by (simp add: order_nodes_def)

interpretation oh: node_heap order_nodes store_core
proof
  fix st :: order_store and a b n
  show "get_node order_nodes st a \<noteq> None \<Longrightarrow>
      get_node order_nodes (put_node order_nodes st a n) b = (if a = b then Some n else get_node order_nodes st b)"
    by (auto simp: order_nodes_def nth_list_update split: if_splits)
  show "store_core (put_node order_nodes st a n) = store_core st"
    by (cases "a < length st", rule nth_equalityI)
       (auto simp: order_nodes_def store_core_def nth_list_update list_update_beyond)
qed

lemma store_core_length: "store_core st' = store_core st \<Longrightarrow> length st' = length st"
  by (auto simp: store_core_def dest: map_eq_imp_length_eq)

lemma store_core_nth:
  assumes "store_core st' = store_core st" and "i < length st"
  shows "core (object (st' ! i)) = core (object (st ! i))"
    and "is_free_or_in_use (st' ! i) = is_free_or_in_use (st ! i)"
    and "next_free_of order_overlay (st' ! i) = next_free_of order_overlay (st ! i)"
proof -
  have l: "length st' = length st" using assms(1) by (rule store_core_length)
  have "store_core st' ! i = store_core st ! i" using assms(1) by simp
  then have e: "(st' ! i)\<lparr>object := core (object (st' ! i))\<rparr> = (st ! i)\<lparr>object := core (object (st ! i))\<rparr>"
    using assms(2) l by (simp add: store_core_def)
  from arg_cong [OF e, of object] show c: "core (object (st' ! i)) = core (object (st ! i))" by simp
  from arg_cong [OF e, of is_free_or_in_use]
  show "is_free_or_in_use (st' ! i) = is_free_or_in_use (st ! i)" by simp
  from arg_cong [OF c, of order_id]
  show "next_free_of order_overlay (st' ! i) = next_free_of order_overlay (st ! i)"
    by (simp add: next_free_of_def order_overlay_def)
qed

end
