(* ===== verification/Std_Map.thy ===== *)
theory Std_Map
  imports Prelude
begin

text \<open>
  \<open>std::map\<close> as the order book uses it: an association list that is strictly sorted by
  key, with \<open>find\<close>, the subscript operator, a write through an iterator, \<open>erase\<close>,
  \<open>begin\<close> and \<open>rbegin\<close>. The interface \<open>ordered_map\<close> states what the book relies
  on, and the lemmas below the interpretation follow from that interface alone.
\<close>

section \<open>Operations\<close>

type_synonym ('k, 'v) std_map = "('k \<times> 'v) list"

definition std_find :: "('k, 'v) std_map \<Rightarrow> 'k \<Rightarrow> 'v option" where
  "std_find m k = map_of m k"

text \<open>The subscript operator makes sure that the key exists, with a default value.\<close>

fun std_subscript :: "'k::linorder \<Rightarrow> 'v \<Rightarrow> ('k, 'v) std_map \<Rightarrow> ('k, 'v) std_map" where
  "std_subscript k d [] = [(k, d)]"
| "std_subscript k d ((k', v) # m) =
     (if k < k' then (k, d) # (k', v) # m
      else if k = k' then (k', v) # m
      else (k', v) # std_subscript k d m)"

text \<open>A write through an iterator or a reference to the mapped value.\<close>

fun std_assign :: "'k \<Rightarrow> 'v \<Rightarrow> ('k, 'v) std_map \<Rightarrow> ('k, 'v) std_map" where
  "std_assign k v [] = []"
| "std_assign k v ((k', v') # m) = (if k' = k then (k, v) # m else (k', v') # std_assign k v m)"

fun std_erase :: "'k \<Rightarrow> ('k, 'v) std_map \<Rightarrow> ('k, 'v) std_map" where
  "std_erase k [] = []"
| "std_erase k ((k', v') # m) = (if k' = k then m else (k', v') # std_erase k m)"

definition std_begin :: "('k, 'v) std_map \<Rightarrow> ('k \<times> 'v) option" where
  "std_begin m = (case m of [] \<Rightarrow> None | x # _ \<Rightarrow> Some x)"

definition std_rbegin :: "('k, 'v) std_map \<Rightarrow> ('k \<times> 'v) option" where
  "std_rbegin m = (if m = [] then None else Some (last m))"

definition std_keys :: "('k, 'v) std_map \<Rightarrow> 'k list" where
  "std_keys m = map fst m"

definition std_sorted :: "('k::linorder, 'v) std_map \<Rightarrow> bool" where
  "std_sorted m \<longleftrightarrow> sorted_wrt (<) (std_keys m)"

section \<open>Structure of sorted maps\<close>

lemma std_sorted_simps [simp]:
  "std_sorted []"
  "std_sorted ((k, v) # m) \<longleftrightarrow> (\<forall>x \<in> set m. k < fst x) \<and> std_sorted m"
  by (auto simp: std_sorted_def std_keys_def)

lemma std_sorted_append:
  "std_sorted (m1 @ m2) \<longleftrightarrow>
     std_sorted m1 \<and> std_sorted m2 \<and> (\<forall>x \<in> set m1. \<forall>y \<in> set m2. fst x < fst y)"
  by (auto simp: std_sorted_def std_keys_def sorted_wrt_append)

lemma std_sorted_distinct: "std_sorted m \<Longrightarrow> distinct (map fst m)"
  by (simp add: std_sorted_def std_keys_def strict_sorted_iff)

lemma std_find_simps [simp]:
  "std_find [] k = None"
  "std_find ((k', v) # m) k = (if k = k' then Some v else std_find m k)"
  by (auto simp: std_find_def)

lemma std_find_Some_in: "std_find m k = Some v \<Longrightarrow> (k, v) \<in> set m"
  by (simp add: std_find_def map_of_SomeD)

lemma std_find_iff: "std_sorted m \<Longrightarrow> std_find m k = Some v \<longleftrightarrow> (k, v) \<in> set m"
  by (simp add: std_find_def map_of_eq_Some_iff std_sorted_distinct)

lemma std_find_None: "std_find m k = None \<longleftrightarrow> k \<notin> fst ` set m"
  by (simp add: std_find_def map_of_eq_None_iff)

lemma std_find_split:
  assumes "std_sorted m" and "std_find m k = Some v"
  obtains m1 m2 where "m = m1 @ (k, v) # m2"
    "\<forall>x \<in> set m1. fst x < k" "\<forall>x \<in> set m2. k < fst x"
proof -
  from std_find_Some_in [OF assms(2)] obtain m1 m2 where m: "m = m1 @ (k, v) # m2"
    by (auto simp: in_set_conv_decomp)
  with assms(1) have "\<forall>x \<in> set m1. fst x < k" "\<forall>x \<in> set m2. k < fst x"
    by (auto simp: std_sorted_append)
  with m show thesis by (rule that)
qed

lemma std_assign_notin: "k \<notin> fst ` set m \<Longrightarrow> std_assign k v m = m"
  by (induction k v m rule: std_assign.induct) auto

lemma std_erase_notin: "k \<notin> fst ` set m \<Longrightarrow> std_erase k m = m"
  by (induction k m rule: std_erase.induct) auto

lemma std_assign_append:
  "k \<notin> fst ` set m1 \<Longrightarrow> std_assign k w (m1 @ (k, v) # m2) = m1 @ (k, w) # m2"
  by (induction m1) (auto split: prod.splits)

lemma std_erase_append:
  "k \<notin> fst ` set m1 \<Longrightarrow> std_erase k (m1 @ (k, v) # m2) = m1 @ m2"
  by (induction m1) (auto split: prod.splits)

lemma std_erase_assign [simp]: "std_erase k (std_assign k v m) = std_erase k m"
  by (induction k v m rule: std_assign.induct) auto

lemma set_std_assign: "set (std_assign k v m) \<subseteq> insert (k, v) (set m)"
  by (induction k v m rule: std_assign.induct) auto

lemma set_std_assign_eq:
  "std_sorted m \<Longrightarrow> k \<in> fst ` set m \<Longrightarrow>
     set (std_assign k v m) = insert (k, v) {x \<in> set m. fst x \<noteq> k}"
  by (induction k v m rule: std_assign.induct) auto

lemma set_std_subscript: "set (std_subscript k d m) \<subseteq> insert (k, d) (set m)"
  by (induction k d m rule: std_subscript.induct) auto

lemma std_keys_assign [simp]: "std_keys (std_assign k v m) = std_keys m"
  by (induction k v m rule: std_assign.induct) (auto simp: std_keys_def)

lemma std_sorted_assign [simp]: "std_sorted (std_assign k v m) = std_sorted m"
  by (simp add: std_sorted_def)

lemma set_std_erase: "std_sorted m \<Longrightarrow> set (std_erase k m) = {x \<in> set m. fst x \<noteq> k}"
  by (induction k m rule: std_erase.induct) auto

lemma std_sorted_erase: "std_sorted m \<Longrightarrow> std_sorted (std_erase k m)"
  by (induction k m rule: std_erase.induct) (auto simp: set_std_erase)

lemma length_std_erase: "k \<in> fst ` set m \<Longrightarrow> length (std_erase k m) < length m"
  by (induction k m rule: std_erase.induct) auto

lemma keys_std_subscript: "fst ` set (std_subscript k d m) = insert k (fst ` set m)"
  by (induction k d m rule: std_subscript.induct) auto

lemma std_subscript_notin:
  "\<forall>x \<in> set m1. fst x < k \<Longrightarrow> \<forall>x \<in> set m2. k < fst x \<Longrightarrow>
   std_subscript k d (m1 @ m2) = m1 @ (k, d) # m2"
proof (induction m1)
  case Nil
  then show ?case by (cases m2) auto
next
  case (Cons x m1)
  then show ?case by (cases x) auto
qed

lemma std_subscript_present:
  "std_sorted m \<Longrightarrow> k \<in> fst ` set m \<Longrightarrow> std_subscript k d m = m"
  by (induction k d m rule: std_subscript.induct) (auto simp: dest: order.asym)

lemma std_sorted_subscript: "std_sorted m \<Longrightarrow> std_sorted (std_subscript k d m)"
proof (induction k d m rule: std_subscript.induct)
  case (2 k d k' v m)
  moreover have "\<forall>x \<in> set (std_subscript k d m). fst x \<in> insert k (fst ` set m)"
    using keys_std_subscript [of k d m] by blast
  ultimately show ?case by fastforce
qed simp

lemma std_find_split_absent:
  assumes "std_sorted m" and "std_find m k = None"
  obtains m1 m2 where "m = m1 @ m2" "\<forall>x \<in> set m1. fst x < k" "\<forall>x \<in> set m2. k < fst x"
proof
  let ?P = "\<lambda>x. fst x < k"
  show "m = takeWhile ?P m @ dropWhile ?P m" by simp
  show "\<forall>x \<in> set (takeWhile ?P m). fst x < k" by (auto dest: set_takeWhileD)
  show "\<forall>x \<in> set (dropWhile ?P m). k < fst x"
    using assms
  proof (induction m)
    case (Cons a m)
    then show ?case by (cases a) (force split: if_splits)
  qed simp
qed

section \<open>The interface\<close>

locale ordered_map =
  fixes find :: "'m \<Rightarrow> 'k::linorder \<Rightarrow> 'v option"
    and subscript :: "'k \<Rightarrow> 'v \<Rightarrow> 'm \<Rightarrow> 'm"
    and assign :: "'k \<Rightarrow> 'v \<Rightarrow> 'm \<Rightarrow> 'm"
    and erase :: "'k \<Rightarrow> 'm \<Rightarrow> 'm"
    and first :: "'m \<Rightarrow> ('k \<times> 'v) option"
    and final :: "'m \<Rightarrow> ('k \<times> 'v) option"
    and inv :: "'m \<Rightarrow> bool"
  assumes find_subscript: "inv m \<Longrightarrow> find (subscript k d m) j =
            (if j = k then (case find m k of None \<Rightarrow> Some d | Some v \<Rightarrow> Some v) else find m j)"
    and find_assign: "inv m \<Longrightarrow> find (assign k v m) j =
            (if j = k then map_option (\<lambda>_. v) (find m k) else find m j)"
    and find_erase: "inv m \<Longrightarrow> find (erase k m) j = (if j = k then None else find m j)"
    and first_None: "inv m \<Longrightarrow> first m = None \<longleftrightarrow> (\<forall>k. find m k = None)"
    and first_Some: "inv m \<Longrightarrow> first m = Some (k, v) \<Longrightarrow>
            find m k = Some v \<and> (\<forall>j. find m j \<noteq> None \<longrightarrow> k \<le> j)"
    and final_None: "inv m \<Longrightarrow> final m = None \<longleftrightarrow> (\<forall>k. find m k = None)"
    and final_Some: "inv m \<Longrightarrow> final m = Some (k, v) \<Longrightarrow>
            find m k = Some v \<and> (\<forall>j. find m j \<noteq> None \<longrightarrow> j \<le> k)"
    and inv_subscript: "inv m \<Longrightarrow> inv (subscript k d m)"
    and inv_assign: "inv m \<Longrightarrow> inv (assign k v m)"
    and inv_erase: "inv m \<Longrightarrow> inv (erase k m)"
begin

text \<open>Write-after-subscript stores: \<open>levels[k]\<close> followed by a write of \<open>v\<close> is an update.\<close>

lemma find_store:
  "inv m \<Longrightarrow> find (assign k v (subscript k d m)) j = (if j = k then Some v else find m j)"
  by (auto simp: find_assign find_subscript inv_subscript split: option.splits)

lemma erase_first_increases:
  assumes "inv m" "first m = Some (k, v)" "first (erase k m) = Some (j, w)"
  shows "k < j"
proof -
  have "find (erase k m) j = Some w"
    using first_Some [OF inv_erase [OF assms(1)] assms(3)] by blast
  then have "j \<noteq> k" "find m j = Some w"
    using find_erase [OF assms(1), of k j] by (auto split: if_splits)
  moreover have "k \<le> j" using first_Some [OF assms(1,2)] \<open>find m j = Some w\<close> by simp
  ultimately show ?thesis by simp
qed

lemma erase_final_decreases:
  assumes "inv m" "final m = Some (k, v)" "final (erase k m) = Some (j, w)"
  shows "j < k"
proof -
  have "find (erase k m) j = Some w"
    using final_Some [OF inv_erase [OF assms(1)] assms(3)] by blast
  then have "j \<noteq> k" "find m j = Some w"
    using find_erase [OF assms(1), of k j] by (auto split: if_splits)
  moreover have "j \<le> k" using final_Some [OF assms(1,2)] \<open>find m j = Some w\<close> by simp
  ultimately show ?thesis by simp
qed

lemma first_le_final:
  assumes "inv m" "first m = Some (k, v)" "final m = Some (j, w)"
  shows "k \<le> j"
  using first_Some [OF assms(1,2)] final_Some [OF assms(1,3)] by simp

end

lemma std_find_subscript:
  "std_sorted m \<Longrightarrow> std_find (std_subscript k d m) j =
     (if j = k then (case std_find m k of None \<Rightarrow> Some d | Some v \<Rightarrow> Some v) else std_find m j)"
proof (induction k d m rule: std_subscript.induct)
  case (2 k d k' v m)
  have "k < k' \<Longrightarrow> std_find m k = None"
    using 2(2) by (force simp: std_find_None)
  with 2 show ?case by auto
qed simp

lemma std_find_assign:
  "std_find (std_assign k v m) j = (if j = k then map_option (\<lambda>_. v) (std_find m k) else std_find m j)"
  by (induction k v m rule: std_assign.induct) auto

lemma std_find_erase:
  "std_sorted m \<Longrightarrow> std_find (std_erase k m) j = (if j = k then None else std_find m j)"
proof (induction k m rule: std_erase.induct)
  case (2 k k' v' m)
  have "std_find m k' = None" using 2(2) by (force simp: std_find_None)
  with 2 show ?case by auto
qed simp

lemma std_begin_Some:
  "std_sorted m \<Longrightarrow> std_begin m = Some (k, v) \<Longrightarrow>
     std_find m k = Some v \<and> (\<forall>j. std_find m j \<noteq> None \<longrightarrow> k \<le> j)"
  by (cases m) (auto simp: std_begin_def dest!: std_find_Some_in intro: less_imp_le)

lemma std_rbegin_Some:
  assumes "std_sorted m" and "std_rbegin m = Some (k, v)"
  shows "std_find m k = Some v \<and> (\<forall>j. std_find m j \<noteq> None \<longrightarrow> j \<le> k)"
proof -
  from assms(2) obtain m' where m: "m = m' @ [(k, v)]"
    by (cases m rule: rev_cases) (auto simp: std_rbegin_def)
  from assms(1) m have "std_find m k = Some v" by (simp add: std_find_iff)
  moreover have "\<forall>j. std_find m j \<noteq> None \<longrightarrow> j \<le> k"
    using assms(1) m by (fastforce simp: std_sorted_append dest!: std_find_Some_in)
  ultimately show ?thesis by blast
qed

interpretation sm: ordered_map std_find std_subscript std_assign std_erase std_begin std_rbegin std_sorted
proof unfold_locales
  fix m :: "('k::linorder, 'v) std_map"
  show "std_begin m = None \<longleftrightarrow> (\<forall>k. std_find m k = None)"
    by (cases m) (auto simp: std_begin_def)
  show "std_rbegin m = None \<longleftrightarrow> (\<forall>k. std_find m k = None)"
    by (cases m) (auto simp: std_rbegin_def)
qed (simp_all add: std_find_subscript std_find_assign std_find_erase std_begin_Some std_rbegin_Some
       std_sorted_subscript std_sorted_erase)

end
