(* ===== verification/Order_Book.thy ===== *)
theory Order_Book
  imports Order_Model Std_Map
begin

text \<open>
  \<open>project/order_book.cpp\<close> and \<open>project/order_book.hpp\<close>: the order book, with one definition
  per method. The state is the pool of orders and the two maps from prices to levels; each
  call of \<open>spdlog::info\<close> appends an event to \<open>book_log\<close>.
\<close>

section \<open>State\<close>

text \<open>An event carries the order it prints, without the links, which are not printed.\<close>

datatype event =
    Incoming order
  | Matched u32 order
  | Closing order
  | Resting order
  | Fully_Matched order
  | Cancelled order

record order_book =
  book_symbol :: string
  order_pool :: "order mem_pool"
  bid_levels :: "(u64, queue) std_map"
  ask_levels :: "(u64, queue) std_map"
  book_log :: "event list"

definition order_book_new :: "string \<Rightarrow> size_t \<Rightarrow> order_book result" where
  "order_book_new sy pool_size =
     rbind (mem_pool_new order_overlay zero_order pool_size) (\<lambda>pool.
       Inr \<lparr>book_symbol = sy, order_pool = pool, bid_levels = [], ask_levels = [], book_log = []\<rparr>)"

definition log_line :: "fmt_ops \<Rightarrow> event \<Rightarrow> string" where
  "log_line F ev = (case ev of
     Incoming ord \<Rightarrow> ''(Incoming): '' @ order_to_string F ord
   | Matched m ord \<Rightarrow> ''(Matched '' @ fixed F 3 (unat m) 1000 @ '' with): '' @ order_to_string F ord
   | Closing ord \<Rightarrow> ''(Closing): '' @ order_to_string F ord
   | Resting ord \<Rightarrow> ''(Resting): '' @ order_to_string F ord
   | Fully_Matched ord \<Rightarrow> ''(Fully Matched): '' @ order_to_string F ord
   | Cancelled ord \<Rightarrow> ''(Cancelled): '' @ order_to_string F ord)"

definition get_bid_levels :: "order_book \<Rightarrow> (u64, queue) std_map" where
  "get_bid_levels b = bid_levels b"

definition get_ask_levels :: "order_book \<Rightarrow> (u64, queue) std_map" where
  "get_ask_levels b = ask_levels b"

text \<open>Reads and writes of an order through a pointer.\<close>

definition read_order :: "order mem_pool \<Rightarrow> ptr \<Rightarrow> order result" where
  "read_order pool p = (case p of
     None \<Rightarrow> Inl NullDeref
   | Some i \<Rightarrow> if i < length (store pool) then Inr (object (store pool ! i)) else Inl OutOfRange)"

definition write_order :: "order mem_pool \<Rightarrow> ptr \<Rightarrow> order \<Rightarrow> order mem_pool" where
  "write_order pool p ord = (case p of
     None \<Rightarrow> pool
   | Some i \<Rightarrow> pool\<lparr>store := (store pool)[i := (store pool ! i)\<lparr>object := ord\<rparr>]\<rparr>)"

section \<open>Matching at one level\<close>

record match_state =
  ms_pool :: "order mem_pool"
  ms_level :: queue
  ms_total :: u32
  ms_log :: "event list"

text \<open>The body of the loop of \<open>matchAtLevel\<close>.\<close>

definition match_step :: "u32 \<Rightarrow> match_state \<Rightarrow> match_state result" where
  "match_step sz s =
     (let p = q_peek (ms_level s) in
      rbind (read_order (ms_pool s) p) (\<lambda>ord.
        let amount_to_match = sz - ms_total s;
            (matched, ord') = decrease_size amount_to_match ord;
            s1 = s\<lparr>ms_pool := write_order (ms_pool s) p ord',
                   ms_log := ms_log s @ [Matched matched (core ord')],
                   ms_total := ms_total s + matched\<rparr>
        in if order_size ord' = 0 then
             rbind (q_remove order_nodes p (store (ms_pool s1), ms_level s1)) (\<lambda>(st, level).
               let s2 = s1\<lparr>ms_pool := (ms_pool s1)\<lparr>store := st\<rparr>, ms_level := level\<rparr> in
               rbind (read_order (ms_pool s2) p) (\<lambda>closed.
                 let s3 = s2\<lparr>ms_log := ms_log s2 @ [Closing (core closed)]\<rparr> in
                 rbind (deallocate order_overlay p (ms_pool s3)) (\<lambda>pool.
                   Inr (s3\<lparr>ms_pool := pool\<rparr>))))
           else Inr s1))"

definition match_guard :: "u32 \<Rightarrow> match_state \<Rightarrow> bool" where
  "match_guard sz s \<longleftrightarrow> \<not> q_empty (ms_level s) \<and> ms_total s < sz"

text \<open>
  A step either removes the head of the level, or fills the incoming size: the loop ends on
  every state, corrupted ones included.
\<close>

lemma match_step_progress:
  assumes "match_step sz s = Inr s'" and "match_guard sz s"
  shows "unat (q_size (ms_level s')) < unat (q_size (ms_level s)) \<or>
    q_size (ms_level s') = q_size (ms_level s) \<and> ms_total s' = sz"
proof -
  from assms(1) obtain ord where rd: "read_order (ms_pool s) (q_peek (ms_level s)) = Inr ord"
    by (auto simp: match_step_def Let_def elim!: rbind_InrE)
  obtain matched ord' where d: "decrease_size (sz - ms_total s) ord = (matched, ord')" by fastforce
  show ?thesis
  proof (cases "order_size ord' = 0")
    case True
    with assms(1) rd d have "q_size (ms_level s') = q_size (ms_level s) - 1"
      by (auto simp: match_step_def Let_def rbind_eq_Inr dest: q_remove_size)
    moreover have "q_size (ms_level s) \<noteq> 0" using assms(2) by (simp add: match_guard_def q_empty_def)
    ultimately show ?thesis by (simp add: unat_minus_one unat_gt_0)
  next
    case False
    with d have "matched = sz - ms_total s" by (auto simp: decrease_size_def Let_def split: if_splits)
    with False assms(1) rd d show ?thesis by (auto simp: match_step_def Let_def)
  qed
qed

function match_at_level :: "u32 \<Rightarrow> match_state \<Rightarrow> match_state result" where
  "match_at_level sz s =
     (if match_guard sz s then
        (case match_step sz s of Inl e \<Rightarrow> Inl e | Inr s' \<Rightarrow> match_at_level sz s')
      else Inr s)"
  by pat_completeness auto
termination
proof (relation "measures [\<lambda>(sz, s). unat (q_size (ms_level s)), \<lambda>(sz, s). if ms_total s < sz then 1 else 0]")
  fix sz s s'
  assume "match_guard sz s" "match_step sz s = Inr s'"
  then show "((sz, s'), sz, s) \<in> measures [\<lambda>(sz, s). unat (q_size (ms_level s)),
      \<lambda>(sz, s). if ms_total s < sz then 1 else 0]"
    using match_step_progress [of sz s s'] by (auto simp: match_guard_def)
qed simp

declare match_at_level.simps [simp del]

section \<open>Matching across levels\<close>

function match_bid_order ::
  "u64 \<Rightarrow> u32 \<Rightarrow> order_type \<Rightarrow> u32 \<Rightarrow> order_book \<Rightarrow> (u32 \<times> order_book) result"
where
  "match_bid_order pr sz ty total_matched b =
     (if total_matched < sz then
        (case std_begin (ask_levels b) of
           None \<Rightarrow> Inr (total_matched, b)
         | Some (k, level) \<Rightarrow>
             if ty = Limit \<and> k > pr then Inr (total_matched, b)
             else
               (case match_at_level sz \<lparr>ms_pool = order_pool b, ms_level = level,
                                          ms_total = total_matched, ms_log = book_log b\<rparr> of
                  Inl e \<Rightarrow> Inl e
                | Inr s \<Rightarrow>
                    (let b1 = b\<lparr>order_pool := ms_pool s, book_log := ms_log s,
                                ask_levels := std_assign k (ms_level s) (ask_levels b)\<rparr>
                     in if q_empty (ms_level s) then
                          match_bid_order pr sz ty (ms_total s) (b1\<lparr>ask_levels := std_erase k (ask_levels b1)\<rparr>)
                        else Inr (ms_total s, b1))))
      else Inr (total_matched, b))"
  by pat_completeness auto
termination
proof (relation "measure (\<lambda>(pr, sz, ty, total_matched, b). length (ask_levels b))")
  fix pr :: u64 and sz :: u32 and ty and total_matched :: u32 and b kl k level s b1
  assume "std_begin (ask_levels b) = Some kl" "(k, level) = kl"
    "b1 = b\<lparr>order_pool := ms_pool s, book_log := ms_log s,
            ask_levels := std_assign k (ms_level s) (ask_levels b)\<rparr>"
  then show "((pr, sz, ty, ms_total s, b1\<lparr>ask_levels := std_erase k (ask_levels b1)\<rparr>),
      pr, sz, ty, total_matched, b) \<in> measure (\<lambda>(pr, sz, ty, total_matched, b). length (ask_levels b))"
    by (auto simp: std_begin_def split: list.splits)
qed simp

function match_ask_order ::
  "u64 \<Rightarrow> u32 \<Rightarrow> order_type \<Rightarrow> u32 \<Rightarrow> order_book \<Rightarrow> (u32 \<times> order_book) result"
where
  "match_ask_order pr sz ty total_matched b =
     (if total_matched < sz then
        (case std_rbegin (bid_levels b) of
           None \<Rightarrow> Inr (total_matched, b)
         | Some (k, level) \<Rightarrow>
             if ty = Limit \<and> k < pr then Inr (total_matched, b)
             else
               (case match_at_level sz \<lparr>ms_pool = order_pool b, ms_level = level,
                                          ms_total = total_matched, ms_log = book_log b\<rparr> of
                  Inl e \<Rightarrow> Inl e
                | Inr s \<Rightarrow>
                    (let b1 = b\<lparr>order_pool := ms_pool s, book_log := ms_log s,
                                bid_levels := std_assign k (ms_level s) (bid_levels b)\<rparr>
                     in if q_empty (ms_level s) then
                          match_ask_order pr sz ty (ms_total s) (b1\<lparr>bid_levels := std_erase k (bid_levels b1)\<rparr>)
                        else Inr (ms_total s, b1))))
      else Inr (total_matched, b))"
  by pat_completeness auto
termination
proof (relation "measure (\<lambda>(pr, sz, ty, total_matched, b). length (bid_levels b))")
  fix pr :: u64 and sz :: u32 and ty and total_matched :: u32 and b kl k level s b1
  assume a: "std_rbegin (bid_levels b) = Some kl" "(k, level) = kl"
    "b1 = b\<lparr>order_pool := ms_pool s, book_log := ms_log s,
            bid_levels := std_assign k (ms_level s) (bid_levels b)\<rparr>"
  then have "k \<in> fst ` set (bid_levels b)" by (force simp: std_rbegin_def split: if_splits dest: last_in_set)
  then have "k \<in> fst ` set (bid_levels b1)"
    using std_keys_assign [of k "ms_level s" "bid_levels b"] a(3) by (simp add: std_keys_def flip: set_map)
  then have "length (std_erase k (bid_levels b1)) < length (bid_levels b1)" by (rule length_std_erase)
  moreover have "length (bid_levels b1) = length (bid_levels b)"
    using std_keys_assign [of k "ms_level s" "bid_levels b"] a(3)
    by (auto simp: std_keys_def dest: map_eq_imp_length_eq)
  ultimately show "((pr, sz, ty, ms_total s, b1\<lparr>bid_levels := std_erase k (bid_levels b1)\<rparr>),
      pr, sz, ty, total_matched, b) \<in> measure (\<lambda>(pr, sz, ty, total_matched, b). length (bid_levels b))"
    by simp
qed simp

declare match_bid_order.simps [simp del] match_ask_order.simps [simp del]

section \<open>Adding and cancelling orders\<close>

definition side_levels :: "bool \<Rightarrow> order_book \<Rightarrow> (u64, queue) std_map" where
  "side_levels buy b = (if buy then bid_levels b else ask_levels b)"

definition set_side_levels :: "bool \<Rightarrow> (u64, queue) std_map \<Rightarrow> order_book \<Rightarrow> order_book" where
  "set_side_levels buy m b = (if buy then b\<lparr>bid_levels := m\<rparr> else b\<lparr>ask_levels := m\<rparr>)"

text \<open>\<open>levels[price].append(order)\<close>: the subscript creates an empty level where there is none.\<close>

definition append_to_level :: "bool \<Rightarrow> u64 \<Rightarrow> ptr \<Rightarrow> order_book \<Rightarrow> order_book result" where
  "append_to_level buy pr p b =
     (let levels = std_subscript pr empty_queue (side_levels buy b) in
      case std_find levels pr of
        None \<Rightarrow> Inl OutOfRange
      | Some level \<Rightarrow>
          rbind (q_append order_nodes p (store (order_pool b), level)) (\<lambda>(st, level').
            Inr (set_side_levels buy (std_assign pr level' levels)
                   (b\<lparr>order_pool := (order_pool b)\<lparr>store := st\<rparr>\<rparr>))))"

definition add_order ::
  "u64 \<Rightarrow> u64 \<Rightarrow> u32 \<Rightarrow> u64 \<Rightarrow> bool \<Rightarrow> order_type \<Rightarrow> order_book \<Rightarrow> (ptr \<times> order_book) result"
where
  "add_order oid cid sz pr buy ty b =
     (case allocate order_overlay (order_pool b) (mk_order oid cid (book_symbol b) sz pr buy ty) of
        (None, _) \<Rightarrow> Inr (None, b)
      | (Some i, pool) \<Rightarrow>
          rbind (read_order pool (Some i)) (\<lambda>incoming.
            let b1 = b\<lparr>order_pool := pool, book_log := book_log b @ [Incoming (core incoming)]\<rparr> in
            rbind (if buy then match_bid_order pr sz ty 0 b1 else match_ask_order pr sz ty 0 b1)
              (\<lambda>(matched_size, b2).
                rbind (read_order (order_pool b2) (Some i)) (\<lambda>ord.
                  let ord' = snd (decrease_size matched_size ord);
                      b3 = b2\<lparr>order_pool := write_order (order_pool b2) (Some i) ord'\<rparr>
                  in if matched_size < sz then
                       rbind (append_to_level buy pr (Some i)
                                (b3\<lparr>book_log := book_log b3 @ [Resting (core ord')]\<rparr>)) (\<lambda>b4.
                         Inr (Some i, b4))
                     else Inr (Some i, b3\<lparr>book_log := book_log b3 @ [Fully_Matched (core ord')]\<rparr>)))))"

text \<open>The part of \<open>cancelOrder\<close> under the \<open>find\<close>: unlink the order, and erase an empty level.\<close>

definition remove_from_level :: "bool \<Rightarrow> u64 \<Rightarrow> ptr \<Rightarrow> order_book \<Rightarrow> order_book result" where
  "remove_from_level buy pr p b =
     (case std_find (side_levels buy b) pr of
        None \<Rightarrow> Inr b
      | Some level \<Rightarrow>
          rbind (q_remove order_nodes p (store (order_pool b), level)) (\<lambda>(st, level').
            let levels = std_assign pr level' (side_levels buy b) in
            Inr (set_side_levels buy (if q_empty level' then std_erase pr levels else levels)
                   (b\<lparr>order_pool := (order_pool b)\<lparr>store := st\<rparr>\<rparr>))))"

definition cancel_order :: "ptr \<Rightarrow> order_book \<Rightarrow> order_book result" where
  "cancel_order p b =
     (if p = None then Inr b
      else
        rbind (read_order (order_pool b) p) (\<lambda>ord.
        rbind (remove_from_level (is_buy_side ord) (price ord) p b) (\<lambda>b1.
        rbind (read_order (order_pool b1) p) (\<lambda>cancelled.
          let b2 = b1\<lparr>book_log := book_log b1 @ [Cancelled (core cancelled)]\<rparr> in
          rbind (deallocate order_overlay p (order_pool b2)) (\<lambda>pool.
            Inr (b2\<lparr>order_pool := pool\<rparr>))))))"

end
