(* ===== verification/Book_Spec.thy ===== *)
theory Book_Spec
  imports Order_Book
begin

text \<open>
  The abstract order book: each price has the list of its resting orders in time order,
  without pointers, queues or an array of elements, and the free slots are a stack. The
  functions below say what matching, adding and cancelling mean on it; \<open>Book_Refine\<close> shows
  that the pointer code implements them, and \<open>Book_Priority\<close> what they promise.
\<close>

section \<open>State\<close>

type_synonym entry = "nat \<times> order"
type_synonym levels = "(u64, entry list) std_map"

record spec_book =
  sb_symbol :: string
  sb_free :: "nat list"
  sb_bids :: levels
  sb_asks :: levels
  sb_log :: "event list"

definition sb_side :: "bool \<Rightarrow> spec_book \<Rightarrow> levels" where
  "sb_side buy A = (if buy then sb_bids A else sb_asks A)"

definition set_sb_side :: "bool \<Rightarrow> levels \<Rightarrow> spec_book \<Rightarrow> spec_book" where
  "set_sb_side buy ls A = (if buy then A\<lparr>sb_bids := ls\<rparr> else A\<lparr>sb_asks := ls\<rparr>)"

section \<open>Matching\<close>

text \<open>
  One level: orders are filled from the front. The result is what is left of the level, the
  total matched, the slots closed and the events.
\<close>

fun spec_level :: "u32 \<Rightarrow> u32 \<Rightarrow> entry list \<Rightarrow> entry list \<times> u32 \<times> nat list \<times> event list" where
  "spec_level sz t [] = ([], t, [], [])"
| "spec_level sz t ((p, ord) # es) =
     (if t < sz then
        (case decrease_size (sz - t) ord of (m, ord') \<Rightarrow>
           if order_size ord' = 0 then
             (case spec_level sz (t + m) es of (es', t', cl, ev) \<Rightarrow>
                (es', t', p # cl, Matched m ord' # Closing ord' # ev))
           else ((p, ord') # es, t + m, [], [Matched m ord']))
      else ((p, ord) # es, t, [], []))"

text \<open>All levels, best price first; \<open>ok\<close> says which prices are acceptable.\<close>

fun spec_sweep ::
  "(u64 \<Rightarrow> bool) \<Rightarrow> u32 \<Rightarrow> u32 \<Rightarrow> levels \<Rightarrow> levels \<times> u32 \<times> nat list \<times> event list"
where
  "spec_sweep ok sz t [] = ([], t, [], [])"
| "spec_sweep ok sz t ((k, es) # ls) =
     (if t < sz \<and> ok k then
        (case spec_level sz t es of (es', t', cl, ev) \<Rightarrow>
           if es' = [] then
             (case spec_sweep ok sz t' ls of (ls', t'', cl', ev') \<Rightarrow> (ls', t'', cl @ cl', ev @ ev'))
           else ((k, es') # ls, t', cl, ev))
      else ((k, es) # ls, t, [], []))"

definition bid_accepts :: "order_type \<Rightarrow> u64 \<Rightarrow> u64 \<Rightarrow> bool" where
  "bid_accepts ty pr k \<longleftrightarrow> (ty = Limit \<longrightarrow> k \<le> pr)"

definition ask_accepts :: "order_type \<Rightarrow> u64 \<Rightarrow> u64 \<Rightarrow> bool" where
  "ask_accepts ty pr k \<longleftrightarrow> (ty = Limit \<longrightarrow> pr \<le> k)"

definition spec_match_bid :: "u64 \<Rightarrow> u32 \<Rightarrow> order_type \<Rightarrow> u32 \<Rightarrow> spec_book \<Rightarrow> u32 \<times> spec_book" where
  "spec_match_bid pr sz ty t A =
     (case spec_sweep (bid_accepts ty pr) sz t (sb_asks A) of (ls, t', cl, ev) \<Rightarrow>
        (t', A\<lparr>sb_free := rev cl @ sb_free A, sb_log := sb_log A @ ev, sb_asks := ls\<rparr>))"

definition spec_match_ask :: "u64 \<Rightarrow> u32 \<Rightarrow> order_type \<Rightarrow> u32 \<Rightarrow> spec_book \<Rightarrow> u32 \<times> spec_book" where
  "spec_match_ask pr sz ty t A =
     (case spec_sweep (ask_accepts ty pr) sz t (rev (sb_bids A)) of (ls, t', cl, ev) \<Rightarrow>
        (t', A\<lparr>sb_free := rev cl @ sb_free A, sb_log := sb_log A @ ev, sb_bids := rev ls\<rparr>))"

section \<open>Adding and cancelling\<close>

definition spec_rest :: "u64 \<Rightarrow> entry \<Rightarrow> levels \<Rightarrow> levels" where
  "spec_rest pr e ls =
     (let ls' = std_subscript pr [] ls in
      case std_find ls' pr of None \<Rightarrow> ls' | Some es \<Rightarrow> std_assign pr (es @ [e]) ls')"

definition spec_add ::
  "u64 \<Rightarrow> u64 \<Rightarrow> u32 \<Rightarrow> u64 \<Rightarrow> bool \<Rightarrow> order_type \<Rightarrow> spec_book \<Rightarrow> ptr \<times> spec_book"
where
  "spec_add oid cid sz pr buy ty A =
     (case sb_free A of
        [] \<Rightarrow> (None, A)
      | f # fs \<Rightarrow>
          (let ord = mk_order oid cid (sb_symbol A) sz pr buy ty;
               A1 = A\<lparr>sb_free := fs, sb_log := sb_log A @ [Incoming ord]\<rparr>
           in case (if buy then spec_match_bid pr sz ty 0 A1 else spec_match_ask pr sz ty 0 A1) of
                (m, A2) \<Rightarrow>
                  (let ord' = snd (decrease_size m ord) in
                   if m < sz then
                     (Some f, set_sb_side buy (spec_rest pr (f, ord') (sb_side buy A2))
                                (A2\<lparr>sb_log := sb_log A2 @ [Resting ord']\<rparr>))
                   else (Some f, A2\<lparr>sb_log := sb_log A2 @ [Fully_Matched ord']\<rparr>))))"

definition spec_unlink :: "u64 \<Rightarrow> nat \<Rightarrow> levels \<Rightarrow> levels" where
  "spec_unlink pr p ls =
     (case std_find ls pr of
        None \<Rightarrow> ls
      | Some es \<Rightarrow>
          (let es' = filter (\<lambda>e. fst e \<noteq> p) es
           in if es' = [] then std_erase pr ls else std_assign pr es' ls))"

definition spec_cancel :: "nat \<Rightarrow> order \<Rightarrow> spec_book \<Rightarrow> spec_book" where
  "spec_cancel p ord A =
     (set_sb_side (is_buy_side ord) (spec_unlink (price ord) p (sb_side (is_buy_side ord) A)) A)
       \<lparr>sb_free := p # sb_free A, sb_log := sb_log A @ [Cancelled ord]\<rparr>"

section \<open>Shape of the results\<close>

text \<open>What is left of a level is a suffix of it, where only the first order may have shrunk.\<close>

lemma spec_level_rest:
  "spec_level sz t es = (es', t', cl, ev) \<Longrightarrow> (p, ord') \<in> set es' \<Longrightarrow>
     \<exists>ord. (p, ord) \<in> set es \<and> ord' = ord\<lparr>order_size := order_size ord'\<rparr> \<and>
           (order_size ord \<noteq> 0 \<longrightarrow> order_size ord' \<noteq> 0)"
proof (induction sz t es arbitrary: es' t' cl ev rule: spec_level.induct)
  case (2 sz t p0 ord0 es)
  obtain m o1 where d: "decrease_size (sz - t) ord0 = (m, o1)" by fastforce
  have o1: "o1 = ord0\<lparr>order_size := order_size o1\<rparr>"
    using d by (auto simp: decrease_size_def Let_def split: if_splits)
  show ?case
  proof (cases "t < sz \<and> order_size o1 = 0")
    case True
    then obtain cl1 ev1 where "spec_level sz (t + m) es = (es', t', cl1, ev1)"
      using "2.prems"(1) d by (auto split: prod.splits)
    with 2 True d show ?thesis by fastforce
  next
    case False
    then consider "p = p0" "ord' = o1" "order_size o1 \<noteq> 0" | "p = p0" "ord' = ord0" | "(p, ord') \<in> set es"
      using "2.prems" d by (auto split: if_splits)
    then show ?thesis
    proof cases
      case 1
      with o1 show ?thesis by (intro exI [of _ ord0]) simp
    qed auto
  qed
qed simp

lemma spec_level_rest_all:
  assumes "spec_level sz t es = (es', t', cl, ev)"
    and "\<forall>(p, ord) \<in> set es. price ord = k \<and> is_buy_side ord = buy \<and> order_size ord \<noteq> 0"
  shows "\<forall>(p, ord) \<in> set es'. price ord = k \<and> is_buy_side ord = buy \<and> order_size ord \<noteq> 0"
proof (clarify, intro conjI)
  fix p ord' assume "(p, ord') \<in> set es'"
  from spec_level_rest [OF assms(1) this] obtain ord where ord: "(p, ord) \<in> set es"
    and eq: "ord' = ord\<lparr>order_size := order_size ord'\<rparr>" and nz: "order_size ord \<noteq> 0 \<longrightarrow> order_size ord' \<noteq> 0"
    by blast
  from assms(2) ord have "price ord = k" "is_buy_side ord = buy" "order_size ord \<noteq> 0" by auto
  with arg_cong [OF eq, of price] arg_cong [OF eq, of is_buy_side] nz
  show "price ord' = k" "is_buy_side ord' = buy" "order_size ord' \<noteq> 0" by simp_all
qed

lemma spec_level_slots:
  "spec_level sz t es = (es', t', cl, ev) \<Longrightarrow> map fst es = cl @ map fst es'"
proof (induction sz t es arbitrary: es' t' cl ev rule: spec_level.induct)
  case (2 sz t p0 ord0 es)
  obtain m o1 where d: "decrease_size (sz - t) ord0 = (m, o1)" by fastforce
  with 2 show ?case by (auto split: if_splits prod.splits)
qed simp

definition side_slots :: "levels \<Rightarrow> nat set" where
  "side_slots als = (\<Union>(k, es) \<in> set als. fst ` set es)"

lemma side_slots_simps [simp]:
  "side_slots [] = {}"
  "side_slots ((k, es) # als) = fst ` set es \<union> side_slots als"
  "side_slots (als @ bls) = side_slots als \<union> side_slots bls"
  "side_slots (rev als) = side_slots als"
  by (auto simp: side_slots_def)

lemma side_slots_in: "(k, es) \<in> set als \<Longrightarrow> fst ` set es \<subseteq> side_slots als"
  by (auto simp: side_slots_def)

lemma spec_sweep_slots:
  "spec_sweep ok sz t ls = (ls', t', cl, ev) \<Longrightarrow> side_slots ls = set cl \<union> side_slots ls'"
proof (induction ok sz t ls arbitrary: ls' t' cl ev rule: spec_sweep.induct)
  case (2 ok sz t k es ls)
  obtain es1 t1 cl1 ev1 where sl: "spec_level sz t es = (es1, t1, cl1, ev1)" by (metis prod_cases4)
  have slots: "fst ` set es = set cl1 \<union> fst ` set es1"
    using arg_cong [OF spec_level_slots [OF sl], of set] by simp
  obtain ls2 t2 cl2 ev2 where sw: "spec_sweep ok sz t1 ls = (ls2, t2, cl2, ev2)" by (metis prod_cases4)
  consider "\<not> (t < sz \<and> ok k)" | "t < sz \<and> ok k" "es1 \<noteq> []" | "t < sz \<and> ok k" "es1 = []" by blast
  then show ?case
  proof cases
    case 1
    then have "spec_sweep ok sz t ((k, es) # ls) = ((k, es) # ls, t, [], [])" by auto
    with "2.prems" show ?thesis by auto
  next
    case 2
    then have "spec_sweep ok sz t ((k, es) # ls) = ((k, es1) # ls, t1, cl1, ev1)" using sl by simp
    with "2.prems" slots show ?thesis by auto
  next
    case 3
    then have eq: "spec_sweep ok sz t ((k, es) # ls) = (ls2, t2, cl1 @ cl2, ev1 @ ev2)" using sl sw by simp
    have "side_slots ls = set cl2 \<union> side_slots ls2" by (rule "2.IH" [OF 3(1) sl [symmetric] refl refl 3(2) sw])
    with eq "2.prems" slots 3(2) show ?thesis by auto
  qed
qed simp

end
