(* ===== verification/Book_Repr.thy ===== *)
theory Book_Repr
  imports Book_Spec
begin

text \<open>
  The relation between the pointer state of the order book and the abstract book:
  \<open>level_repr\<close> for one level (the queue's links spell the list of its orders), \<open>side_repr\<close> for
  the levels of a side, \<open>book_repr\<close> for the book. The step of \<open>matchAtLevel\<close> and the whole loop
  preserve it for one level.
\<close>

section \<open>The relation on levels\<close>

definition entries_ok :: "order_store \<Rightarrow> entry list \<Rightarrow> bool" where
  "entries_ok st es \<longleftrightarrow>
     (\<forall>(p, ord) \<in> set es. p < length st \<and> \<not> is_free_or_in_use (st ! p) \<and> core (object (st ! p)) = ord)"

definition level_repr :: "order_store \<Rightarrow> queue \<Rightarrow> entry list \<Rightarrow> bool" where
  "level_repr st q es \<longleftrightarrow> q_repr order_nodes st q (map fst es) \<and> entries_ok st es"

lemma entries_ok_simps [simp]:
  "entries_ok st []"
  "entries_ok st ((p, ord) # es) \<longleftrightarrow>
     p < length st \<and> \<not> is_free_or_in_use (st ! p) \<and> core (object (st ! p)) = ord \<and> entries_ok st es"
  by (auto simp: entries_ok_def)

lemma entries_ok_append [simp]: "entries_ok st (es @ fs) \<longleftrightarrow> entries_ok st es \<and> entries_ok st fs"
  by (simp add: entries_ok_def ball_Un)

lemma entries_okD: "entries_ok st es \<Longrightarrow> (p, ord) \<in> set es \<Longrightarrow>
    p < length st \<and> \<not> is_free_or_in_use (st ! p) \<and> core (object (st ! p)) = ord"
  by (auto simp: entries_ok_def)

text \<open>Two stores that agree on a set of slots.\<close>

definition agree_on :: "nat set \<Rightarrow> order_store \<Rightarrow> order_store \<Rightarrow> bool" where
  "agree_on S st st' \<longleftrightarrow> length st' = length st \<and> (\<forall>i \<in> S. i < length st \<longrightarrow> st' ! i = st ! i)"

lemma agree_on_refl [simp]: "agree_on S st st"
  by (simp add: agree_on_def)

lemma agree_on_trans: "agree_on S st st' \<Longrightarrow> agree_on S st' st'' \<Longrightarrow> agree_on S st st''"
  by (simp add: agree_on_def)

lemma agree_on_subset: "agree_on S st st' \<Longrightarrow> T \<subseteq> S \<Longrightarrow> agree_on T st st'"
  by (auto simp: agree_on_def)

lemma agree_on_update [simp]: "i \<notin> S \<Longrightarrow> agree_on S st (st[i := e])"
  by (auto simp: agree_on_def intro!: nth_list_update_neq)

lemma entries_ok_agree:
  "agree_on S st st' \<Longrightarrow> fst ` set es \<subseteq> S \<Longrightarrow> entries_ok st es \<Longrightarrow> entries_ok st' es"
  by (fastforce simp: agree_on_def entries_ok_def)

lemma level_repr_agree:
  assumes a: "agree_on S st st'" "fst ` set es \<subseteq> S" and r: "level_repr st q es"
  shows "level_repr st' q es"
proof -
  have "get_node order_nodes st' x = get_node order_nodes st x" if "x \<in> set (map fst es)" for x
  proof -
    have "x < length st" using r that by (auto simp: level_repr_def dest: entries_okD)
    moreover have "x \<in> S" using that a(2) by auto
    ultimately show ?thesis using a(1) by (simp add: agree_on_def)
  qed
  then have "q_repr order_nodes st' q (map fst es)"
    using r q_repr_cong [of "map fst es" order_nodes st' st q] by (simp add: level_repr_def)
  then show ?thesis using entries_ok_agree [OF a] r by (simp add: level_repr_def)
qed

text \<open>
  The links are all that a queue operation changes: a store with the same core and the same
  node at a slot has the same element there.
\<close>

lemma order_eqI: "core a = core b \<Longrightarrow> list_node a = list_node b \<Longrightarrow> a = b"
  by (cases a; cases b) (simp add: core_def)

lemma store_core_agree:
  assumes c: "store_core st' = store_core st"
    and n: "\<And>b. b \<in> S \<Longrightarrow> get_node order_nodes st' b = get_node order_nodes st b"
  shows "agree_on S st st'"
  unfolding agree_on_def
proof (intro conjI ballI impI)
  show l: "length st' = length st" using c by (rule store_core_length)
  fix i assume i: "i \<in> S" "i < length st"
  note eq = store_core_nth [OF c i(2)]
  have "object (st' ! i) = object (st ! i)"
  proof (rule order_eqI)
    show "list_node (object (st' ! i)) = list_node (object (st ! i))"
      using n [OF i(1)] i(2) l by simp
  qed (rule eq(1))
  with eq(2) show "st' ! i = st ! i" by (intro element.equality) simp_all
qed

lemma entries_ok_core:
  assumes c: "store_core st' = store_core st" and e: "entries_ok st es"
  shows "entries_ok st' es"
  using e store_core_nth [OF c] store_core_length [OF c] by (auto simp: entries_ok_def)

lemma pool_repr_core:
  assumes c: "store_core st = store_core (store p)" and r: "pool_repr order_overlay p fs"
  shows "pool_repr order_overlay (p\<lparr>store := st\<rparr>) fs"
proof -
  have "chain (next_free_of order_overlay) st (next_free_index p) fs =
      chain (next_free_of order_overlay) (store p) (next_free_index p) fs"
    using store_core_length [OF c] store_core_nth [OF c] pool_repr_below [OF r]
    by (intro chain_cong) auto
  then show ?thesis
    using r store_core_length [OF c] store_core_nth [OF c] by (simp add: pool_repr_def)
qed

text \<open>A write to an order in use keeps the pool's free list.\<close>

lemma pool_repr_write:
  assumes r: "pool_repr order_overlay p fs" and i: "i < length (store p)" "\<not> is_free_or_in_use (store p ! i)"
  shows "pool_repr order_overlay (write_order p (Some i) ord) fs"
proof -
  have "i \<notin> set fs" using r i by (auto simp: pool_repr_def)
  then show ?thesis
    using r i by (auto simp: pool_repr_def write_order_def chain_update nth_list_update)
qed

section \<open>One level\<close>

lemma decrease_size_core:
  "decrease_size a (core ord) = (fst (decrease_size a ord), core (snd (decrease_size a ord)))"
  by (simp add: decrease_size_def Let_def)

definition ms_repr :: "match_state \<Rightarrow> entry list \<Rightarrow> nat list \<Rightarrow> bool" where
  "ms_repr s es fs \<longleftrightarrow> pool_repr order_overlay (ms_pool s) fs \<and> level_repr (store (ms_pool s)) (ms_level s) es"

lemma ms_repr_guard: "ms_repr s es fs \<Longrightarrow> match_guard sz s \<longleftrightarrow> es \<noteq> [] \<and> ms_total s < sz"
  by (auto simp: ms_repr_def level_repr_def match_guard_def q_repr_is_empty)

lemma match_step_repr:
  assumes s: "ms_repr s ((p, ord) # es) fs" and lt: "ms_total s < sz"
    and d: "decrease_size (sz - ms_total s) ord = (m, ord')"
  obtains s' where "match_step sz s = Inr s'" "ms_total s' = ms_total s + m"
    "agree_on (- insert p (fst ` set es)) (store (ms_pool s)) (store (ms_pool s'))"
    "order_size ord' = 0 \<Longrightarrow> ms_repr s' es (p # fs) \<and> ms_log s' = ms_log s @ [Matched m ord', Closing ord']"
    "order_size ord' \<noteq> 0 \<Longrightarrow> ms_repr s' ((p, ord') # es) fs \<and> ms_log s' = ms_log s @ [Matched m ord']"
proof -
  let ?st = "store (ms_pool s)"
  have pr: "pool_repr order_overlay (ms_pool s) fs"
    and q: "q_repr order_nodes ?st (ms_level s) (p # map fst es)"
    and p: "p < length ?st" "\<not> is_free_or_in_use (?st ! p)" and c: "core (object (?st ! p)) = ord"
    and es: "entries_ok ?st es"
    using s by (auto simp: ms_repr_def level_repr_def)
  have peek: "q_peek (ms_level s) = Some p" using q_repr_peek [OF q] by simp
  have pes: "p \<notin> fst ` set es" using q_repr_distinct [OF q] by simp
  define o1 where "o1 = snd (decrease_size (sz - ms_total s) (object (?st ! p)))"
  have d1: "decrease_size (sz - ms_total s) (object (?st ! p)) = (m, o1)" and o1: "core o1 = ord'"
    using d decrease_size_core [of "sz - ms_total s" "object (?st ! p)"] by (simp_all add: c o1_def)
  have node: "list_node o1 = list_node (object (?st ! p))" by (simp add: o1_def)
  have sz1: "order_size o1 = order_size ord'" using core_simps(4) [of o1] o1 by simp
  define P1 where "P1 = write_order (ms_pool s) (Some p) o1"
  have st1: "store P1 = ?st[p := (?st ! p)\<lparr>object := o1\<rparr>]" by (simp add: P1_def write_order_def)
  have pr1: "pool_repr order_overlay P1 fs" using pool_repr_write [OF pr p] by (simp add: P1_def)
  have nodes1: "get_node order_nodes (store P1) b = get_node order_nodes ?st b" for b
    using p(1) node by (auto simp: st1 nth_list_update)
  have q1: "q_repr order_nodes (store P1) (ms_level s) (p # map fst es)"
    using q q_repr_cong [of "p # map fst es" order_nodes "store P1" ?st] nodes1 by blast
  have e1: "entries_ok (store P1) es"
    using entries_ok_agree [of "- {p}" ?st "store P1" es] es pes by (auto simp: st1)
  have a1: "agree_on (- insert p (fst ` set es)) ?st (store P1)" by (simp add: st1)
  have at1: "object (store P1 ! p) = o1" "\<not> is_free_or_in_use (store P1 ! p)" "p < length (store P1)"
    using p by (simp_all add: st1)
  have rd: "read_order (ms_pool s) (Some p) = Inr (object (?st ! p))" using p by (simp add: read_order_def)
  define s1 where "s1 = s\<lparr>ms_pool := P1, ms_log := ms_log s @ [Matched m ord'], ms_total := ms_total s + m\<rparr>"
  show thesis
  proof (cases "order_size ord' = 0")
    case False
    have "match_step sz s = Inr s1"
      using False by (simp add: match_step_def peek rd d1 o1 sz1 s1_def P1_def)
    moreover have "ms_repr s1 ((p, ord') # es) fs"
      using pr1 q1 e1 at1 o1 by (simp add: ms_repr_def level_repr_def s1_def)
    ultimately show thesis using a1 False by (intro that [of s1]) (simp_all add: s1_def)
  next
    case True
    obtain st2 q2 where rm: "q_remove order_nodes (Some p) (store P1, ms_level s) = Inr (st2, q2)"
      and q2: "q_repr order_nodes st2 q2 (map fst es)" and c2: "store_core st2 = store_core (store P1)"
      and n2: "\<And>b. b \<notin> set (p # map fst es) \<Longrightarrow> get_node order_nodes st2 b = get_node order_nodes (store P1) b"
      by (rule oh.q_remove_repr [OF q1, of p]) auto
    define P2 where "P2 = P1\<lparr>store := st2\<rparr>"
    have pr2: "pool_repr order_overlay P2 fs" unfolding P2_def by (rule pool_repr_core [OF c2 pr1])
    have l2: "length st2 = length (store P1)" using c2 by (rule store_core_length)
    have e2: "entries_ok st2 es" by (rule entries_ok_core [OF c2 e1])
    have a2: "agree_on (- insert p (fst ` set es)) (store P1) st2"
      by (rule store_core_agree [OF c2]) (rule n2, auto)
    note c2p = store_core_nth [OF c2 at1(3)]
    have p2: "p < length (store P2)" "p \<notin> set fs"
      using at1 l2 pr1 by (auto simp: P2_def pool_repr_def)
    obtain P3 where de: "deallocate order_overlay (Some p) P2 = Inr P3" and pr3: "pool_repr order_overlay P3 (p # fs)"
      and st3: "store P3 = st2[p := \<lparr>is_free_or_in_use = True,
                     object = set_idx order_overlay (next_free_index P2) (object (st2 ! p))\<rparr>]"
      using om.deallocate_repr [OF pr2 p2] by (auto simp: P2_def)
    define s3 where "s3 = s1\<lparr>ms_pool := P3, ms_level := q2, ms_log := ms_log s1 @ [Closing ord']\<rparr>"
    have rd2: "read_order P2 (Some p) = Inr (object (st2 ! p))"
      using p2 by (simp add: read_order_def P2_def)
    have cl: "core (object (st2 ! p)) = ord'" using c2p(1) at1(1) o1 by simp
    have "match_step sz s = Inr s3"
      using True rm de rd2 cl
      by (simp add: match_step_def peek rd d1 o1 sz1 s3_def s1_def P2_def flip: P1_def)
    moreover have a3: "agree_on (- {p}) st2 (store P3)" by (simp add: st3)
    have "level_repr (store P3) q2 es"
      by (rule level_repr_agree [OF a3]) (use pes q2 e2 in \<open>auto simp: level_repr_def\<close>)
    then have "ms_repr s3 es (p # fs)" using pr3 by (simp add: ms_repr_def s3_def)
    moreover have "agree_on (- insert p (fst ` set es)) ?st (store P3)"
      using agree_on_trans [OF agree_on_trans [OF a1 a2] agree_on_subset [OF a3]] by blast
    ultimately show thesis using True by (intro that [of s3]) (simp_all add: s3_def s1_def)
  qed
qed

lemma match_at_level_repr:
  assumes "ms_repr s es fs" and "spec_level sz (ms_total s) es = (es', t', cl, ev)"
  shows "\<exists>s'. match_at_level sz s = Inr s' \<and> ms_repr s' es' (rev cl @ fs) \<and> ms_total s' = t' \<and>
           ms_log s' = ms_log s @ ev \<and>
           agree_on (- (fst ` set es)) (store (ms_pool s)) (store (ms_pool s'))"
  using assms
proof (induction es arbitrary: s fs es' t' cl ev)
  case Nil
  then show ?case by (simp add: match_at_level.simps [of sz s] ms_repr_guard)
next
  case (Cons e es)
  obtain p ord where e: "e = (p, ord)" by fastforce
  note s = Cons.prems(1) [unfolded e]
  show ?case
  proof (cases "ms_total s < sz")
    case False
    then show ?thesis using Cons.prems e
      by (auto simp: match_at_level.simps [of sz s] ms_repr_guard)
  next
    case True
    obtain m ord' where d: "decrease_size (sz - ms_total s) ord = (m, ord')" by fastforce
    obtain s1 where st: "match_step sz s = Inr s1" and t1: "ms_total s1 = ms_total s + m"
      and a1: "agree_on (- insert p (fst ` set es)) (store (ms_pool s)) (store (ms_pool s1))"
      and z: "order_size ord' = 0 \<Longrightarrow> ms_repr s1 es (p # fs) \<and> ms_log s1 = ms_log s @ [Matched m ord', Closing ord']"
      and nz: "order_size ord' \<noteq> 0 \<Longrightarrow> ms_repr s1 ((p, ord') # es) fs \<and> ms_log s1 = ms_log s @ [Matched m ord']"
      by (rule match_step_repr [OF s True d]) blast
    have unfold: "match_at_level sz s = match_at_level sz s1"
      using True st s by (subst match_at_level.simps) (simp add: ms_repr_guard)
    show ?thesis
    proof (cases "order_size ord' = 0")
      case True
      then obtain cl1 ev1 where sl: "spec_level sz (ms_total s1) es = (es', t', cl1, ev1)"
        and cl: "cl = p # cl1" "ev = Matched m ord' # Closing ord' # ev1"
        using Cons.prems(2) d t1 \<open>ms_total s < sz\<close> by (auto simp: e split: prod.splits)
      from Cons.IH [OF conjunct1 [OF z [OF True]] sl] obtain s' where
        "match_at_level sz s1 = Inr s'" "ms_repr s' es' (rev cl1 @ p # fs)" "ms_total s' = t'"
        "ms_log s' = ms_log s1 @ ev1" "agree_on (- fst ` set es) (store (ms_pool s1)) (store (ms_pool s'))"
        by blast
      moreover have "agree_on (- insert p (fst ` set es)) (store (ms_pool s1)) (store (ms_pool s'))"
        by (rule agree_on_subset [OF calculation(5)]) auto
      ultimately show ?thesis using unfold z [OF True] cl agree_on_trans [OF a1] by (auto simp: e)
    next
      case False
      then have res: "es' = (p, ord') # es" "t' = ms_total s1" "cl = []" "ev = [Matched m ord']"
        using Cons.prems(2) d t1 \<open>ms_total s < sz\<close> by (auto simp: e)
      have "m = sz - ms_total s" using d False by (auto simp: decrease_size_def Let_def split: if_splits)
      then have "\<not> match_guard sz s1" by (simp add: match_guard_def t1)
      then have "match_at_level sz s1 = Inr s1" by (simp add: match_at_level.simps [of sz s1])
      then show ?thesis using unfold nz [OF False] res a1 by (auto simp: e)
    qed
  qed
qed

section \<open>Related maps of levels\<close>

definition lv_rel :: "('k \<Rightarrow> 'a \<Rightarrow> 'b \<Rightarrow> bool) \<Rightarrow> ('k, 'a) std_map \<Rightarrow> ('k, 'b) std_map \<Rightarrow> bool" where
  "lv_rel P lv als \<longleftrightarrow> list_all2 (\<lambda>(k, q) (k', es). k = k' \<and> P k q es) lv als"

lemma lv_rel_simps [simp]:
  "lv_rel P [] als \<longleftrightarrow> als = []"
  "lv_rel P lv [] \<longleftrightarrow> lv = []"
  "lv_rel P ((k, q) # lv) ((k', es) # als) \<longleftrightarrow> k = k' \<and> P k q es \<and> lv_rel P lv als"
  by (auto simp: lv_rel_def)

lemma lv_rel_induct [consumes 1, case_names Nil Cons]:
  assumes "lv_rel P lv als" and "R [] []"
    and "\<And>k q es lv als. P k q es \<Longrightarrow> lv_rel P lv als \<Longrightarrow> R lv als \<Longrightarrow> R ((k, q) # lv) ((k, es) # als)"
  shows "R lv als"
  using assms(1) unfolding lv_rel_def
  by (induction rule: list_all2_induct) (use assms(2,3) in \<open>auto simp: lv_rel_def\<close>)

lemma lv_rel_keys: "lv_rel P lv als \<Longrightarrow> map fst lv = map fst als"
  by (induction rule: lv_rel_induct) auto

lemma lv_rel_sorted: "lv_rel P lv als \<Longrightarrow> std_sorted lv = std_sorted als"
  by (simp add: std_sorted_def std_keys_def lv_rel_keys)

lemma lv_rel_find: "lv_rel P lv als \<Longrightarrow> rel_option (P k) (std_find lv k) (std_find als k)"
  by (induction rule: lv_rel_induct) auto

lemma lv_rel_mono:
  "lv_rel P lv als \<Longrightarrow> (\<And>k q es. (k, es) \<in> set als \<Longrightarrow> P k q es \<Longrightarrow> P' k q es) \<Longrightarrow> lv_rel P' lv als"
  by (induction rule: lv_rel_induct) auto

lemma lv_rel_subscript:
  "lv_rel P lv als \<Longrightarrow> P k d e \<Longrightarrow> lv_rel P (std_subscript k d lv) (std_subscript k e als)"
  by (induction rule: lv_rel_induct) auto

lemma lv_rel_append_last:
  "lv_rel P lv (als @ [(k, es)]) \<Longrightarrow> \<exists>lv' q. lv = lv' @ [(k, q)] \<and> lv_rel P lv' als \<and> P k q es"
  by (fastforce simp: lv_rel_def list_all2_append2 list_all2_Cons2)

lemma lv_rel_in: "lv_rel P lv als \<Longrightarrow> (k, es) \<in> set als \<Longrightarrow> \<exists>q. (k, q) \<in> set lv \<and> P k q es"
  by (induction rule: lv_rel_induct) auto

text \<open>
  An update at one key, when the relation changes from \<open>P\<close> to \<open>P'\<close> because the store did:
  the other levels only have to keep it.
\<close>

lemma lv_rel_assign:
  assumes "lv_rel P lv als" "distinct (map fst als)" "P' k q es"
    and "\<And>j q' es'. j \<noteq> k \<Longrightarrow> (j, es') \<in> set als \<Longrightarrow> P j q' es' \<Longrightarrow> P' j q' es'"
  shows "lv_rel P' (std_assign k q lv) (std_assign k es als)"
  using assms(1,2,4)
proof (induction rule: lv_rel_induct)
  case (Cons j q' es' lv als)
  show ?case
  proof (cases "j = k")
    case True
    have "lv_rel P' lv als"
      by (rule lv_rel_mono [OF Cons.hyps(2)], rule Cons.prems(2)) (use Cons.prems(1) True in \<open>force+\<close>)
    with True assms(3) show ?thesis by simp
  next
    case False
    with Cons show ?thesis by auto
  qed
qed simp

lemma lv_rel_erase:
  assumes "lv_rel P lv als" "distinct (map fst als)"
    and "\<And>j q' es'. j \<noteq> k \<Longrightarrow> (j, es') \<in> set als \<Longrightarrow> P j q' es' \<Longrightarrow> P' j q' es'"
  shows "lv_rel P' (std_erase k lv) (std_erase k als)"
  using assms
proof (induction rule: lv_rel_induct)
  case (Cons j q' es' lv als)
  show ?case
  proof (cases "j = k")
    case True
    have "lv_rel P' lv als"
      by (rule lv_rel_mono [OF Cons.hyps(2)], rule Cons.prems(2)) (use Cons.prems(1) True in \<open>force+\<close>)
    with True show ?thesis by simp
  next
    case False
    with Cons show ?thesis by auto
  qed
qed simp

section \<open>The relation on books\<close>

definition lev :: "order_store \<Rightarrow> bool \<Rightarrow> u64 \<Rightarrow> queue \<Rightarrow> entry list \<Rightarrow> bool" where
  "lev st buy k q es \<longleftrightarrow> level_repr st q es \<and>
     (\<forall>(p, ord) \<in> set es. price ord = k \<and> is_buy_side ord = buy \<and> order_size ord \<noteq> 0)"

definition side_repr :: "order_store \<Rightarrow> bool \<Rightarrow> (u64, queue) std_map \<Rightarrow> levels \<Rightarrow> bool" where
  "side_repr st buy lv als \<longleftrightarrow>
     std_sorted als \<and> (\<forall>(k, es) \<in> set als. es \<noteq> []) \<and> lv_rel (lev st buy) lv als"

definition book_repr :: "order_book \<Rightarrow> spec_book \<Rightarrow> bool" where
  "book_repr b A \<longleftrightarrow>
     pool_repr order_overlay (order_pool b) (sb_free A) \<and>
     side_repr (store (order_pool b)) True (bid_levels b) (sb_bids A) \<and>
     side_repr (store (order_pool b)) False (ask_levels b) (sb_asks A) \<and>
     sb_symbol A = book_symbol b \<and> sb_log A = book_log b"

lemma lev_agree:
  "agree_on S st st' \<Longrightarrow> fst ` set es \<subseteq> S \<Longrightarrow> lev st buy k q es \<Longrightarrow> lev st' buy k q es"
  by (auto simp: lev_def intro: level_repr_agree)

lemma lev_entry:
  assumes "lev st buy k q es" and "p \<in> fst ` set es"
  shows "p < length st" "\<not> is_free_or_in_use (st ! p)" "price (object (st ! p)) = k"
    "is_buy_side (object (st ! p)) = buy"
proof -
  from assms obtain ord where o: "(p, ord) \<in> set es" "entries_ok st es" "price ord = k" "is_buy_side ord = buy"
    by (fastforce simp: lev_def level_repr_def)
  from entries_okD [OF o(2,1)] o(3,4)
  show "p < length st" "\<not> is_free_or_in_use (st ! p)" "price (object (st ! p)) = k"
    "is_buy_side (object (st ! p)) = buy" by auto
qed

text \<open>Levels of different prices or sides share no slot.\<close>

lemma lev_disjoint:
  assumes "lev st buy k q es" "lev st buy' k' q' es'" "(k, buy) \<noteq> (k', buy')"
  shows "fst ` set es' \<subseteq> - (fst ` set es)"
proof
  fix p assume p: "p \<in> fst ` set es'"
  show "p \<in> - (fst ` set es)"
    using lev_entry [OF assms(2) p] lev_entry(3,4) [OF assms(1), of p] assms(3) by blast
qed

lemma side_repr_find:
  assumes "side_repr st buy lv als" "std_find lv k = Some q"
  obtains es where "std_find als k = Some es" "lev st buy k q es" "es \<noteq> []" "(k, es) \<in> set als"
  using assms lv_rel_find [of "lev st buy" lv als k]
  by (fastforce simp: side_repr_def option_rel_Some1 dest: std_find_Some_in)

lemma side_repr_slot:
  assumes "side_repr st buy lv als" "p \<in> side_slots als"
  shows "p < length st" "\<not> is_free_or_in_use (st ! p)" "is_buy_side (object (st ! p)) = buy"
proof -
  from assms(2) obtain k es where e: "(k, es) \<in> set als" "p \<in> fst ` set es"
    by (auto simp: side_slots_def)
  then obtain q where "lev st buy k q es"
    using assms(1) lv_rel_in by (fastforce simp: side_repr_def)
  from lev_entry [OF this e(2)]
  show "p < length st" "\<not> is_free_or_in_use (st ! p)" "is_buy_side (object (st ! p)) = buy" by auto
qed

lemma side_repr_agree:
  assumes "side_repr st buy lv als" and "agree_on S st st'" and "side_slots als \<subseteq> S"
  shows "side_repr st' buy lv als"
proof -
  have "lv_rel (lev st' buy) lv als"
  proof (rule lv_rel_mono)
    show "lv_rel (lev st buy) lv als" using assms(1) by (simp add: side_repr_def)
    show "lev st' buy k q es" if "(k, es) \<in> set als" "lev st buy k q es" for k q es
      by (rule lev_agree [OF assms(2) _ that(2)]) (use side_slots_in [OF that(1)] assms(3) in blast)
  qed
  with assms(1) show ?thesis by (simp add: side_repr_def)
qed

lemma book_repr_side:
  "book_repr b A \<Longrightarrow> side_repr (store (order_pool b)) buy (side_levels buy b) (sb_side buy A)"
  by (cases buy) (simp_all add: book_repr_def side_levels_def sb_side_def)

lemma sides_disjoint:
  assumes "book_repr b A" shows "side_slots (sb_side (\<not> buy) A) \<subseteq> - side_slots (sb_side buy A)"
  using side_repr_slot(3) [OF book_repr_side [OF assms, of buy]]
    side_repr_slot(3) [OF book_repr_side [OF assms, of "\<not> buy"]] by blast

text \<open>
  Replacing one side, the pool and the log: the other side is unchanged because the store
  agrees on its slots.
\<close>

lemma book_repr_replace:
  assumes b: "book_repr b A" and pool: "pool_repr order_overlay pool fs"
    and side: "side_repr (store pool) buy lv als"
    and ag: "agree_on (- side_slots (sb_side buy A)) (store (order_pool b)) (store pool)"
  shows "book_repr (set_side_levels buy lv (b\<lparr>order_pool := pool, book_log := lg\<rparr>))
           (set_sb_side buy als (A\<lparr>sb_free := fs, sb_log := lg\<rparr>))"
proof -
  have "side_repr (store pool) (\<not> buy) (side_levels (\<not> buy) b) (sb_side (\<not> buy) A)"
    by (rule side_repr_agree [OF book_repr_side [OF b] ag sides_disjoint [OF b]])
  with b pool side show ?thesis
    by (cases buy) (simp_all add: book_repr_def set_side_levels_def set_sb_side_def side_levels_def sb_side_def)
qed

end
