(* ===== verification/Book_Refine.thy ===== *)
theory Book_Refine
  imports Book_Repr
begin

text \<open>
  The operations of the order book implement those of the abstract book: each one, started in
  a state that \<open>book_repr\<close> relates to an abstract book, returns (no null dereference, no wild
  pointer) and ends in a state related to the result of the abstract operation, with the same
  answer and the same log.
\<close>

section \<open>Matching\<close>

lemma match_level_in_side:
  assumes b: "book_repr b A" and f: "std_find (side_levels buy b) k = Some q"
    and fe: "std_find (sb_side buy A) k = Some es" and sl: "spec_level sz t es = (es', t', cl, ev)"
  obtains s' where
    "match_at_level sz \<lparr>ms_pool = order_pool b, ms_level = q, ms_total = t, ms_log = book_log b\<rparr> = Inr s'"
    "ms_total s' = t'" "ms_log s' = book_log b @ ev" "q_empty (ms_level s') \<longleftrightarrow> es' = []"
    "agree_on (- side_slots (sb_side buy A)) (store (order_pool b)) (store (ms_pool s'))"
    "es' \<noteq> [] \<Longrightarrow> book_repr
       (set_side_levels buy (std_assign k (ms_level s') (side_levels buy b))
          (b\<lparr>order_pool := ms_pool s', book_log := ms_log s'\<rparr>))
       (set_sb_side buy (std_assign k es' (sb_side buy A))
          (A\<lparr>sb_free := rev cl @ sb_free A, sb_log := ms_log s'\<rparr>))"
    "es' = [] \<Longrightarrow> book_repr
       (set_side_levels buy (std_erase k (side_levels buy b))
          (b\<lparr>order_pool := ms_pool s', book_log := ms_log s'\<rparr>))
       (set_sb_side buy (std_erase k (sb_side buy A))
          (A\<lparr>sb_free := rev cl @ sb_free A, sb_log := ms_log s'\<rparr>))"
proof -
  let ?st = "store (order_pool b)" and ?als = "sb_side buy A" and ?lv = "side_levels buy b"
  let ?s = "\<lparr>ms_pool = order_pool b, ms_level = q, ms_total = t, ms_log = book_log b\<rparr>"
  have side: "side_repr ?st buy ?lv ?als" by (rule book_repr_side [OF b])
  then have srt: "std_sorted ?als" and rel: "lv_rel (lev ?st buy) ?lv ?als" by (simp_all add: side_repr_def)
  have lk: "lev ?st buy k q es" and kin: "(k, es) \<in> set ?als"
    using side_repr_find [OF side f] fe by auto
  have "ms_repr ?s es (sb_free A)" using b lk by (simp add: ms_repr_def book_repr_def lev_def)
  from match_at_level_repr [OF this, of sz es' t' cl ev] sl obtain s' where
    run: "match_at_level sz ?s = Inr s'" and ms: "ms_repr s' es' (rev cl @ sb_free A)" and t: "ms_total s' = t'"
    and lg: "ms_log s' = book_log b @ ev" and ag: "agree_on (- (fst ` set es)) ?st (store (ms_pool s'))"
    by auto
  let ?st' = "store (ms_pool s')"
  have pool: "pool_repr order_overlay (ms_pool s') (rev cl @ sb_free A)" using ms by (simp add: ms_repr_def)
  have ag': "agree_on (- side_slots ?als) ?st ?st'"
    by (rule agree_on_subset [OF ag]) (use side_slots_in [OF kin] in auto)
  have lk': "lev ?st' buy k (ms_level s') es'"
    using ms lk spec_level_rest_all [OF sl] unfolding lev_def ms_repr_def by blast
  have dist: "distinct (map fst ?als)" using srt by (rule std_sorted_distinct)
  have other: "lev ?st' buy j q' es2" if "j \<noteq> k" "(j, es2) \<in> set ?als" "lev ?st buy j q' es2" for j q' es2
    by (rule lev_agree [OF ag lev_disjoint [OF lk that(3)] that(3)]) (use that(1) in auto)
  have emp: "q_empty (ms_level s') \<longleftrightarrow> es' = []"
    using ms by (auto simp: ms_repr_def level_repr_def q_repr_is_empty)
  have keys: "set (std_assign k es' ?als) \<subseteq> insert (k, es') (set ?als)"
    by (rule set_std_assign)
  have "side_repr ?st' buy (std_assign k (ms_level s') ?lv) (std_assign k es' ?als)" if "es' \<noteq> []"
    unfolding side_repr_def
    using lv_rel_assign [OF rel dist, of "lev ?st' buy" k "ms_level s'" es', OF lk' other] srt that side keys
    by (auto simp: side_repr_def)
  moreover have "side_repr ?st' buy (std_erase k ?lv) (std_erase k ?als)"
    unfolding side_repr_def
    using lv_rel_erase [OF rel dist, of k "lev ?st' buy", OF other] srt side
    by (auto simp: side_repr_def set_std_erase std_sorted_erase)
  ultimately show thesis
    by (intro that [OF run t lg emp ag'] book_repr_replace [OF b pool]) (use ag' in auto)
qed

text \<open>The sweep over the ask levels, from \<open>begin\<close>.\<close>

lemma match_bid_order_repr:
  assumes "book_repr b A" and "spec_sweep (bid_accepts ty pr) sz t (sb_asks A) = (ls, t', cl, ev)"
  shows "\<exists>b'. match_bid_order pr sz ty t b = Inr (t', b') \<and>
           book_repr b' (A\<lparr>sb_free := rev cl @ sb_free A, sb_log := sb_log A @ ev, sb_asks := ls\<rparr>) \<and>
           agree_on (- side_slots (sb_asks A)) (store (order_pool b)) (store (order_pool b'))"
  using assms
proof (induction "sb_asks A" arbitrary: A b t ls t' cl ev)
  case Nil
  then have "ask_levels b = []" by (simp add: book_repr_def side_repr_def)
  moreover have "A\<lparr>sb_asks := []\<rparr> = A" using Nil.hyps by (cases A) simp
  moreover have "spec_sweep (bid_accepts ty pr) sz t [] = (ls, t', cl, ev)" using Nil by simp
  moreover have "match_bid_order pr sz ty t b = Inr (t, b)"
    using \<open>ask_levels b = []\<close> by (simp add: match_bid_order.simps [of pr sz ty t b] std_begin_def)
  ultimately show ?case using Nil(2) by auto
next
  case (Cons kes rest)
  obtain k es where kes: "kes = (k, es)" by fastforce
  note asks = Cons.hyps(2) [symmetric, unfolded kes]
  from Cons.prems(1) asks obtain q lrest where lv: "ask_levels b = (k, q) # lrest"
    by (cases "ask_levels b") (auto simp: book_repr_def side_repr_def)
  have same: "A\<lparr>sb_free := sb_free A, sb_log := sb_log A, sb_asks := (k, es) # rest\<rparr> = A"
    using asks by (cases A) simp
  show ?case
  proof (cases "t < sz \<and> bid_accepts ty pr k")
    case False
    then have "match_bid_order pr sz ty t b = Inr (t, b)"
      by (auto simp: match_bid_order.simps [of pr sz ty t b] std_begin_def lv bid_accepts_def)
    with False Cons.prems asks same show ?thesis by auto
  next
    case True
    obtain es' t1 cl1 ev1 where sl: "spec_level sz t es = (es', t1, cl1, ev1)" by (metis prod_cases4)
    obtain s' where run: "match_at_level sz \<lparr>ms_pool = order_pool b, ms_level = q, ms_total = t, ms_log = book_log b\<rparr> = Inr s'"
      and t1: "ms_total s' = t1" and lg: "ms_log s' = book_log b @ ev1"
      and emp: "q_empty (ms_level s') \<longleftrightarrow> es' = []"
      and ag: "agree_on (- side_slots (sb_asks A)) (store (order_pool b)) (store (ms_pool s'))"
      and ne: "es' \<noteq> [] \<Longrightarrow> book_repr (b\<lparr>order_pool := ms_pool s', book_log := ms_log s', ask_levels := (k, ms_level s') # lrest\<rparr>)
                 (A\<lparr>sb_free := rev cl1 @ sb_free A, sb_log := ms_log s', sb_asks := (k, es') # rest\<rparr>)"
      and e: "es' = [] \<Longrightarrow> book_repr (b\<lparr>order_pool := ms_pool s', book_log := ms_log s', ask_levels := lrest\<rparr>)
                 (A\<lparr>sb_free := rev cl1 @ sb_free A, sb_log := ms_log s', sb_asks := rest\<rparr>)"
      by (rule match_level_in_side [OF Cons.prems(1), of False k q es sz t es' t1 cl1 ev1])
         (auto simp: side_levels_def sb_side_def set_side_levels_def set_sb_side_def lv asks sl)
    have slog: "sb_log A = book_log b" using Cons.prems(1) by (simp add: book_repr_def)
    have acc: "(ty = Limit \<and> k > pr) = False" using True by (auto simp: bid_accepts_def)
    show ?thesis
    proof (cases "es' = []")
      case False
      then have "match_bid_order pr sz ty t b = Inr (t1, b\<lparr>order_pool := ms_pool s', book_log := ms_log s', ask_levels := (k, ms_level s') # lrest\<rparr>)"
        using True run t1 emp by (subst match_bid_order.simps) (simp add: std_begin_def lv Let_def acc)
      moreover have "ls = (k, es') # rest" "t' = t1" "cl = cl1" "ev = ev1"
        using Cons.prems(2) asks True sl False by auto
      ultimately show ?thesis using ne [OF False] ag lg slog by auto
    next
      case em: True
      let ?b1 = "b\<lparr>order_pool := ms_pool s', book_log := ms_log s', ask_levels := lrest\<rparr>"
      let ?A1 = "A\<lparr>sb_free := rev cl1 @ sb_free A, sb_log := ms_log s', sb_asks := rest\<rparr>"
      obtain cl2 ev2 where sw: "spec_sweep (bid_accepts ty pr) sz t1 rest = (ls, t', cl2, ev2)"
        and cl: "cl = cl1 @ cl2" "ev = ev1 @ ev2"
        using Cons.prems(2) asks True sl em by (auto split: prod.splits)
      have "match_bid_order pr sz ty t b = match_bid_order pr sz ty t1 ?b1"
        using True run t1 emp em by (subst match_bid_order.simps) (simp add: std_begin_def lv Let_def acc)
      moreover obtain b' where b': "match_bid_order pr sz ty t1 ?b1 = Inr (t', b')"
        "book_repr b' (?A1\<lparr>sb_free := rev cl2 @ sb_free ?A1, sb_log := sb_log ?A1 @ ev2, sb_asks := ls\<rparr>)"
        "agree_on (- side_slots (sb_asks ?A1)) (store (order_pool ?b1)) (store (order_pool b'))"
        using Cons.hyps(1) [of ?A1 ?b1 t1 ls t' cl2 ev2] e [OF em] sw by auto
      moreover have "agree_on (- side_slots (sb_asks A)) (store (ms_pool s')) (store (order_pool b'))"
        by (rule agree_on_subset [OF b'(3) [simplified]]) (auto simp: asks side_slots_def)
      ultimately show ?thesis using agree_on_trans [OF ag] cl lg slog by auto
    qed
  qed
qed

text \<open>The sweep over the bid levels, from \<open>rbegin\<close>.\<close>

lemma match_ask_order_repr:
  assumes "book_repr b A" and "spec_sweep (ask_accepts ty pr) sz t (rev (sb_bids A)) = (ls, t', cl, ev)"
  shows "\<exists>b'. match_ask_order pr sz ty t b = Inr (t', b') \<and>
           book_repr b' (A\<lparr>sb_free := rev cl @ sb_free A, sb_log := sb_log A @ ev, sb_bids := rev ls\<rparr>) \<and>
           agree_on (- side_slots (sb_bids A)) (store (order_pool b)) (store (order_pool b'))"
  using assms
proof (induction "rev (sb_bids A)" arbitrary: A b t ls t' cl ev)
  case Nil
  then have "sb_bids A = []" by simp
  then have "bid_levels b = []" using Nil by (simp add: book_repr_def side_repr_def)
  moreover have "A\<lparr>sb_bids := []\<rparr> = A" using \<open>sb_bids A = []\<close> by (cases A) simp
  moreover have "spec_sweep (ask_accepts ty pr) sz t [] = (ls, t', cl, ev)" using Nil \<open>sb_bids A = []\<close> by simp
  moreover have "match_ask_order pr sz ty t b = Inr (t, b)"
    using \<open>bid_levels b = []\<close> by (simp add: match_ask_order.simps [of pr sz ty t b] std_rbegin_def)
  ultimately show ?case using Nil(2) by auto
next
  case (Cons kes rest)
  obtain k es where kes: "kes = (k, es)" by fastforce
  have "rev (rev (sb_bids A)) = rev ((k, es) # rest)" by (simp only: Cons.hyps(2) [symmetric] kes)
  then have bids: "sb_bids A = rev rest @ [(k, es)]" by simp
  then have rbids: "rev (sb_bids A) = (k, es) # rest" by simp
  from Cons.prems(1) bids
  have rel0: "lv_rel (lev (store (order_pool b)) True) (bid_levels b) (rev rest @ [(k, es)])" and srt: "std_sorted (rev rest @ [(k, es)])" by (simp_all add: book_repr_def side_repr_def)
  from lv_rel_append_last [OF rel0] obtain q lrest where lv: "bid_levels b = lrest @ [(k, q)]"
    and rel: "lv_rel (lev (store (order_pool b)) True) lrest (rev rest)" by blast
  have k1: "k \<notin> fst ` set (rev rest)" using srt by (force simp: std_sorted_append)
  then have k2: "k \<notin> fst ` set lrest" using lv_rel_keys [OF rel] by (metis set_map)
  have same: "A\<lparr>sb_bids := rev rest @ [(k, es)]\<rparr> = A" using bids by (cases A) simp
  show ?case
  proof (cases "t < sz \<and> ask_accepts ty pr k")
    case False
    then have "match_ask_order pr sz ty t b = Inr (t, b)"
      by (auto simp: match_ask_order.simps [of pr sz ty t b] std_rbegin_def lv ask_accepts_def)
    moreover have "book_repr b (A\<lparr>sb_bids := rev rest @ [(k, es)]\<rparr>)"
      unfolding same by (rule Cons.prems(1))
    ultimately show ?thesis using False Cons.prems(2) bids by auto
  next
    case True
    obtain es' t1 cl1 ev1 where sl: "spec_level sz t es = (es', t1, cl1, ev1)" by (metis prod_cases4)
    have fl: "std_find (lrest @ [(k, q)]) k = Some q"
      using k2 std_find_None [of lrest k] by (simp add: std_find_def map_add_def)
    have fa: "std_find (rev rest @ [(k, es)]) k = Some es"
      using k1 std_find_None [of "rev rest" k] by (simp add: std_find_def map_add_def)
    obtain s' where run: "match_at_level sz \<lparr>ms_pool = order_pool b, ms_level = q, ms_total = t, ms_log = book_log b\<rparr> = Inr s'"
      and t1: "ms_total s' = t1" and lg: "ms_log s' = book_log b @ ev1"
      and emp: "q_empty (ms_level s') \<longleftrightarrow> es' = []"
      and ag: "agree_on (- side_slots (sb_bids A)) (store (order_pool b)) (store (ms_pool s'))"
      and ne: "es' \<noteq> [] \<Longrightarrow> book_repr (b\<lparr>order_pool := ms_pool s', book_log := ms_log s', bid_levels := lrest @ [(k, ms_level s')]\<rparr>)
                 (A\<lparr>sb_free := rev cl1 @ sb_free A, sb_log := ms_log s', sb_bids := rev rest @ [(k, es')]\<rparr>)"
      and e: "es' = [] \<Longrightarrow> book_repr (b\<lparr>order_pool := ms_pool s', book_log := ms_log s', bid_levels := lrest\<rparr>)
                 (A\<lparr>sb_free := rev cl1 @ sb_free A, sb_log := ms_log s', sb_bids := rev rest\<rparr>)"
      by (rule match_level_in_side [OF Cons.prems(1), of True k q es sz t es' t1 cl1 ev1])
         (auto simp: side_levels_def sb_side_def set_side_levels_def set_sb_side_def lv bids sl fl fa
            std_assign_append [OF k1] std_assign_append [OF k2] std_erase_append [OF k1] std_erase_append [OF k2])
    have slog: "sb_log A = book_log b" using Cons.prems(1) by (simp add: book_repr_def)
    have acc: "(ty = Limit \<and> k < pr) = False" using True by (auto simp: ask_accepts_def)
    show ?thesis
    proof (cases "es' = []")
      case False
      then have "match_ask_order pr sz ty t b = Inr (t1, b\<lparr>order_pool := ms_pool s', book_log := ms_log s', bid_levels := lrest @ [(k, ms_level s')]\<rparr>)"
        using True run t1 emp
        by (subst match_ask_order.simps) (simp add: std_rbegin_def lv Let_def acc std_assign_append [OF k2])
      moreover have "ls = (k, es') # rest" "t' = t1" "cl = cl1" "ev = ev1"
        using Cons.prems(2) rbids True sl False by auto
      ultimately show ?thesis using ne [OF False] ag lg slog by auto
    next
      case em: True
      let ?b1 = "b\<lparr>order_pool := ms_pool s', book_log := ms_log s', bid_levels := lrest\<rparr>"
      let ?A1 = "A\<lparr>sb_free := rev cl1 @ sb_free A, sb_log := ms_log s', sb_bids := rev rest\<rparr>"
      obtain cl2 ev2 where sw: "spec_sweep (ask_accepts ty pr) sz t1 rest = (ls, t', cl2, ev2)"
        and cl: "cl = cl1 @ cl2" "ev = ev1 @ ev2"
        using Cons.prems(2) rbids True sl em by (auto split: prod.splits)
      have "match_ask_order pr sz ty t b = match_ask_order pr sz ty t1 ?b1"
        using True run t1 emp em
        by (subst match_ask_order.simps) (simp add: std_rbegin_def lv Let_def acc std_erase_append [OF k2])
      moreover obtain b' where b': "match_ask_order pr sz ty t1 ?b1 = Inr (t', b')"
        "book_repr b' (?A1\<lparr>sb_free := rev cl2 @ sb_free ?A1, sb_log := sb_log ?A1 @ ev2, sb_bids := rev ls\<rparr>)"
        "agree_on (- side_slots (sb_bids ?A1)) (store (order_pool ?b1)) (store (order_pool b'))"
        using Cons.hyps(1) [of ?A1 ?b1 t1 ls t' cl2 ev2] e [OF em] sw by auto
      moreover have "agree_on (- side_slots (sb_bids A)) (store (ms_pool s')) (store (order_pool b'))"
        by (rule agree_on_subset [OF b'(3) [simplified]]) (auto simp: bids side_slots_def)
      ultimately show ?thesis using agree_on_trans [OF ag] cl lg slog by auto
    qed
  qed
qed

section \<open>The pool under a book\<close>

text \<open>A change of the pool that leaves the resting orders alone.\<close>

lemma book_repr_pool:
  assumes b: "book_repr b A" and pool: "pool_repr order_overlay pool fs"
    and ag: "agree_on (side_slots (sb_bids A) \<union> side_slots (sb_asks A)) (store (order_pool b)) (store pool)"
  shows "book_repr (b\<lparr>order_pool := pool, book_log := lg\<rparr>) (A\<lparr>sb_free := fs, sb_log := lg\<rparr>)"
  using b pool side_repr_agree [OF _ ag] by (auto simp: book_repr_def)

lemma book_repr_unlinked:
  assumes "book_repr b A" and "i \<in> set (sb_free A)"
  shows "i \<notin> side_slots (sb_bids A) \<union> side_slots (sb_asks A)" "i < length (store (order_pool b))"
proof -
  from assms have r: "pool_repr order_overlay (order_pool b) (sb_free A)" by (simp add: book_repr_def)
  show "i < length (store (order_pool b))" by (rule pool_repr_below [OF r assms(2)])
  then have "is_free_or_in_use (store (order_pool b) ! i)" using r assms(2) by (simp add: pool_repr_def)
  then show "i \<notin> side_slots (sb_bids A) \<union> side_slots (sb_asks A)"
    using assms(1) side_repr_slot(2) by (auto simp: book_repr_def)
qed

section \<open>Adding an order to its level\<close>

lemma lev_empty [simp]: "lev st buy k empty_queue []"
  by (simp add: lev_def level_repr_def)

lemma append_to_level_repr:
  assumes b: "book_repr b A" and f: "f \<notin> side_slots (sb_bids A) \<union> side_slots (sb_asks A)"
    and fl: "f < length (store (order_pool b))" "\<not> is_free_or_in_use (store (order_pool b) ! f)"
    and ord: "core (object (store (order_pool b) ! f)) = ord"
      "price ord = pr" "is_buy_side ord = buy" "order_size ord \<noteq> 0"
  obtains b' where "append_to_level buy pr (Some f) b = Inr b'"
    "book_repr b' (set_sb_side buy (spec_rest pr (f, ord) (sb_side buy A)) A)"
proof -
  let ?st = "store (order_pool b)" and ?als = "sb_side buy A" and ?lv = "side_levels buy b"
  let ?lv1 = "std_subscript pr empty_queue ?lv" and ?als1 = "std_subscript pr [] ?als"
  have side: "side_repr ?st buy ?lv ?als" by (rule book_repr_side [OF b])
  then have srt: "std_sorted ?als" and rel0: "lv_rel (lev ?st buy) ?lv ?als" and ne: "\<forall>(k, es) \<in> set ?als. es \<noteq> []"
    by (simp_all add: side_repr_def)
  have rel: "lv_rel (lev ?st buy) ?lv1 ?als1" by (rule lv_rel_subscript [OF rel0 lev_empty])
  have srt1: "std_sorted ?als1" by (rule std_sorted_subscript [OF srt])
  have kin: "pr \<in> fst ` set ?als1" by (simp add: keys_std_subscript)
  obtain es where fa: "std_find ?als1 pr = Some es" using kin std_find_None [of ?als1 pr] by blast
  then obtain q where fq: "std_find ?lv1 pr = Some q" and lk: "lev ?st buy pr q es"
    using lv_rel_find [OF rel, of pr] by (auto simp: option_rel_Some2)
  have slots1: "side_slots ?als1 \<subseteq> side_slots ?als"
    using set_std_subscript [of pr "[]" ?als] by (fastforce simp: side_slots_def)
  have fals: "f \<notin> side_slots ?als" using f by (cases buy) (auto simp: sb_side_def)
  have fes: "f \<notin> set (map fst es)"
    using fals slots1 side_slots_in [OF std_find_Some_in [OF fa]] by auto
  have qr: "q_repr order_nodes ?st q (map fst es)" and eo: "entries_ok ?st es"
    using lk by (simp_all add: lev_def level_repr_def)
  have "length (f # map fst es) \<le> length ?st"
    using fes q_repr_distinct [OF qr] fl(1) entries_okD [OF eo] by (intro distinct_below_length) auto
  moreover have pool: "pool_repr order_overlay (order_pool b) (sb_free A)" using b by (simp add: book_repr_def)
  ultimately have len: "Suc (length (map fst es)) < 2 ^ 64" by (simp add: pool_repr_def)
  have gf: "get_node order_nodes ?st f \<noteq> None" using fl(1) by simp
  obtain st' q' where ap: "q_append order_nodes (Some f) (?st, q) = Inr (st', q')"
    and qr': "q_repr order_nodes st' q' (map fst es @ [f])" and co: "store_core st' = store_core ?st"
    and fr: "\<And>i. i \<notin> set (map fst es) \<Longrightarrow> i \<noteq> f \<Longrightarrow> get_node order_nodes st' i = get_node order_nodes ?st i"
    by (rule oh.q_append_repr [OF qr fes gf len]) blast
  have ag: "agree_on (- insert f (fst ` set es)) ?st st'"
    by (rule store_core_agree [OF co]) (rule fr, auto)
  have "entries_ok ?st (es @ [(f, ord)])" using eo fl ord by simp
  then have "entries_ok st' (es @ [(f, ord)])" by (rule entries_ok_core [OF co])
  then have lk': "lev st' buy pr q' (es @ [(f, ord)])"
    using qr' lk ord by (auto simp: lev_def level_repr_def)
  have other: "lev st' buy j q2 es2" if "j \<noteq> pr" "(j, es2) \<in> set ?als1" "lev ?st buy j q2 es2" for j q2 es2
  proof (rule lev_agree [OF ag _ that(3)])
    have "fst ` set es2 \<subseteq> - fst ` set es" by (rule lev_disjoint [OF lk that(3)]) (use that(1) in simp)
    then show "fst ` set es2 \<subseteq> - insert f (fst ` set es)"
      using side_slots_in [OF that(2)] slots1 fals by auto
  qed
  let ?new = "std_assign pr (es @ [(f, ord)]) ?als1"
  have "set ?new \<subseteq> insert (pr, es @ [(f, ord)]) (set ?als)"
    using set_std_assign_eq [OF srt1 kin] set_std_subscript [of pr "[]" ?als] by auto
  then have "side_repr st' buy (std_assign pr q' ?lv1) ?new"
    using lv_rel_assign [OF rel std_sorted_distinct [OF srt1], of "lev st' buy" pr q' "es @ [(f, ord)]", OF lk' other]
      srt1 ne by (auto simp: side_repr_def)
  moreover have pool': "pool_repr order_overlay ((order_pool b)\<lparr>store := st'\<rparr>) (sb_free A)"
    by (rule pool_repr_core [OF co pool])
  moreover have "agree_on (- insert f (side_slots ?als)) ?st st'"
    by (rule agree_on_subset [OF ag]) (use slots1 side_slots_in [OF std_find_Some_in [OF fa]] in auto)
  moreover have "side_slots (sb_side (\<not> buy) A) \<subseteq> - insert f (side_slots ?als)"
    using sides_disjoint [OF b, of buy] f by (cases buy) (auto simp: sb_side_def)
  ultimately have "book_repr (set_side_levels buy (std_assign pr q' ?lv1) (b\<lparr>order_pool := (order_pool b)\<lparr>store := st'\<rparr>\<rparr>))
      (set_sb_side buy ?new A)"
    using b side_repr_agree [OF book_repr_side [OF b, of "\<not> buy"]]
    by (cases buy) (fastforce simp: book_repr_def set_side_levels_def set_sb_side_def side_levels_def sb_side_def)+
  moreover have "append_to_level buy pr (Some f) b =
      Inr (set_side_levels buy (std_assign pr q' ?lv1) (b\<lparr>order_pool := (order_pool b)\<lparr>store := st'\<rparr>\<rparr>))"
    by (simp add: append_to_level_def fq ap Let_def)
  moreover have "spec_rest pr (f, ord) ?als = ?new" by (simp add: spec_rest_def fa Let_def)
  ultimately show thesis by (intro that) simp_all
qed

section \<open>Creating, adding, cancelling\<close>

definition spec_new :: "string \<Rightarrow> nat \<Rightarrow> spec_book" where
  "spec_new sy n = \<lparr>sb_symbol = sy, sb_free = [0..<n], sb_bids = [], sb_asks = [], sb_log = []\<rparr>"

lemma order_book_new_repr:
  assumes "n > 0"
  obtains b where "order_book_new sy n = Inr b" "book_repr b (spec_new sy (unat n))"
proof -
  obtain p where "mem_pool_new order_overlay zero_order n = Inr p" "pool_repr order_overlay p [0..<unat n]"
    by (rule om.mem_pool_new_repr [OF assms])
  then show thesis
    by (intro that) (auto simp: order_book_new_def book_repr_def spec_new_def side_repr_def)
qed

definition book_slots :: "spec_book \<Rightarrow> nat set" where
  "book_slots A = side_slots (sb_bids A) \<union> side_slots (sb_asks A)"

lemma match_order_repr:
  assumes b: "book_repr b A"
    and sp: "(if buy then spec_match_bid pr sz ty t A else spec_match_ask pr sz ty t A) = (m, A2)"
  obtains b2 where
    "(if buy then match_bid_order pr sz ty t b else match_ask_order pr sz ty t b) = Inr (m, b2)"
    "book_repr b2 A2" "agree_on (- book_slots A) (store (order_pool b)) (store (order_pool b2))"
    "book_slots A2 \<subseteq> book_slots A" "sb_symbol A2 = sb_symbol A"
proof (cases buy)
  case True
  obtain ls cl ev where sw: "spec_sweep (bid_accepts ty pr) sz t (sb_asks A) = (ls, m, cl, ev)"
    and A2: "A2 = A\<lparr>sb_free := rev cl @ sb_free A, sb_log := sb_log A @ ev, sb_asks := ls\<rparr>"
    using sp True by (auto simp: spec_match_bid_def split: prod.splits)
  obtain b2 where "match_bid_order pr sz ty t b = Inr (m, b2)" "book_repr b2 A2"
    "agree_on (- side_slots (sb_asks A)) (store (order_pool b)) (store (order_pool b2))"
    using match_bid_order_repr [OF b sw] A2 by blast
  moreover have "book_slots A2 \<subseteq> book_slots A" using spec_sweep_slots [OF sw] by (auto simp: A2 book_slots_def)
  ultimately show thesis
    using True A2 agree_on_subset [of "- side_slots (sb_asks A)" _ _ "- book_slots A"]
    by (intro that [of b2]) (auto simp: book_slots_def)
next
  case False
  obtain ls cl ev where sw: "spec_sweep (ask_accepts ty pr) sz t (rev (sb_bids A)) = (ls, m, cl, ev)"
    and A2: "A2 = A\<lparr>sb_free := rev cl @ sb_free A, sb_log := sb_log A @ ev, sb_bids := rev ls\<rparr>"
    using sp False by (auto simp: spec_match_ask_def split: prod.splits)
  obtain b2 where "match_ask_order pr sz ty t b = Inr (m, b2)" "book_repr b2 A2"
    "agree_on (- side_slots (sb_bids A)) (store (order_pool b)) (store (order_pool b2))"
    using match_ask_order_repr [OF b sw] A2 by blast
  moreover have "book_slots A2 \<subseteq> book_slots A" using spec_sweep_slots [OF sw] by (auto simp: A2 book_slots_def)
  ultimately show thesis
    using False A2 agree_on_subset [of "- side_slots (sb_bids A)" _ _ "- book_slots A"]
    by (intro that [of b2]) (auto simp: book_slots_def)
qed

text \<open>A write to an order that rests on no level.\<close>

lemma book_repr_write:
  assumes b: "book_repr b A" and i: "i < length (store (order_pool b))"
    "\<not> is_free_or_in_use (store (order_pool b) ! i)" "i \<notin> book_slots A"
  shows "book_repr (b\<lparr>order_pool := write_order (order_pool b) (Some i) ord, book_log := lg\<rparr>) (A\<lparr>sb_log := lg\<rparr>)"
proof -
  have "pool_repr order_overlay (write_order (order_pool b) (Some i) ord) (sb_free A)"
    using b i by (intro pool_repr_write) (simp_all add: book_repr_def)
  from book_repr_pool [OF b this, of lg] i(3) show ?thesis
    by (simp add: write_order_def book_slots_def)
qed

lemma add_order_repr:
  assumes b: "book_repr b A" and sp: "spec_add oid cid sz pr buy ty A = (r, A')"
  obtains b' where "add_order oid cid sz pr buy ty b = Inr (r, b')" "book_repr b' A'"
proof (cases "sb_free A")
  case Nil
  then have "pool_repr order_overlay (order_pool b) []" using b by (simp add: book_repr_def)
  then show thesis using b sp Nil by (intro that [of b]) (simp_all add: add_order_def allocate_full spec_add_def)
next
  case (Cons f fs)
  define new where "new = mk_order oid cid (book_symbol b) sz pr buy ty"
  have sy: "sb_symbol A = book_symbol b" and lg: "sb_log A = book_log b"
    and pool: "pool_repr order_overlay (order_pool b) (f # fs)"
    using b Cons by (simp_all add: book_repr_def)
  note un = book_repr_unlinked [OF b, of f, unfolded Cons, simplified]
  note al = allocate_repr [OF pool, of new]
  define pool1 where "pool1 = snd (allocate order_overlay (order_pool b) new)"
  have al1: "allocate order_overlay (order_pool b) new = (Some f, pool1)"
    using al(1) by (simp add: pool1_def prod_eq_iff)
  have st1: "store pool1 = (store (order_pool b))[f := \<lparr>is_free_or_in_use = False, object = new\<rparr>]"
    using al(2) by (simp add: pool1_def)
  have core_new: "core new = new" by (simp add: new_def mk_order_def core_def)
  have rd1: "read_order pool1 (Some f) = Inr new" using un by (simp add: read_order_def st1)
  define b1 where "b1 = b\<lparr>order_pool := pool1, book_log := book_log b @ [Incoming new]\<rparr>"
  define A1 where "A1 = A\<lparr>sb_free := fs, sb_log := sb_log A @ [Incoming new]\<rparr>"
  have "book_repr b1 A1"
    unfolding b1_def A1_def lg
    by (rule book_repr_pool [OF b]) (use al(3) un in \<open>simp_all add: pool1_def al(2)\<close>)
  moreover obtain m A2 where sm: "(if buy then spec_match_bid pr sz ty 0 A1 else spec_match_ask pr sz ty 0 A1) = (m, A2)"
    by fastforce
  ultimately obtain b2 where
    rm: "(if buy then match_bid_order pr sz ty 0 b1 else match_ask_order pr sz ty 0 b1) = Inr (m, b2)"
    and b2: "book_repr b2 A2" and ag: "agree_on (- book_slots A1) (store pool1) (store (order_pool b2))"
    and sl: "book_slots A2 \<subseteq> book_slots A1"
    by (rule match_order_repr) (auto simp: b1_def)
  have fA1: "f \<notin> book_slots A1" using un by (auto simp: book_slots_def A1_def)
  then have fA2: "f \<notin> book_slots A2" using sl by blast
  have f1: "f < length (store pool1)" using un by (simp add: st1)
  then have el: "store (order_pool b2) ! f = \<lparr>is_free_or_in_use = False, object = new\<rparr>"
    and fl: "f < length (store (order_pool b2))"
    using ag fA1 un by (auto simp: agree_on_def st1)
  define ord' where "ord' = snd (decrease_size m new)"
  define pool3 where "pool3 = write_order (order_pool b2) (Some f) ord'"
  have core': "core ord' = ord'"
    using arg_cong [OF decrease_size_core [of m new], of snd] core_new by (simp add: ord'_def)
  have lg2: "sb_log A2 = book_log b2" using b2 by (simp add: book_repr_def)
  have w: "book_repr (b2\<lparr>order_pool := pool3, book_log := lg\<rparr>) (A2\<lparr>sb_log := lg\<rparr>)" for lg
    unfolding pool3_def by (rule book_repr_write [OF b2 fl _ fA2]) (simp add: el)
  have rd2: "read_order (order_pool b2) (Some f) = Inr new" using fl el by (simp add: read_order_def)
  have add: "add_order oid cid sz pr buy ty b =
     (if m < sz then
        rbind (append_to_level buy pr (Some f) (b2\<lparr>order_pool := pool3, book_log := book_log b2 @ [Resting ord']\<rparr>))
          (\<lambda>b4. Inr (Some f, b4))
      else Inr (Some f, b2\<lparr>order_pool := pool3, book_log := book_log b2 @ [Fully_Matched ord']\<rparr>))"
    unfolding add_order_def
    by (simp only: new_def [symmetric] al1 prod.case option.case rd1 rbind_Inr Let_def core_new
        b1_def [symmetric] rm rd2 ord'_def [symmetric] pool3_def [symmetric] core') simp
  have spec: "spec_add oid cid sz pr buy ty A =
     (if m < sz then
        (Some f, set_sb_side buy (spec_rest pr (f, ord') (sb_side buy A2)) (A2\<lparr>sb_log := sb_log A2 @ [Resting ord']\<rparr>))
      else (Some f, A2\<lparr>sb_log := sb_log A2 @ [Fully_Matched ord']\<rparr>))"
    unfolding spec_add_def
    by (simp only: Cons list.case sy new_def [symmetric] Let_def A1_def [symmetric] sm prod.case ord'_def [symmetric])
  show thesis
  proof (cases "m < sz")
    case False
    with add spec sp w [of "book_log b2 @ [Fully_Matched ord']"] show thesis by (auto simp: lg2 intro: that)
  next
    case True
    let ?b3 = "b2\<lparr>order_pool := pool3, book_log := book_log b2 @ [Resting ord']\<rparr>"
    let ?A3 = "A2\<lparr>sb_log := sb_log A2 @ [Resting ord']\<rparr>"
    have st3: "store pool3 = (store (order_pool b2))[f := \<lparr>is_free_or_in_use = False, object = ord'\<rparr>]"
      by (simp add: pool3_def write_order_def el)
    have "order_size ord' \<noteq> 0"
      using True by (auto simp: ord'_def new_def mk_order_def decrease_size_def Let_def)
    moreover have "price ord' = pr" "is_buy_side ord' = buy" by (simp_all add: ord'_def new_def mk_order_def)
    moreover have "book_repr ?b3 ?A3" using w lg2 by simp
    ultimately obtain b4 where "append_to_level buy pr (Some f) ?b3 = Inr b4"
      "book_repr b4 (set_sb_side buy (spec_rest pr (f, ord') (sb_side buy ?A3)) ?A3)"
      by (rule_tac append_to_level_repr [of ?b3 ?A3 f ord' pr buy])
         (use fA2 fl core' in \<open>auto simp: book_slots_def st3\<close>)
    with add spec sp True show thesis by (cases buy) (auto simp: sb_side_def intro: that)
  qed
qed

text \<open>
  Cancelling. A resting order is unlinked from its level; an order in use whose price has no
  level (a fully matched one, for example) is only given back to the pool.
\<close>

lemma map_fst_filter: "distinct (map fst es) \<Longrightarrow> map fst (filter (\<lambda>e. fst e \<noteq> p) es) = remove1 p (map fst es)"
proof (induction es)
  case (Cons e es)
  then show ?case by (cases "fst e = p") (auto simp: remove1_idem)
qed simp

lemma remove_from_level_repr:
  assumes b: "book_repr b A" and fa: "std_find (sb_side buy A) pr = Some es" and p: "(p, ord) \<in> set es"
  obtains b' where "remove_from_level buy pr (Some p) b = Inr b'"
    "book_repr b' (set_sb_side buy (spec_unlink pr p (sb_side buy A)) A)"
    "store_core (store (order_pool b')) = store_core (store (order_pool b))"
    "p \<notin> book_slots (set_sb_side buy (spec_unlink pr p (sb_side buy A)) A)"
proof -
  let ?st = "store (order_pool b)" and ?als = "sb_side buy A" and ?lv = "side_levels buy b"
  let ?es' = "filter (\<lambda>e. fst e \<noteq> p) es"
  have side: "side_repr ?st buy ?lv ?als" by (rule book_repr_side [OF b])
  then have srt: "std_sorted ?als" and rel: "lv_rel (lev ?st buy) ?lv ?als" and ne: "\<forall>(k, es) \<in> set ?als. es \<noteq> []"
    by (simp_all add: side_repr_def)
  from fa obtain q where fq: "std_find ?lv pr = Some q" and lk: "lev ?st buy pr q es"
    using lv_rel_find [OF rel, of pr] by (auto simp: option_rel_Some2)
  have kin: "(pr, es) \<in> set ?als" using fa by (rule std_find_Some_in)
  have qr: "q_repr order_nodes ?st q (map fst es)" using lk by (simp add: lev_def level_repr_def)
  have pin: "p \<in> set (map fst es)" using p by force
  obtain st' q' where rm: "q_remove order_nodes (Some p) (?st, q) = Inr (st', q')"
    and qr': "q_repr order_nodes st' q' (remove1 p (map fst es))" and co: "store_core st' = store_core ?st"
    and fr: "\<And>i. i \<notin> set (map fst es) \<Longrightarrow> get_node order_nodes st' i = get_node order_nodes ?st i"
    by (rule oh.q_remove_repr [OF qr pin]) blast
  have ag: "agree_on (- (fst ` set es)) ?st st'" by (rule store_core_agree [OF co]) (rule fr, auto)
  have "entries_ok ?st ?es'" using lk by (auto simp: lev_def level_repr_def entries_ok_def)
  then have "entries_ok st' ?es'" by (rule entries_ok_core [OF co])
  then have lk': "lev st' buy pr q' ?es'"
    using qr' lk map_fst_filter [OF q_repr_distinct [OF qr], of p] by (auto simp: lev_def level_repr_def)
  have emp: "q_empty q' \<longleftrightarrow> ?es' = []"
    using lk' unfolding lev_def level_repr_def by (metis map_is_Nil_conv q_repr_is_empty)
  have dist: "distinct (map fst ?als)" by (rule std_sorted_distinct [OF srt])
  have other: "lev st' buy j q2 es2" if "j \<noteq> pr" "(j, es2) \<in> set ?als" "lev ?st buy j q2 es2" for j q2 es2
    by (rule lev_agree [OF ag lev_disjoint [OF lk that(3)] that(3)]) (use that(1) in simp)
  define lv' where "lv' = (if q_empty q' then std_erase pr ?lv else std_assign pr q' ?lv)"
  define als' where "als' = spec_unlink pr p ?als"
  have als': "als' = (if ?es' = [] then std_erase pr ?als else std_assign pr ?es' ?als)"
    by (simp add: als'_def spec_unlink_def fa)
  have "side_repr st' buy lv' als'"
  proof (cases "?es' = []")
    case True
    with lv_rel_erase [OF rel dist, of pr "lev st' buy", OF other] srt ne show ?thesis
      by (simp add: side_repr_def lv'_def als' emp std_sorted_erase set_std_erase)
  next
    case False
    with lv_rel_assign [OF rel dist, of "lev st' buy" pr q' ?es', OF lk' other] srt ne
      set_std_assign [of pr ?es' ?als]
    show ?thesis by (auto simp: side_repr_def lv'_def als' emp)
  qed
  moreover have "pool_repr order_overlay ((order_pool b)\<lparr>store := st'\<rparr>) (sb_free A)"
    by (rule pool_repr_core [OF co]) (use b in \<open>simp add: book_repr_def\<close>)
  moreover have "agree_on (- side_slots ?als) ?st st'"
    by (rule agree_on_subset [OF ag]) (use side_slots_in [OF kin] in auto)
  ultimately have repr: "book_repr (set_side_levels buy lv' (b\<lparr>order_pool := (order_pool b)\<lparr>store := st'\<rparr>\<rparr>))
      (set_sb_side buy als' A)"
    using book_repr_replace [OF b, of "(order_pool b)\<lparr>store := st'\<rparr>" "sb_free A" buy lv' als' "book_log b"] b
    by (simp add: book_repr_def set_side_levels_def set_sb_side_def split: if_splits)
  have other_level: "p \<notin> fst ` set es2" if kes: "(k, es2) \<in> set ?als" "k \<noteq> pr" for k es2
  proof -
    obtain q2 where "lev ?st buy k q2 es2" using lv_rel_in [OF rel kes(1)] by blast
    from lev_disjoint [OF lk this] kes(2) pin show ?thesis by auto
  qed
  have pk: "pr \<in> fst ` set ?als" using kin by force
  have "set als' \<subseteq> insert (pr, ?es') {x \<in> set ?als. fst x \<noteq> pr}"
    using set_std_assign_eq [OF srt pk, of ?es'] set_std_erase [OF srt, of pr] by (auto simp: als')
  then have "p \<notin> fst ` set es2" if "(k, es2) \<in> set als'" for k es2
    using other_level [of k es2] that by (cases "k = pr") auto
  then have "p \<notin> side_slots als'" by (auto simp: side_slots_def)
  moreover have "p \<notin> side_slots (sb_side (\<not> buy) A)"
    using sides_disjoint [OF b, of buy] side_slots_in [OF kin] pin by auto
  ultimately have "p \<notin> book_slots (set_sb_side buy als' A)"
    by (cases buy) (auto simp: book_slots_def set_sb_side_def sb_side_def)
  moreover have "remove_from_level buy pr (Some p) b =
      Inr (set_side_levels buy lv' (b\<lparr>order_pool := (order_pool b)\<lparr>store := st'\<rparr>\<rparr>))"
    by (simp add: remove_from_level_def fq rm Let_def lv'_def)
  ultimately show thesis
    using repr co
    by (intro that [of "set_side_levels buy lv' (b\<lparr>order_pool := (order_pool b)\<lparr>store := st'\<rparr>\<rparr>)"])
       (simp_all add: als'_def set_side_levels_def)
qed

text \<open>Giving back a slot that rests on no level.\<close>

lemma book_repr_deallocate:
  assumes b: "book_repr b A" and i: "i < length (store (order_pool b))" "i \<notin> set (sb_free A)" "i \<notin> book_slots A"
  obtains pool where "deallocate order_overlay (Some i) (order_pool b) = Inr pool"
    "book_repr (b\<lparr>order_pool := pool, book_log := lg\<rparr>) (A\<lparr>sb_free := i # sb_free A, sb_log := lg\<rparr>)"
proof -
  from b have r: "pool_repr order_overlay (order_pool b) (sb_free A)" by (simp add: book_repr_def)
  obtain pool where de: "deallocate order_overlay (Some i) (order_pool b) = Inr pool"
    and pr: "pool_repr order_overlay pool (i # sb_free A)"
    and st: "store pool = (store (order_pool b))[i := \<lparr>is_free_or_in_use = True,
       object = set_idx order_overlay (next_free_index (order_pool b)) (object (store (order_pool b) ! i))\<rparr>]"
    by (rule om.deallocate_repr [OF r i(1,2)])
  show thesis
    by (rule that [OF de], rule book_repr_pool [OF b pr]) (use i(3) in \<open>simp add: st book_slots_def\<close>)
qed

lemma cancel_order_repr:
  assumes b: "book_repr b A" and fa: "std_find (sb_side (is_buy_side ord) A) (price ord) = Some es"
    and p: "(p, ord) \<in> set es"
  obtains b' where "cancel_order (Some p) b = Inr b'" "book_repr b' (spec_cancel p ord A)"
proof -
  let ?A1 = "set_sb_side (is_buy_side ord) (spec_unlink (price ord) p (sb_side (is_buy_side ord) A)) A"
  obtain q where lk: "lev (store (order_pool b)) (is_buy_side ord) (price ord) q es"
    using book_repr_side [OF b, of "is_buy_side ord"] unfolding side_repr_def
    by (blast dest: lv_rel_in [OF _ std_find_Some_in [OF fa]])
  then have at: "p < length (store (order_pool b))" "core (object (store (order_pool b) ! p)) = ord"
    "\<not> is_free_or_in_use (store (order_pool b) ! p)"
    using p by (auto simp: lev_def level_repr_def dest: entries_okD)
  obtain b1 where rm: "remove_from_level (is_buy_side ord) (price ord) (Some p) b = Inr b1"
    and b1: "book_repr b1 ?A1" and co: "store_core (store (order_pool b1)) = store_core (store (order_pool b))"
    and un: "p \<notin> book_slots ?A1"
    by (rule remove_from_level_repr [OF b fa p])
  note c1 = store_core_nth [OF co at(1)]
  have p1: "p < length (store (order_pool b1))" using store_core_length [OF co] at(1) by simp
  have nf: "p \<notin> set (sb_free ?A1)" using b1 p1 c1(2) at(3) by (auto simp: book_repr_def pool_repr_def)
  have lg1: "sb_log ?A1 = book_log b1" using b1 by (simp add: book_repr_def)
  obtain pool where de: "deallocate order_overlay (Some p) (order_pool b1) = Inr pool"
    and r: "book_repr (b1\<lparr>order_pool := pool, book_log := book_log b1 @ [Cancelled ord]\<rparr>)
       (?A1\<lparr>sb_free := p # sb_free ?A1, sb_log := book_log b1 @ [Cancelled ord]\<rparr>)"
    by (rule book_repr_deallocate [OF b1 p1 nf un])
  have io: "is_buy_side (object (store (order_pool b) ! p)) = is_buy_side ord"
    "price (object (store (order_pool b) ! p)) = price ord" using at(2) by auto
  have "cancel_order (Some p) b = Inr (b1\<lparr>order_pool := pool, book_log := book_log b1 @ [Cancelled ord]\<rparr>)"
    using at(1) p1 io rm de c1(1) at(2) by (simp add: cancel_order_def read_order_def Let_def)
  moreover have "spec_cancel p ord A = ?A1\<lparr>sb_free := p # sb_free ?A1, sb_log := sb_log ?A1 @ [Cancelled ord]\<rparr>"
    by (simp add: spec_cancel_def set_sb_side_def)
  ultimately show thesis using r lg1 by (intro that) simp_all
qed

lemma cancel_unlinked_repr:
  assumes b: "book_repr b A" and p: "p < length (store (order_pool b))" "p \<notin> set (sb_free A)" "p \<notin> book_slots A"
    and ord: "core (object (store (order_pool b) ! p)) = ord"
    and nolevel: "std_find (sb_side (is_buy_side ord) A) (price ord) = None"
  obtains b' where "cancel_order (Some p) b = Inr b'"
    "book_repr b' (A\<lparr>sb_free := p # sb_free A, sb_log := sb_log A @ [Cancelled ord]\<rparr>)"
proof -
  have nl: "std_find (side_levels (is_buy_side ord) b) (price ord) = None"
    using nolevel book_repr_side [OF b, of "is_buy_side ord"] lv_rel_find
    by (fastforce simp: side_repr_def option_rel_Some1 elim: option.rel_cases)
  have lg: "sb_log A = book_log b" using b by (simp add: book_repr_def)
  have io: "is_buy_side (object (store (order_pool b) ! p)) = is_buy_side ord"
    "price (object (store (order_pool b) ! p)) = price ord" using ord by auto
  obtain pool where "deallocate order_overlay (Some p) (order_pool b) = Inr pool"
    "book_repr (b\<lparr>order_pool := pool, book_log := book_log b @ [Cancelled ord]\<rparr>)
       (A\<lparr>sb_free := p # sb_free A, sb_log := book_log b @ [Cancelled ord]\<rparr>)"
    by (rule book_repr_deallocate [OF b p])
  then show thesis
    using p(1) io nl ord lg
    by (intro that) (auto simp: cancel_order_def read_order_def remove_from_level_def)
qed

end
