(* ===== verification/Book_Priority.thy ===== *)
theory Book_Priority
  imports Book_Spec
begin

text \<open>
  What matching promises, on the abstract book: how much is traded, at which prices, in which
  order, and that no quantity is lost; and the invariants of the book that follow, above all
  that it is never crossed. The quantities are natural numbers, so none of these statements can
  hold by a wrap-around.
\<close>

section \<open>Quantities\<close>

definition qty :: "entry list \<Rightarrow> nat" where
  "qty es = (\<Sum>e\<leftarrow>es. unat (order_size (snd e)))"

definition flat :: "levels \<Rightarrow> entry list" where
  "flat ls = concat (map snd ls)"

text \<open>The quantity that an order which accepts the prices \<open>ok\<close> can trade with.\<close>

definition depth :: "(u64 \<Rightarrow> bool) \<Rightarrow> levels \<Rightarrow> nat" where
  "depth ok ls = qty (flat (filter (\<lambda>l. ok (fst l)) ls))"

lemma qty_simps [simp]:
  "qty [] = 0" "qty (e # es) = unat (order_size (snd e)) + qty es" "qty (es @ fs) = qty es + qty fs"
  by (simp_all add: qty_def)

lemma flat_simps [simp]:
  "flat [] = []" "flat ((k, es) # ls) = es @ flat ls" "flat (ls @ ls') = flat ls @ flat ls'"
  by (simp_all add: flat_def)

lemma depth_simps [simp]:
  "depth ok [] = 0"
  "depth ok ((k, es) # ls) = (if ok k then qty es else 0) + depth ok ls"
  by (simp_all add: depth_def)

lemma depth_none: "\<forall>(k, es) \<in> set ls. \<not> ok k \<Longrightarrow> depth ok ls = 0"
  by (induction ls) auto

section \<open>One level\<close>

lemma decrease_size_exact:
  assumes "decrease_size a ord = (m, ord')"
  shows "unat m = min (unat a) (unat (order_size ord))"
    and "unat (order_size ord') = unat (order_size ord) - unat a"
    and "ord' = ord\<lparr>order_size := order_size ord'\<rparr>"
  using assms decrease_size_removed [of a ord] decrease_size_left [of a ord]
  by (auto simp: decrease_size_def Let_def split: if_splits)

text \<open>The total after an addition of at most what is missing does not wrap.\<close>

lemma unat_add_upto:
  fixes t m sz :: u32
  assumes "t \<le> sz" and "unat m \<le> unat (sz - t)"
  shows "unat (t + m) = unat t + unat m" and "t + m \<le> sz"
proof -
  have le: "unat t + unat m \<le> unat sz" using assms by (simp add: unat_sub word_le_nat_alt)
  also have "\<dots> < 2 ^ 32" using unsigned_less [of sz] by simp
  finally show *: "unat (t + m) = unat t + unat m" using unat_add_lem [of t m] by simp
  with le show "t + m \<le> sz" by (simp add: word_le_nat_alt)
qed

lemma spec_level_trades:
  "spec_level sz t es = (es', t', cl, ev) \<Longrightarrow> t \<le> sz \<Longrightarrow>
     unat t' = min (unat sz) (unat t + qty es) \<and> qty es = qty es' + (unat t' - unat t) \<and>
     (t' < sz \<longrightarrow> es' = [])"
proof (induction sz t es arbitrary: es' t' cl ev rule: spec_level.induct)
  case (1 sz t)
  then show ?case by (auto simp: word_le_nat_alt)
next
  case (2 sz t p ord es)
  obtain m ord' where d: "decrease_size (sz - t) ord = (m, ord')" by fastforce
  note ex = decrease_size_exact [OF d]
  have sub: "unat (sz - t) = unat sz - unat t" using "2.prems"(2) by (simp add: unat_sub)
  have add: "unat (t + m) = unat t + unat m" "t + m \<le> sz"
    using unat_add_upto [OF "2.prems"(2), of m] ex(1) by simp_all
  show ?case
  proof (cases "t < sz")
    case False
    with "2.prems" show ?thesis by auto
  next
    case lt: True
    show ?thesis
    proof (cases "order_size ord' = 0")
      case True
      obtain es1 t1 cl1 ev1 where sl: "spec_level sz (t + m) es = (es1, t1, cl1, ev1)" by (metis prod_cases4)
      have "unat (order_size ord) \<le> unat (sz - t)" using ex(2) True by simp
      then have um: "unat m = unat (order_size ord)" using ex(1) by simp
      from "2.prems"(1) lt d True sl have eq: "es' = es1" "t' = t1" by auto
      from "2.IH" [OF lt d [symmetric] True sl add(2)]
      have IH: "unat t1 = min (unat sz) (unat (t + m) + qty es)" "qty es = qty es1 + (unat t1 - unat (t + m))"
        "t1 < sz \<longrightarrow> es1 = []" by blast+
      have "unat t + unat m \<le> unat sz" using add by (simp add: word_le_nat_alt)
      then have "unat t + unat m \<le> unat t1" using IH(1) add(1) by simp
      then have "qty ((p, ord) # es) = qty es' + (unat t' - unat t)"
        using IH(2) eq um add(1) by simp
      moreover have "unat t' = min (unat sz) (unat t + qty ((p, ord) # es))"
        using IH(1) eq um add(1) by (simp add: add.assoc)
      ultimately show ?thesis using IH(3) eq by simp
    next
      case False
      with ex(2) have "unat (sz - t) < unat (order_size ord)" by (metis diff_is_0_eq not_less unat_eq_zero)
      moreover have "es' = (p, ord') # es" "t' = t + m" using "2.prems"(1) lt d False by auto
      moreover have "unat t < unat sz" using lt by (simp add: word_less_nat_alt)
      ultimately show ?thesis using ex add sub by (simp add: word_less_nat_alt)
    qed
  qed
qed

text \<open>Time priority: what is closed is a front segment, and only the next order is reduced.\<close>

definition same_but_size :: "entry list \<Rightarrow> entry list \<Rightarrow> bool" where
  "same_but_size es es' \<longleftrightarrow> es' = es \<or>
     (\<exists>p ord s rest. es = (p, ord) # rest \<and> es' = (p, ord\<lparr>order_size := s\<rparr>) # rest \<and>
        s \<noteq> 0 \<and> s \<le> order_size ord)"

lemma spec_level_priority:
  "spec_level sz t es = (es', t', cl, ev) \<Longrightarrow> t \<le> sz \<Longrightarrow>
     same_but_size (drop (length cl) es) es' \<and> cl = map fst (take (length cl) es)"
proof (induction sz t es arbitrary: es' t' cl ev rule: spec_level.induct)
  case (2 sz t p ord es)
  obtain m ord' where d: "decrease_size (sz - t) ord = (m, ord')" by fastforce
  note ex = decrease_size_exact [OF d]
  have add: "t + m \<le> sz" using unat_add_upto [OF "2.prems"(2), of m] ex(1) by simp
  consider "\<not> t < sz" | "t < sz" "order_size ord' = 0" | "t < sz" "order_size ord' \<noteq> 0" by blast
  then show ?case
  proof cases
    case 1
    with "2.prems" show ?thesis by (auto simp: same_but_size_def)
  next
    case 2
    obtain es1 t1 cl1 ev1 where sl: "spec_level sz (t + m) es = (es1, t1, cl1, ev1)" by (metis prod_cases4)
    with "2.IH" [OF 2(1) d [symmetric] 2(2) sl add] "2.prems" 2 d show ?thesis by auto
  next
    case 3
    have "order_size ord' \<le> order_size ord" using ex(2) by (simp add: word_le_nat_alt)
    with 3 ex(3) "2.prems" d show ?thesis
      by (auto simp: same_but_size_def intro!: exI [of _ "order_size ord'"])
  qed
qed (simp add: same_but_size_def)

section \<open>All levels\<close>

text \<open>Best price first: if a price is acceptable, so are the prices before it.\<close>

definition best_first :: "(u64 \<Rightarrow> bool) \<Rightarrow> levels \<Rightarrow> bool" where
  "best_first ok ls \<longleftrightarrow> sorted_wrt (\<lambda>a b. ok (fst b) \<longrightarrow> ok (fst a)) ls"

lemma best_first_simps [simp]:
  "best_first ok []"
  "best_first ok ((k, es) # ls) \<longleftrightarrow> (\<forall>l \<in> set ls. ok (fst l) \<longrightarrow> ok k) \<and> best_first ok ls"
  by (auto simp: best_first_def)

lemma spec_sweep_trades:
  "spec_sweep ok sz t ls = (ls', t', cl, ev) \<Longrightarrow> t \<le> sz \<Longrightarrow> best_first ok ls \<Longrightarrow>
     unat t' = min (unat sz) (unat t + depth ok ls) \<and>
     qty (flat ls) = qty (flat ls') + (unat t' - unat t) \<and>
     (t' < sz \<longrightarrow> (\<forall>l \<in> set ls'. \<not> ok (fst l)))"
proof (induction ok sz t ls arbitrary: ls' t' cl ev rule: spec_sweep.induct)
  case (1 ok sz t)
  then show ?case by (auto simp: word_le_nat_alt)
next
  case (2 ok sz t k es ls)
  obtain es1 t1 cl1 ev1 where sl: "spec_level sz t es = (es1, t1, cl1, ev1)" by (metis prod_cases4)
  obtain ls2 t2 cl2 ev2 where sw: "spec_sweep ok sz t1 ls = (ls2, t2, cl2, ev2)" by (metis prod_cases4)
  have tle: "unat t \<le> unat sz" using "2.prems"(2) by (simp add: word_le_nat_alt)
  have L: "unat t1 = min (unat sz) (unat t + qty es)" "qty es = qty es1 + (unat t1 - unat t)"
    "t1 < sz \<longrightarrow> es1 = []"
    using spec_level_trades [OF sl "2.prems"(2)] by blast+
  have t1: "t1 \<le> sz" "unat t \<le> unat t1" using L(1) tle by (simp_all add: word_le_nat_alt)
  consider "\<not> t < sz" | "t < sz" "\<not> ok k" | "t < sz" "ok k" "es1 \<noteq> []" | "t < sz" "ok k" "es1 = []" by blast
  then show ?case
  proof cases
    case 1
    then have "t' = t" "ls' = (k, es) # ls" "unat t = unat sz"
      using "2.prems"(1) tle by (auto simp: word_less_nat_alt)
    with 1 show ?thesis by simp
  next
    case 2
    then have "\<forall>l \<in> set ls. \<not> ok (fst l)" using "2.prems"(3) by auto
    moreover from this have "depth ok ls = 0" by (intro depth_none) auto
    moreover have "t' = t" "ls' = (k, es) # ls" using "2.prems"(1) 2 by auto
    ultimately show ?thesis using 2 tle by simp
  next
    case 3
    then have eq: "t' = t1" "ls' = (k, es1) # ls" using "2.prems"(1) sl by auto
    have full: "\<not> t1 < sz" using L(3) 3 by blast
    then have "unat t1 = unat sz" using t1(1) by (simp add: word_le_nat_alt word_less_nat_alt)
    with L(1,2) eq 3(2) full show ?thesis by simp
  next
    case 4
    then have eq: "t' = t2" "ls' = ls2" using "2.prems"(1) sl sw by auto
    have "best_first ok ls" using "2.prems"(3) by simp
    from "2.IH" [OF conjI [OF 4(1,2)] sl [symmetric] refl refl 4(3) sw t1(1) this]
    have S: "unat t2 = min (unat sz) (unat t1 + depth ok ls)"
      "qty (flat ls) = qty (flat ls2) + (unat t2 - unat t1)"
      "t2 < sz \<longrightarrow> (\<forall>l \<in> set ls2. \<not> ok (fst l))" by blast+
    have "unat t1 = unat t + qty es" using L(1,2) 4(3) t1 by simp
    moreover have "unat t1 \<le> unat t2" using S(1) t1(1) by (simp add: word_le_nat_alt)
    ultimately have "qty (flat ((k, es) # ls)) = qty (flat ls') + (unat t' - unat t)"
      using S(2) eq t1(2) by simp
    moreover have "unat t' = min (unat sz) (unat t + depth ok ((k, es) # ls))"
      using S(1) eq 4(2) \<open>unat t1 = unat t + qty es\<close> by (simp add: add.assoc)
    ultimately show ?thesis using S(3) eq by blast
  qed
qed

lemma same_but_size_append: "same_but_size es es' \<Longrightarrow> same_but_size (es @ fs) (es' @ fs)"
  by (auto simp: same_but_size_def)

text \<open>Price-time priority: the orders are used up in the order of the flattened levels.\<close>

lemma spec_sweep_priority:
  "spec_sweep ok sz t ls = (ls', t', cl, ev) \<Longrightarrow> t \<le> sz \<Longrightarrow>
     same_but_size (drop (length cl) (flat ls)) (flat ls') \<and> cl = map fst (take (length cl) (flat ls))"
proof (induction ok sz t ls arbitrary: ls' t' cl ev rule: spec_sweep.induct)
  case (2 ok sz t k es ls)
  obtain es1 t1 cl1 ev1 where sl: "spec_level sz t es = (es1, t1, cl1, ev1)" by (metis prod_cases4)
  obtain ls2 t2 cl2 ev2 where sw: "spec_sweep ok sz t1 ls = (ls2, t2, cl2, ev2)" by (metis prod_cases4)
  note L = spec_level_priority [OF sl "2.prems"(2)]
  have len: "length cl1 \<le> length es"
    using spec_level_slots [OF sl] by (metis length_append length_map le_add1)
  have t1: "t1 \<le> sz"
    using spec_level_trades [OF sl "2.prems"(2)] by (metis min.cobounded1 word_le_nat_alt)
  consider "\<not> (t < sz \<and> ok k)" | "t < sz" "ok k" "es1 \<noteq> []" | "t < sz" "ok k" "es1 = []" by blast
  then show ?case
  proof cases
    case 1
    then have "cl = []" "ls' = (k, es) # ls" using "2.prems"(1) by auto
    then show ?thesis by (simp add: same_but_size_def)
  next
    case 2
    then have "cl = cl1" "ls' = (k, es1) # ls" using "2.prems"(1) sl by auto
    with L len show ?thesis by (simp add: same_but_size_append)
  next
    case 3
    then have eq: "cl = cl1 @ cl2" "ls' = ls2" using "2.prems"(1) sl sw by auto
    from L 3(3) len have all: "length cl1 = length es" by (auto simp: same_but_size_def)
    from "2.IH" [OF conjI [OF 3(1,2)] sl [symmetric] refl refl 3(3) sw t1] L eq all
    show ?thesis by simp
  qed
qed (simp add: same_but_size_def)

text \<open>Limit prices: a level whose price is not acceptable is untouched.\<close>

lemma spec_sweep_limit:
  "spec_sweep ok sz t ls = (ls', t', cl, ev) \<Longrightarrow> best_first ok ls \<Longrightarrow>
     filter (\<lambda>l. \<not> ok (fst l)) ls' = filter (\<lambda>l. \<not> ok (fst l)) ls \<and>
     (\<exists>n. map fst ls' = drop n (map fst ls)) \<and>
     ((\<forall>l \<in> set ls. snd l \<noteq> []) \<longrightarrow> (\<forall>l \<in> set ls'. snd l \<noteq> []))"
proof (induction ok sz t ls arbitrary: ls' t' cl ev rule: spec_sweep.induct)
  case (2 ok sz t k es ls)
  obtain es1 t1 cl1 ev1 where sl: "spec_level sz t es = (es1, t1, cl1, ev1)" by (metis prod_cases4)
  obtain ls2 t2 cl2 ev2 where sw: "spec_sweep ok sz t1 ls = (ls2, t2, cl2, ev2)" by (metis prod_cases4)
  consider "\<not> (t < sz \<and> ok k)" | "t < sz" "ok k" "es1 \<noteq> []" | "t < sz" "ok k" "es1 = []" by blast
  then show ?case
  proof cases
    case 1
    then have "ls' = (k, es) # ls" using "2.prems"(1) by auto
    then show ?thesis by (auto intro: exI [of _ 0])
  next
    case 2
    then have "ls' = (k, es1) # ls" using "2.prems"(1) sl by auto
    with 2 show ?thesis by (auto intro: exI [of _ 0])
  next
    case 3
    then have eq: "ls' = ls2" using "2.prems"(1) sl sw by auto
    have "best_first ok ls" using "2.prems"(2) by simp
    note IH = "2.IH" [OF conjI [OF 3(1,2)] sl [symmetric] refl refl 3(3) sw this]
    then obtain n where "map fst ls2 = drop n (map fst ls)" by blast
    then have "map fst ls' = drop (Suc n) (map fst ((k, es) # ls))" using eq by simp
    then have "\<exists>n. map fst ls' = drop n (map fst ((k, es) # ls))" by blast
    moreover have "filter (\<lambda>l. \<not> ok (fst l)) ls' = filter (\<lambda>l. \<not> ok (fst l)) ((k, es) # ls)"
      using IH eq 3(2) by simp
    moreover have "(\<forall>l \<in> set ((k, es) # ls). snd l \<noteq> []) \<longrightarrow> (\<forall>l \<in> set ls'. snd l \<noteq> [])"
      using IH eq by simp
    ultimately show ?thesis by blast
  qed
qed auto

section \<open>The book\<close>

text \<open>
  The side an incoming order trades with, best price first, and the prices it accepts.
\<close>

definition facing :: "bool \<Rightarrow> spec_book \<Rightarrow> levels" where
  "facing buy A = (if buy then sb_asks A else rev (sb_bids A))"

definition accepts :: "bool \<Rightarrow> order_type \<Rightarrow> u64 \<Rightarrow> u64 \<Rightarrow> bool" where
  "accepts buy ty pr k = (if buy then bid_accepts ty pr k else ask_accepts ty pr k)"

definition spec_match :: "bool \<Rightarrow> u64 \<Rightarrow> u32 \<Rightarrow> order_type \<Rightarrow> u32 \<Rightarrow> spec_book \<Rightarrow> u32 \<times> spec_book" where
  "spec_match buy pr sz ty t A = (if buy then spec_match_bid pr sz ty t A else spec_match_ask pr sz ty t A)"

definition book_qty :: "bool \<Rightarrow> spec_book \<Rightarrow> nat" where
  "book_qty buy A = qty (flat (sb_side buy A))"

definition book_wf :: "spec_book \<Rightarrow> bool" where
  "book_wf A \<longleftrightarrow> (\<forall>buy. std_sorted (sb_side buy A) \<and>
     (\<forall>(k, es) \<in> set (sb_side buy A). es \<noteq> [] \<and>
        (\<forall>(p, ord) \<in> set es. price ord = k \<and> is_buy_side ord = buy \<and> order_size ord \<noteq> 0)))"

text \<open>No resting bid reaches a resting ask.\<close>

definition uncrossed :: "spec_book \<Rightarrow> bool" where
  "uncrossed A \<longleftrightarrow> (\<forall>x \<in> set (sb_bids A). \<forall>y \<in> set (sb_asks A). fst x < fst y)"

lemma qty_flat_rev [simp]: "qty (flat (rev ls)) = qty (flat ls)"
  by (induction ls) auto

lemma qty_flat_facing: "qty (flat (facing buy A)) = book_qty (\<not> buy) A"
  by (simp add: facing_def book_qty_def sb_side_def)

lemma set_facing: "set (facing buy A) = set (sb_side (\<not> buy) A)"
  by (simp add: facing_def sb_side_def)

lemma best_first_asks: "std_sorted ls \<Longrightarrow> best_first (bid_accepts ty pr) ls"
  by (induction ls) (force simp: bid_accepts_def)+

lemma best_first_bids: "std_sorted ls \<Longrightarrow> best_first (ask_accepts ty pr) (rev ls)"
  unfolding best_first_def sorted_wrt_rev
  by (induction ls) (force simp: ask_accepts_def)+

lemma best_first_facing: "book_wf A \<Longrightarrow> best_first (accepts buy ty pr) (facing buy A)"
  using best_first_asks [of "sb_asks A"] best_first_bids [of "sb_bids A"]
  by (auto simp: book_wf_def facing_def accepts_def [abs_def] sb_side_def split: if_splits)

lemma spec_match_sweep:
  assumes "spec_match buy pr sz ty t A = (m, A2)"
  obtains cl ev where "spec_sweep (accepts buy ty pr) sz t (facing buy A) = (facing buy A2, m, cl, ev)"
    "sb_free A2 = rev cl @ sb_free A" "sb_log A2 = sb_log A @ ev" "sb_symbol A2 = sb_symbol A"
    "sb_side buy A2 = sb_side buy A"
proof -
  obtain ls t' cl ev where sw: "spec_sweep (accepts buy ty pr) sz t (facing buy A) = (ls, t', cl, ev)"
    by (metis prod_cases4)
  have [simp]: "accepts True ty pr = bid_accepts ty pr" "accepts False ty pr = ask_accepts ty pr"
    by (simp_all add: accepts_def [abs_def])
  show thesis
    by (rule that [of cl ev]; use assms sw in \<open>cases buy\<close>)
       (auto simp: spec_match_def spec_match_bid_def spec_match_ask_def facing_def sb_side_def)
qed

lemma spec_match_trades:
  assumes "spec_match buy pr sz ty 0 A = (m, A2)" and "book_wf A"
  shows "unat m = min (unat sz) (depth (accepts buy ty pr) (facing buy A))"
    and "book_qty (\<not> buy) A = book_qty (\<not> buy) A2 + unat m"
    and "m < sz \<Longrightarrow> l \<in> set (sb_side (\<not> buy) A2) \<Longrightarrow> \<not> accepts buy ty pr (fst l)"
    and "fst ` set (sb_side (\<not> buy) A2) \<subseteq> fst ` set (sb_side (\<not> buy) A)"
proof -
  obtain cl ev where sw: "spec_sweep (accepts buy ty pr) sz 0 (facing buy A) = (facing buy A2, m, cl, ev)"
    using assms(1) by (rule spec_match_sweep)
  note bf = best_first_facing [OF assms(2), of buy ty pr]
  note tr = spec_sweep_trades [OF sw word_zero_le bf]
  show "unat m = min (unat sz) (depth (accepts buy ty pr) (facing buy A))"
    "book_qty (\<not> buy) A = book_qty (\<not> buy) A2 + unat m"
    using tr by (simp_all add: qty_flat_facing)
  show "m < sz \<Longrightarrow> l \<in> set (sb_side (\<not> buy) A2) \<Longrightarrow> \<not> accepts buy ty pr (fst l)"
    using tr by (simp add: set_facing)
  obtain n where "map fst (facing buy A2) = drop n (map fst (facing buy A))"
    using spec_sweep_limit [OF sw bf] by blast
  then have "set (map fst (facing buy A2)) \<subseteq> set (map fst (facing buy A))"
    by (metis set_drop_subset)
  then show "fst ` set (sb_side (\<not> buy) A2) \<subseteq> fst ` set (sb_side (\<not> buy) A)"
    by (simp add: set_facing)
qed

lemma spec_add_None: "sb_free A = [] \<Longrightarrow> spec_add oid cid sz pr buy ty A = (None, A)"
  by (simp add: spec_add_def)

lemma spec_add_cases:
  assumes "spec_add oid cid sz pr buy ty A = (r, A')" and "sb_free A = f # fs"
  obtains m A2 where
    "spec_match buy pr sz ty 0 (A\<lparr>sb_free := fs,
       sb_log := sb_log A @ [Incoming (mk_order oid cid (sb_symbol A) sz pr buy ty)]\<rparr>) = (m, A2)"
    "r = Some f"
    "A' = (if m < sz
       then set_sb_side buy
              (spec_rest pr (f, snd (decrease_size m (mk_order oid cid (sb_symbol A) sz pr buy ty))) (sb_side buy A2))
              (A2\<lparr>sb_log := sb_log A2 @ [Resting (snd (decrease_size m (mk_order oid cid (sb_symbol A) sz pr buy ty)))]\<rparr>)
       else A2\<lparr>sb_log := sb_log A2 @ [Fully_Matched (snd (decrease_size m (mk_order oid cid (sb_symbol A) sz pr buy ty)))]\<rparr>)"
  using assms
  by (auto simp: spec_add_def spec_match_def Let_def split: prod.splits if_splits)

subsection \<open>Resting and unlinking on one side\<close>

lemma keys_spec_rest: "fst ` set (spec_rest pr e ls) \<subseteq> insert pr (fst ` set ls)"
proof -
  have "fst ` set (std_assign pr es (std_subscript pr [] ls)) = insert pr (fst ` set ls)" for es :: "entry list"
    using std_keys_assign [of pr es "std_subscript pr [] ls"] keys_std_subscript [of pr "[]" ls]
    by (simp add: std_keys_def flip: set_map)
  then show ?thesis
    using keys_std_subscript [of pr "[]" ls] by (auto simp: spec_rest_def Let_def split: option.splits)
qed

lemma spec_rest_split:
  assumes "std_sorted ls"
  obtains (new) l1 l2 where "ls = l1 @ l2" "spec_rest pr e ls = l1 @ (pr, [e]) # l2"
    | (old) l1 l2 es where "ls = l1 @ (pr, es) # l2" "spec_rest pr e ls = l1 @ (pr, es @ [e]) # l2"
proof (cases "std_find ls pr")
  case None
  with assms obtain l1 l2 where ls: "ls = l1 @ l2" and b: "\<forall>x \<in> set l1. fst x < pr" "\<forall>x \<in> set l2. pr < fst x"
    by (rule std_find_split_absent)
  then have n: "pr \<notin> fst ` set l1" by auto
  have "std_subscript pr [] ls = l1 @ (pr, []) # l2" using ls b by (simp add: std_subscript_notin)
  then have "spec_rest pr e ls = l1 @ (pr, [e]) # l2"
    using n by (simp add: spec_rest_def std_find_def std_assign_append map_add_dom_app_simps dom_map_of_conv_image_fst
        map_of_append map_add_Some_iff split: option.splits)
  with ls show ?thesis by (rule new)
next
  case (Some es)
  with assms obtain l1 l2 where ls: "ls = l1 @ (pr, es) # l2" and b: "\<forall>x \<in> set l1. fst x < pr"
    by (rule std_find_split)
  then have n: "pr \<notin> fst ` set l1" by auto
  have "std_subscript pr [] ls = ls" using assms ls by (intro std_subscript_present) auto
  then have "spec_rest pr e ls = l1 @ (pr, es @ [e]) # l2"
    using n ls Some by (simp add: spec_rest_def std_assign_append)
  with ls show ?thesis by (rule old)
qed

lemma qty_spec_rest:
  "std_sorted ls \<Longrightarrow> qty (flat (spec_rest pr e ls)) = qty (flat ls) + unat (order_size (snd e))"
  by (rule spec_rest_split [of ls pr e]) auto

lemma spec_unlink_split:
  assumes "std_sorted ls" and "std_find ls pr = Some es"
  obtains l1 l2 where "ls = l1 @ (pr, es) # l2"
    "spec_unlink pr p ls = l1 @
       (if filter (\<lambda>e. fst e \<noteq> p) es = [] then [] else [(pr, filter (\<lambda>e. fst e \<noteq> p) es)]) @ l2"
proof -
  from assms obtain l1 l2 where ls: "ls = l1 @ (pr, es) # l2" and b: "\<forall>x \<in> set l1. fst x < pr"
    by (rule std_find_split)
  then have n: "pr \<notin> fst ` set l1" by auto
  have "spec_unlink pr p ls = l1 @
       (if filter (\<lambda>e. fst e \<noteq> p) es = [] then [] else [(pr, filter (\<lambda>e. fst e \<noteq> p) es)]) @ l2"
    unfolding spec_unlink_def assms(2) option.case Let_def unfolding ls
    using n by (simp add: std_assign_append std_erase_append)
  with ls show thesis by (rule that)
qed

lemma qty_filter:
  "distinct (map fst es) \<Longrightarrow> (p, ord) \<in> set es \<Longrightarrow>
     qty es = qty (filter (\<lambda>e. fst e \<noteq> p) es) + unat (order_size ord)"
proof (induction es)
  case (Cons e es)
  show ?case
  proof (cases "fst e = p")
    case True
    then have "p \<notin> fst ` set es" using Cons.prems(1) by auto
    then have "filter (\<lambda>e. fst e \<noteq> p) es = es" by (auto simp: filter_id_conv)
    moreover have "snd e = ord" using Cons.prems(2) \<open>p \<notin> fst ` set es\<close>
      by (metis fst_conv image_eqI set_ConsD snd_conv)
    ultimately show ?thesis using True by simp
  next
    case False
    then have "(p, ord) \<in> set es" using Cons.prems(2) by auto
    with Cons False show ?thesis by simp
  qed
qed simp

subsection \<open>Adding and cancelling\<close>

lemma sb_side_simps [simp]:
  "sb_side buy (set_sb_side buy ls A) = ls"
  "sb_side (\<not> buy) (set_sb_side buy ls A) = sb_side (\<not> buy) A"
  "sb_side buy (set_sb_side (\<not> buy) ls A) = sb_side buy A"
  "sb_side buy (A\<lparr>sb_free := fs\<rparr>) = sb_side buy A"
  "sb_side buy (A\<lparr>sb_log := lg\<rparr>) = sb_side buy A"
  "sb_free (set_sb_side buy ls A) = sb_free A"
  "sb_log (set_sb_side buy ls A) = sb_log A"
  "sb_symbol (set_sb_side buy ls A) = sb_symbol A"
  by (simp_all add: sb_side_def set_sb_side_def)

lemma facing_frame [simp]:
  "facing buy (A\<lparr>sb_free := fs\<rparr>) = facing buy A"
  "facing buy (A\<lparr>sb_log := lg\<rparr>) = facing buy A"
  by (simp_all add: facing_def)

lemma book_wf_frame [simp]:
  "book_wf (A\<lparr>sb_free := fs\<rparr>) = book_wf A" "book_wf (A\<lparr>sb_log := lg\<rparr>) = book_wf A"
  by (simp_all add: book_wf_def)

lemma book_qty_frame [simp]:
  "book_qty buy (A\<lparr>sb_free := fs\<rparr>) = book_qty buy A" "book_qty buy (A\<lparr>sb_log := lg\<rparr>) = book_qty buy A"
  by (simp_all add: book_qty_def)

lemma mk_order_simps [simp]:
  "order_size (mk_order oid cid sy sz pr buy ty) = sz" "price (mk_order oid cid sy sz pr buy ty) = pr"
  "is_buy_side (mk_order oid cid sy sz pr buy ty) = buy" "order_id (mk_order oid cid sy sz pr buy ty) = oid"
  "client_id (mk_order oid cid sy sz pr buy ty) = cid" "symbol (mk_order oid cid sy sz pr buy ty) = sy"
  "order_type (mk_order oid cid sy sz pr buy ty) = ty"
  by (simp_all add: mk_order_def)

text \<open>
  The effect of an accepted order on the quantities: what it trades leaves the other side, and
  what is left of it rests on its own side.
\<close>

lemma spec_add_quantities:
  assumes "book_wf A" and "sb_free A = f # fs" and "spec_add oid cid sz pr buy ty A = (r, A')"
  shows "book_qty (\<not> buy) A' + min (unat sz) (depth (accepts buy ty pr) (facing buy A)) = book_qty (\<not> buy) A"
    and "book_qty buy A' + min (unat sz) (depth (accepts buy ty pr) (facing buy A)) = book_qty buy A + unat sz"
proof -
  let ?ord = "mk_order oid cid (sb_symbol A) sz pr buy ty"
  let ?A1 = "A\<lparr>sb_free := fs, sb_log := sb_log A @ [Incoming ?ord]\<rparr>"
  let ?d = "min (unat sz) (depth (accepts buy ty pr) (facing buy A))"
  obtain m A2 where m: "spec_match buy pr sz ty 0 ?A1 = (m, A2)"
    and A': "A' = (if m < sz
       then set_sb_side buy (spec_rest pr (f, snd (decrease_size m ?ord)) (sb_side buy A2))
              (A2\<lparr>sb_log := sb_log A2 @ [Resting (snd (decrease_size m ?ord))]\<rparr>)
       else A2\<lparr>sb_log := sb_log A2 @ [Fully_Matched (snd (decrease_size m ?ord))]\<rparr>)"
    using assms(3,2) by (rule spec_add_cases) blast
  have wf: "book_wf ?A1" using assms(1) by simp
  note tr = spec_match_trades [OF m wf]
  have um: "unat m = ?d" using tr(1) by simp
  have own: "sb_side buy A2 = sb_side buy A"
    using m by (rule spec_match_sweep) simp
  have "book_qty (\<not> buy) A' = book_qty (\<not> buy) A2" by (auto simp: A' book_qty_def)
  with tr(2) um show "book_qty (\<not> buy) A' + ?d = book_qty (\<not> buy) A" by simp
  have left: "unat (order_size (snd (decrease_size m ?ord))) = unat sz - unat m"
    by (simp add: decrease_size_left)
  have le: "unat m \<le> unat sz" using um by simp
  have "std_sorted (sb_side buy A)" using assms(1) by (simp add: book_wf_def)
  then have "book_qty buy A' = book_qty buy A + (unat sz - unat m)"
    using le by (auto simp: A' book_qty_def own qty_spec_rest left word_less_nat_alt)
  with le show "book_qty buy A' + ?d = book_qty buy A + unat sz" by (simp add: um [symmetric])
qed

lemma uncrossed_iff:
  "uncrossed A \<longleftrightarrow> (\<forall>k \<in> fst ` set (sb_bids A). \<forall>j \<in> fst ` set (sb_asks A). k < j)"
  by (auto simp: uncrossed_def)

lemma uncrossedI:
  assumes "fst ` set (sb_bids A) \<subseteq> B" "fst ` set (sb_asks A) \<subseteq> C" "\<forall>k \<in> B. \<forall>j \<in> C. k < j"
  shows "uncrossed A"
  unfolding uncrossed_iff using assms by (meson subsetD)

lemma uncrossed_subset:
  assumes "uncrossed A" and "\<And>buy. fst ` set (sb_side buy A') \<subseteq> fst ` set (sb_side buy A)"
  shows "uncrossed A'"
proof -
  have "fst ` set (sb_bids A') \<subseteq> fst ` set (sb_bids A)" "fst ` set (sb_asks A') \<subseteq> fst ` set (sb_asks A)"
    using assms(2) [of True] assms(2) [of False] by (simp_all add: sb_side_def)
  with assms(1) show ?thesis unfolding uncrossed_iff by blast
qed

text \<open>The book stays uncrossed, market orders included: one that rests has emptied the other side.\<close>

lemma spec_add_uncrossed:
  assumes "book_wf A" and "uncrossed A" and "spec_add oid cid sz pr buy ty A = (r, A')"
  shows "uncrossed A'"
proof (cases "sb_free A")
  case Nil
  with assms(3) have "A' = A" by (simp add: spec_add_None)
  with assms(2) show ?thesis by simp
next
  case (Cons f fs)
  let ?ord = "mk_order oid cid (sb_symbol A) sz pr buy ty"
  let ?A1 = "A\<lparr>sb_free := fs, sb_log := sb_log A @ [Incoming ?ord]\<rparr>"
  obtain m A2 where m: "spec_match buy pr sz ty 0 ?A1 = (m, A2)"
    and A': "A' = (if m < sz
       then set_sb_side buy (spec_rest pr (f, snd (decrease_size m ?ord)) (sb_side buy A2))
              (A2\<lparr>sb_log := sb_log A2 @ [Resting (snd (decrease_size m ?ord))]\<rparr>)
       else A2\<lparr>sb_log := sb_log A2 @ [Fully_Matched (snd (decrease_size m ?ord))]\<rparr>)"
    using assms(3) Cons by (rule spec_add_cases) blast
  have wf: "book_wf ?A1" using assms(1) by simp
  note tr = spec_match_trades [OF m wf]
  have own: "sb_side buy A2 = sb_side buy A"
    using m by (rule spec_match_sweep) simp
  have sub: "fst ` set (sb_side s A2) \<subseteq> fst ` set (sb_side s A)" for s
    using tr(4) own by (cases "s = buy") auto
  have un2: "uncrossed A2" by (rule uncrossed_subset [OF assms(2) sub])
  show ?thesis
  proof (cases "m < sz")
    case False
    with un2 A' show ?thesis by (simp add: uncrossed_iff)
  next
    case True
    have far: "(buy \<longrightarrow> pr < k) \<and> (\<not> buy \<longrightarrow> k < pr)" if "k \<in> fst ` set (sb_side (\<not> buy) A2)" for k
      using tr(3) [OF True] that by (cases ty; cases buy) (fastforce simp: accepts_def bid_accepts_def ask_accepts_def)+
    have rest: "fst ` set (sb_side buy A') \<subseteq> insert pr (fst ` set (sb_side buy A2))"
      "sb_side (\<not> buy) A' = sb_side (\<not> buy) A2"
      using True A' keys_spec_rest by simp_all
    show ?thesis
    proof (cases buy)
      case True
      with rest have bids: "fst ` set (sb_bids A') \<subseteq> insert pr (fst ` set (sb_bids A2))"
        and asks: "fst ` set (sb_asks A') \<subseteq> fst ` set (sb_asks A2)"
        by (simp_all add: sb_side_def)
      moreover have "\<forall>k \<in> fst ` set (sb_asks A2). pr < k"
        using far True by (simp add: sb_side_def)
      ultimately show ?thesis using un2 [unfolded uncrossed_iff]
        by (intro uncrossedI [OF bids asks]) simp
    next
      case False
      with rest have asks: "fst ` set (sb_asks A') \<subseteq> insert pr (fst ` set (sb_asks A2))"
        and bids: "fst ` set (sb_bids A') \<subseteq> fst ` set (sb_bids A2)"
        by (simp_all add: sb_side_def)
      moreover have "\<forall>k \<in> fst ` set (sb_bids A2). k < pr"
        using far False by (simp add: sb_side_def)
      ultimately show ?thesis using un2 [unfolded uncrossed_iff]
        by (intro uncrossedI [OF bids asks]) simp
    qed
  qed
qed

lemma spec_cancel_quantities:
  assumes "std_sorted (sb_side (is_buy_side ord) A)" "std_find (sb_side (is_buy_side ord) A) (price ord) = Some es"
    "distinct (map fst es)" "(p, ord) \<in> set es"
  shows "book_qty (is_buy_side ord) (spec_cancel p ord A) + unat (order_size ord) = book_qty (is_buy_side ord) A"
    and "book_qty (\<not> is_buy_side ord) (spec_cancel p ord A) = book_qty (\<not> is_buy_side ord) A"
proof -
  have "qty (flat (spec_unlink (price ord) p (sb_side (is_buy_side ord) A))) + unat (order_size ord) =
      qty (flat (sb_side (is_buy_side ord) A))"
    using assms(1,2)
    by (rule spec_unlink_split [where p = p]) (use qty_filter [OF assms(3,4)] in \<open>auto split: if_splits\<close>)
  then show "book_qty (is_buy_side ord) (spec_cancel p ord A) + unat (order_size ord) = book_qty (is_buy_side ord) A"
    by (simp add: book_qty_def spec_cancel_def)
qed (simp add: book_qty_def spec_cancel_def)

lemma spec_cancel_uncrossed:
  assumes "std_sorted (sb_side (is_buy_side ord) A)" "std_find (sb_side (is_buy_side ord) A) (price ord) = Some es"
    "uncrossed A"
  shows "uncrossed (spec_cancel p ord A)"
proof -
  have own: "fst ` set (spec_unlink (price ord) p (sb_side (is_buy_side ord) A)) \<subseteq> fst ` set (sb_side (is_buy_side ord) A)"
    using assms(1,2) by (rule spec_unlink_split [where p = p]) auto
  have "fst ` set (sb_side buy (spec_cancel p ord A)) \<subseteq> fst ` set (sb_side buy A)" for buy
    using own by (cases "buy = is_buy_side ord") (auto simp: spec_cancel_def)
  with assms(3) show ?thesis by (rule uncrossed_subset)
qed

section \<open>The log of the trades\<close>

fun event_traded :: "event \<Rightarrow> nat" where
  "event_traded (Matched m ord) = unat m"
| "event_traded _ = 0"

definition traded :: "event list \<Rightarrow> nat" where
  "traded ev = sum_list (map event_traded ev)"

lemma traded_simps [simp]:
  "traded [] = 0" "traded (e # ev) = event_traded e + traded ev" "traded (ev @ ev') = traded ev + traded ev'"
  by (simp_all add: traded_def)

lemma spec_level_traded:
  "spec_level sz t es = (es', t', cl, ev) \<Longrightarrow> t \<le> sz \<Longrightarrow> unat t' = unat t + traded ev"
proof (induction sz t es arbitrary: es' t' cl ev rule: spec_level.induct)
  case (2 sz t p ord es)
  obtain m ord' where d: "decrease_size (sz - t) ord = (m, ord')" by fastforce
  have add: "unat (t + m) = unat t + unat m" "t + m \<le> sz"
    using unat_add_upto [OF "2.prems"(2), of m] decrease_size_exact(1) [OF d] by simp_all
  consider "\<not> t < sz" | "t < sz" "order_size ord' = 0" | "t < sz" "order_size ord' \<noteq> 0" by blast
  then show ?case
  proof cases
    case 1
    with "2.prems" show ?thesis by auto
  next
    case 2
    obtain es1 t1 cl1 ev1 where sl: "spec_level sz (t + m) es = (es1, t1, cl1, ev1)" by (metis prod_cases4)
    from "2.IH" [OF 2(1) d [symmetric] 2(2) sl add(2)] have "unat t1 = unat t + (unat m + traded ev1)"
      unfolding add(1) by (simp only: add.assoc)
    moreover have "t' = t1" "ev = Matched m ord' # Closing ord' # ev1" using "2.prems"(1) 2 d sl by auto
    ultimately show ?thesis by simp
  next
    case 3
    then have "t' = t + m" "ev = [Matched m ord']" using "2.prems"(1) d by auto
    then show ?thesis using add(1) by simp
  qed
qed simp

lemma spec_sweep_traded:
  "spec_sweep ok sz t ls = (ls', t', cl, ev) \<Longrightarrow> t \<le> sz \<Longrightarrow> unat t' = unat t + traded ev"
proof (induction ok sz t ls arbitrary: ls' t' cl ev rule: spec_sweep.induct)
  case (2 ok sz t k es ls)
  obtain es1 t1 cl1 ev1 where sl: "spec_level sz t es = (es1, t1, cl1, ev1)" by (metis prod_cases4)
  obtain ls2 t2 cl2 ev2 where sw: "spec_sweep ok sz t1 ls = (ls2, t2, cl2, ev2)" by (metis prod_cases4)
  note L = spec_level_traded [OF sl "2.prems"(2)]
  have t1: "t1 \<le> sz" using spec_level_trades [OF sl "2.prems"(2)] by (metis min.cobounded1 word_le_nat_alt)
  consider "\<not> (t < sz \<and> ok k)" | "t < sz \<and> ok k" "es1 \<noteq> []" | "t < sz \<and> ok k" "es1 = []" by blast
  then show ?case
  proof cases
    case 1
    with "2.prems"(1) show ?thesis by auto
  next
    case 2
    then have "t' = t1" "ev = ev1" using "2.prems"(1) sl by auto
    with L show ?thesis by simp
  next
    case 3
    then have eq: "t' = t2" "ev = ev1 @ ev2" using "2.prems"(1) sl sw by auto
    have "unat t2 = unat t1 + traded ev2"
      by (rule "2.IH" [OF 3(1) sl [symmetric] refl refl 3(2) sw t1])
    with L eq show ?thesis by simp
  qed
qed simp

end
