(* ===== verification/Book_View.thy ===== *)
theory Book_View
  imports Book_Refine Book_Priority
begin

text \<open>
  The abstract book read off the pointers: \<open>view\<close> walks the queues and the free list, and
  \<open>book_inv\<close> says that the pointers are in order. The facts about the abstract book carry over
  to every state of the code through this view: each operation preserves \<open>book_inv\<close>, never
  faults, and acts on the view as the abstract operation does.
\<close>

section \<open>The view\<close>

definition order_at :: "order_book \<Rightarrow> nat \<Rightarrow> order" where
  "order_at b i = core (object (store (order_pool b) ! i))"

definition view_level :: "order_book \<Rightarrow> queue \<Rightarrow> entry list" where
  "view_level b q =
     map (\<lambda>i. (i, order_at b i)) (q_walk order_nodes (store (order_pool b)) (unat (q_size q)) (q_head q))"

definition view :: "order_book \<Rightarrow> spec_book" where
  "view b =
     \<lparr>sb_symbol = book_symbol b,
      sb_free = free_slots order_overlay (order_pool b),
      sb_bids = map (\<lambda>(k, q). (k, view_level b q)) (bid_levels b),
      sb_asks = map (\<lambda>(k, q). (k, view_level b q)) (ask_levels b),
      sb_log = book_log b\<rparr>"

definition book_inv :: "order_book \<Rightarrow> bool" where
  "book_inv b \<longleftrightarrow> book_repr b (view b)"

lemma level_repr_view:
  assumes "level_repr (store (order_pool b)) q es"
  shows "view_level b q = es"
proof -
  have q: "q_repr order_nodes (store (order_pool b)) q (map fst es)" and e: "entries_ok (store (order_pool b)) es"
    using assms by (simp_all add: level_repr_def)
  have "unat (q_size q) = length es" using q by (simp add: q_repr_def unat_word_of_nat)
  then have "q_walk order_nodes (store (order_pool b)) (unat (q_size q)) (q_head q) = map fst es"
    using q by (intro q_repr_walk) simp_all
  moreover have "(fst e, order_at b (fst e)) = e" if "e \<in> set es" for e
    using e that by (auto simp: entries_ok_def order_at_def)
  ultimately show ?thesis by (simp add: view_level_def o_def map_idI)
qed

lemma lv_rel_view:
  "lv_rel (lev (store (order_pool b)) buy) lv als \<Longrightarrow> map (\<lambda>(k, q). (k, view_level b q)) lv = als"
  by (induction rule: lv_rel_induct) (auto simp: lev_def level_repr_view)

lemma book_repr_view: "book_repr b A \<Longrightarrow> view b = A"
  unfolding book_repr_def side_repr_def
  by (elim conjE, drule lv_rel_view, drule lv_rel_view, rule spec_book.equality)
     (simp_all add: view_def pool_repr_free_slots)

lemma book_repr_inv: "book_repr b A \<Longrightarrow> book_inv b"
  by (simp add: book_inv_def book_repr_view)

lemma book_invD: "book_inv b \<Longrightarrow> book_repr b (view b)"
  by (simp add: book_inv_def)

lemmas book_repr_both = book_repr_view book_repr_inv

lemma view_simps [simp]:
  "sb_symbol (view b) = book_symbol b" "sb_log (view b) = book_log b"
  "sb_free (view b) = free_slots order_overlay (order_pool b)"
  by (simp_all add: view_def)

section \<open>What the invariant gives\<close>

lemma book_repr_lev:
  assumes "book_repr b A" and "(k, es) \<in> set (sb_side buy A)"
  obtains q where "lev (store (order_pool b)) buy k q es"
proof -
  have "lv_rel (lev (store (order_pool b)) buy) (side_levels buy b) (sb_side buy A)"
    using book_repr_side [OF assms(1)] by (simp add: side_repr_def)
  from lv_rel_in [OF this assms(2)] show thesis using that by blast
qed

lemma book_repr_wf:
  assumes "book_repr b A" shows "book_wf A"
  unfolding book_wf_def
proof (rule allI)
  fix buy
  have s: "side_repr (store (order_pool b)) buy (side_levels buy b) (sb_side buy A)"
    using assms by (rule book_repr_side)
  have "\<forall>(p, ord) \<in> set es. price ord = k \<and> is_buy_side ord = buy \<and> order_size ord \<noteq> 0"
    if "(k, es) \<in> set (sb_side buy A)" for k es
    by (rule book_repr_lev [OF assms that]) (simp add: lev_def)
  moreover have "std_sorted (sb_side buy A)" "\<forall>(k, es) \<in> set (sb_side buy A). es \<noteq> []"
    using s by (simp_all add: side_repr_def)
  ultimately show "std_sorted (sb_side buy A) \<and> (\<forall>(k, es) \<in> set (sb_side buy A). es \<noteq> [] \<and>
      (\<forall>(p, ord) \<in> set es. price ord = k \<and> is_buy_side ord = buy \<and> order_size ord \<noteq> 0))"
    by fastforce
qed

lemma book_repr_level_distinct:
  assumes "book_repr b A" and "std_find (sb_side buy A) k = Some es"
  shows "distinct (map fst es)"
  by (rule book_repr_lev [OF assms(1) std_find_Some_in [OF assms(2)]]) (simp add: lev_def level_repr_def q_repr_def)

lemma book_repr_entry:
  assumes "book_repr b A" and "std_find (sb_side buy A) k = Some es" and "(p, ord) \<in> set es"
  shows "order_at b p = ord" "is_buy_side ord = buy" "price ord = k"
    "p < pool_cap (order_pool b)" "p \<notin> set (sb_free A)"
proof -
  obtain q where l: "lev (store (order_pool b)) buy k q es"
    using book_repr_lev [OF assms(1) std_find_Some_in [OF assms(2)]] by blast
  then show "is_buy_side ord = buy" "price ord = k" using assms(3) by (auto simp: lev_def)
  from l assms(3) have e: "p < length (store (order_pool b))" "\<not> is_free_or_in_use (store (order_pool b) ! p)"
    "core (object (store (order_pool b) ! p)) = ord"
    by (auto simp: lev_def level_repr_def dest: entries_okD)
  then show "order_at b p = ord" "p < pool_cap (order_pool b)" by (simp_all add: order_at_def pool_cap_def)
  from e assms(1) show "p \<notin> set (sb_free A)" by (auto simp: book_repr_def pool_repr_def)
qed

text \<open>The level where an order would rest, and whether it does.\<close>

definition own_level :: "order_book \<Rightarrow> nat \<Rightarrow> entry list option" where
  "own_level b p = std_find (sb_side (is_buy_side (order_at b p)) (view b)) (price (order_at b p))"

definition linked :: "order_book \<Rightarrow> nat \<Rightarrow> bool" where
  "linked b p \<longleftrightarrow> (case own_level b p of None \<Rightarrow> False | Some es \<Rightarrow> p \<in> fst ` set es)"

definition in_use :: "order_book \<Rightarrow> nat \<Rightarrow> bool" where
  "in_use b p \<longleftrightarrow> p < pool_cap (order_pool b) \<and> p \<notin> set (free_slots order_overlay (order_pool b))"

lemma linked_iff:
  assumes "book_inv b" shows "linked b p \<longleftrightarrow> p \<in> book_slots (view b)"
proof
  assume "linked b p"
  then obtain es where es: "own_level b p = Some es" "p \<in> fst ` set es"
    by (auto simp: linked_def split: option.splits)
  then have "p \<in> side_slots (sb_side (is_buy_side (order_at b p)) (view b))"
    using subsetD [OF side_slots_in [OF std_find_Some_in]] by (simp add: own_level_def)
  then show "p \<in> book_slots (view b)" by (auto simp: book_slots_def sb_side_def split: if_splits)
next
  assume "p \<in> book_slots (view b)"
  then obtain buy where "p \<in> side_slots (sb_side buy (view b))"
    by (auto simp: book_slots_def sb_side_def intro: that [of True] that [of False])
  then obtain k es ord where es: "(k, es) \<in> set (sb_side buy (view b))" "(p, ord) \<in> set es"
    by (auto simp: side_slots_def)
  then have f: "std_find (sb_side buy (view b)) k = Some es"
    using book_repr_wf [OF book_invD [OF assms]] by (simp add: book_wf_def std_find_iff)
  note e = book_repr_entry [OF book_invD [OF assms] f es(2)]
  have "own_level b p = Some es" using e f by (simp add: own_level_def)
  with es(2) show "linked b p" by (force simp: linked_def)
qed

lemma linked_entry:
  assumes "linked b p"
  obtains es where "std_find (sb_side (is_buy_side (order_at b p)) (view b)) (price (order_at b p)) = Some es"
    "p \<in> fst ` set es"
  using assms by (auto simp: linked_def own_level_def split: option.splits)

lemma linked_level:
  assumes "book_inv b" and "linked b p"
  obtains es where "std_find (sb_side (is_buy_side (order_at b p)) (view b)) (price (order_at b p)) = Some es"
    "(p, order_at b p) \<in> set es"
proof -
  obtain es where es: "std_find (sb_side (is_buy_side (order_at b p)) (view b)) (price (order_at b p)) = Some es"
    "p \<in> fst ` set es" using assms(2) by (rule linked_entry)
  then obtain ord where ord: "(p, ord) \<in> set es" by auto
  with book_repr_entry(1) [OF book_invD [OF assms(1)] es(1)] have "order_at b p = ord" by blast
  with es(1) ord show thesis by (intro that) simp_all
qed

section \<open>The operations, on the view\<close>

lemma order_book_new_view:
  assumes "n > 0"
  obtains b where "order_book_new sy n = Inr b" "book_inv b" "view b = spec_new sy (unat n)"
  using order_book_new_repr [OF assms, of sy] book_repr_both by metis

lemma match_order_view:
  assumes "book_inv b" and "spec_match buy pr sz ty t (view b) = (m, A')"
  obtains b' where
    "(if buy then match_bid_order pr sz ty t b else match_ask_order pr sz ty t b) = Inr (m, b')"
    "book_inv b'" "view b' = A'"
  using match_order_repr [OF book_invD [OF assms(1)] assms(2) [unfolded spec_match_def]] book_repr_both
  by metis

lemma add_order_view:
  assumes "book_inv b" and "spec_add oid cid sz pr buy ty (view b) = (r, A')"
  obtains b' where "add_order oid cid sz pr buy ty b = Inr (r, b')" "book_inv b'" "view b' = A'"
  using add_order_repr [OF book_invD [OF assms(1)] assms(2)] book_repr_both by metis

lemma cancel_linked_view:
  assumes "book_inv b" and "linked b p"
  obtains b' where "cancel_order (Some p) b = Inr b'" "book_inv b'" "view b' = spec_cancel p (order_at b p) (view b)"
proof -
  obtain es where es: "std_find (sb_side (is_buy_side (order_at b p)) (view b)) (price (order_at b p)) = Some es"
    "(p, order_at b p) \<in> set es"
    using assms by (rule linked_level)
  from cancel_order_repr [OF book_invD [OF assms(1)] es] book_repr_both that show thesis by metis
qed

lemma cancel_unlinked_view:
  assumes "book_inv b" and "in_use b p" and "own_level b p = None"
  obtains b' where "cancel_order (Some p) b = Inr b'" "book_inv b'"
    "view b' = (view b)\<lparr>sb_free := p # sb_free (view b), sb_log := sb_log (view b) @ [Cancelled (order_at b p)]\<rparr>"
proof -
  have "\<not> linked b p" using assms(3) by (simp add: linked_def)
  then have slots: "p \<notin> book_slots (view b)" using assms(1) by (simp add: linked_iff)
  have p: "p < length (store (order_pool b))" "p \<notin> set (sb_free (view b))"
    using assms(2) by (simp_all add: in_use_def pool_cap_def)
  note n = assms(3) [unfolded own_level_def]
  show thesis
    by (rule cancel_unlinked_repr [OF book_invD [OF assms(1)] p slots order_at_def [symmetric] n])
       (use book_repr_both that in metis)
qed

section \<open>The size of the pool never changes\<close>

lemma save_length: "save order_nodes h p n = Inr h' \<Longrightarrow> length h' = length h"
  by (auto simp: save_def order_nodes_def split: option.splits if_splits)

lemma q_append_length: "q_append order_nodes x (h, q) = Inr (h', q') \<Longrightarrow> length h' = length h"
  by (auto simp: q_append_def rbind_eq_Inr dest!: save_length split: if_splits)

lemma q_remove_length: "q_remove order_nodes x (h, q) = Inr (h', q') \<Longrightarrow> length h' = length h"
  by (auto simp: q_remove_def q_unlink_prev_def q_unlink_next_def rbind_eq_Inr dest!: save_length split: if_splits)

lemma deallocate_length: "deallocate ov p pool = Inr pool' \<Longrightarrow> pool_cap pool' = pool_cap pool"
  by (auto simp: deallocate_def pool_cap_def split: option.splits if_splits)

lemma write_order_length [simp]: "pool_cap (write_order pool p ord) = pool_cap pool"
  by (simp add: write_order_def pool_cap_def split: option.splits)

lemma match_step_cap:
  assumes "match_step sz s = Inr s'"
  shows "pool_cap (ms_pool s') = pool_cap (ms_pool s)"
proof -
  obtain ord where ord: "read_order (ms_pool s) (q_peek (ms_level s)) = Inr ord"
    using assms by (auto simp: match_step_def rbind_eq_Inr Let_def)
  obtain m ord' where d: "decrease_size (sz - ms_total s) ord = (m, ord')" by fastforce
  have w: "length (store (write_order (ms_pool s) (q_peek (ms_level s)) ord')) = length (store (ms_pool s))"
    using write_order_length by (simp add: pool_cap_def)
  show ?thesis
    using assms ord d w
    by (auto simp: match_step_def Let_def rbind_eq_Inr pool_cap_def split: if_splits
        dest!: q_remove_length deallocate_length)
qed

lemma match_at_level_cap: "match_at_level sz s = Inr s' \<Longrightarrow> pool_cap (ms_pool s') = pool_cap (ms_pool s)"
proof (induction sz s rule: match_at_level.induct)
  case (1 sz s)
  then show ?case
    by (auto simp: match_at_level.simps [of sz s] dest: match_step_cap split: if_splits sum.splits)
qed

lemma match_bid_order_cap:
  "match_bid_order pr sz ty t b = Inr (m, b') \<Longrightarrow> pool_cap (order_pool b') = pool_cap (order_pool b)"
proof (induction pr sz ty t b rule: match_bid_order.induct)
  case (1 pr sz ty t b)
  then show ?case
    by (auto simp: match_bid_order.simps [of pr sz ty t b] Let_def
        dest!: match_at_level_cap split: if_splits sum.splits option.splits)
qed

lemma match_ask_order_cap:
  "match_ask_order pr sz ty t b = Inr (m, b') \<Longrightarrow> pool_cap (order_pool b') = pool_cap (order_pool b)"
proof (induction pr sz ty t b rule: match_ask_order.induct)
  case (1 pr sz ty t b)
  then show ?case
    by (auto simp: match_ask_order.simps [of pr sz ty t b] Let_def
        dest!: match_at_level_cap split: if_splits sum.splits option.splits)
qed

lemma set_side_levels_pool [simp]: "order_pool (set_side_levels buy m b) = order_pool b"
  by (simp add: set_side_levels_def)

lemma append_to_level_cap:
  "append_to_level buy pr p b = Inr b' \<Longrightarrow> pool_cap (order_pool b') = pool_cap (order_pool b)"
  by (auto simp: append_to_level_def Let_def rbind_eq_Inr pool_cap_def dest!: q_append_length split: option.splits)

lemma remove_from_level_cap:
  "remove_from_level buy pr p b = Inr b' \<Longrightarrow> pool_cap (order_pool b') = pool_cap (order_pool b)"
  by (auto simp: remove_from_level_def Let_def rbind_eq_Inr pool_cap_def dest!: q_remove_length split: option.splits)

lemma add_order_cap:
  "add_order oid cid sz pr buy ty b = Inr (r, b') \<Longrightarrow> pool_cap (order_pool b') = pool_cap (order_pool b)"
  by (auto simp: add_order_def Let_def rbind_eq_Inr split: prod.splits option.splits if_splits
      dest!: match_bid_order_cap match_ask_order_cap append_to_level_cap)
     (auto simp: allocate_def pool_cap_def Let_def split: if_splits)

lemma cancel_order_cap:
  "cancel_order p b = Inr b' \<Longrightarrow> pool_cap (order_pool b') = pool_cap (order_pool b)"
  by (auto simp: cancel_order_def Let_def rbind_eq_Inr dest!: remove_from_level_cap deallocate_length split: if_splits)

end
