(* ===== verification/Book_Reach.thy ===== *)
theory Book_Reach
  imports Book_View
begin

text \<open>
  Where every slot of the pool is: on the free list, on a level, or stranded (in use but on no
  level); what each operation does to these three sets; and the states that a client reaches
  with the public methods of \<open>OrderBook\<close>, with the invariants of all of them.
\<close>

section \<open>Slots of the abstract operations\<close>

lemma side_slots_spec_rest:
  "std_sorted ls \<Longrightarrow> side_slots (spec_rest pr e ls) = insert (fst e) (side_slots ls)"
  by (rule spec_rest_split [of ls pr e]) auto

lemma side_slots_spec_unlink:
  assumes "std_sorted ls" "std_find ls pr = Some es"
  shows "side_slots ls - {p} \<subseteq> side_slots (spec_unlink pr p ls)" "side_slots (spec_unlink pr p ls) \<subseteq> side_slots ls"
proof -
  let ?es = "filter (\<lambda>e. fst e \<noteq> p) es"
  obtain l1 l2 where ls: "ls = l1 @ (pr, es) # l2"
    and un: "spec_unlink pr p ls = l1 @ (if ?es = [] then [] else [(pr, ?es)]) @ l2"
    using assms by (rule spec_unlink_split)
  have un': "side_slots (spec_unlink pr p ls) = side_slots l1 \<union> fst ` set ?es \<union> side_slots l2"
    unfolding un by (cases "?es = []") (simp_all only: side_slots_simps if_True if_False refl append_Nil list.set image_empty, auto)
  have l: "side_slots ls = side_slots l1 \<union> fst ` set es \<union> side_slots l2"
    unfolding ls by auto
  have es: "fst ` set ?es = fst ` set es - {p}" by auto
  show "side_slots ls - {p} \<subseteq> side_slots (spec_unlink pr p ls)" "side_slots (spec_unlink pr p ls) \<subseteq> side_slots ls"
    using un' es l by auto
qed

lemma spec_match_slots:
  assumes "spec_match buy pr sz ty t A = (m, A2)"
  obtains cl where "sb_free A2 = rev cl @ sb_free A" "book_slots A = set cl \<union> book_slots A2"
proof -
  obtain cl ev where sw: "spec_sweep (accepts buy ty pr) sz t (facing buy A) = (facing buy A2, m, cl, ev)"
    and fr: "sb_free A2 = rev cl @ sb_free A" and own: "sb_side buy A2 = sb_side buy A"
    using assms by (rule spec_match_sweep)
  have "side_slots (facing buy A) = set cl \<union> side_slots (facing buy A2)"
    using sw by (rule spec_sweep_slots)
  then have "book_slots A = set cl \<union> book_slots A2"
    using own by (cases buy) (auto simp: book_slots_def facing_def sb_side_def)
  with fr show thesis by (rule that)
qed

section \<open>Stranded slots\<close>

definition stranded :: "order_book \<Rightarrow> nat set" where
  "stranded b = {..<pool_cap (order_pool b)} - set (sb_free (view b)) - book_slots (view b)"

lemma book_slots_frame [simp]:
  "book_slots (A\<lparr>sb_free := fs\<rparr>) = book_slots A" "book_slots (A\<lparr>sb_log := lg\<rparr>) = book_slots A"
  by (simp_all add: book_slots_def)

lemma book_slots_set_side [simp]:
  "book_slots (set_sb_side buy ls A) = side_slots ls \<union> side_slots (sb_side (\<not> buy) A)"
  by (auto simp: book_slots_def set_sb_side_def sb_side_def)

lemma book_slots_sides: "book_slots A = side_slots (sb_side buy A) \<union> side_slots (sb_side (\<not> buy) A)"
  by (auto simp: book_slots_def sb_side_def)

lemma free_not_linked:
  assumes "book_inv b" and "i \<in> set (sb_free (view b))"
  shows "i \<notin> book_slots (view b)" "i < pool_cap (order_pool b)"
  using book_repr_unlinked [OF book_invD [OF assms(1)] assms(2)] by (simp_all add: book_slots_def pool_cap_def)

lemma free_distinct_view: "book_inv b \<Longrightarrow> distinct (sb_free (view b))"
  using book_invD by (auto simp: book_repr_def pool_repr_def)

text \<open>An order that is filled on arrival is stranded; no other slot is.\<close>

lemma add_order_stranded:
  assumes b: "book_inv b" and a: "add_order oid cid sz pr buy ty b = Inr (Some f, b')"
  shows "if linked b' f then stranded b' = stranded b \<and> f \<notin> stranded b
         else stranded b' = insert f (stranded b) \<and> f \<notin> stranded b"
proof -
  let ?A = "view b" and ?ord = "mk_order oid cid (sb_symbol (view b)) sz pr buy ty"
  obtain r A' where sp: "spec_add oid cid sz pr buy ty ?A = (r, A')" by fastforce
  obtain b1 where "add_order oid cid sz pr buy ty b = Inr (r, b1)" "book_inv b1" "view b1 = A'"
    using b sp by (rule add_order_view)
  with a have r: "r = Some f" and b': "book_inv b'" "view b' = A'" by auto
  have "sb_free ?A \<noteq> []" using sp r by (auto simp: spec_add_None simp del: view_simps)
  then obtain f0 fs where fr: "sb_free ?A = f0 # fs" by (meson list.exhaust)
  let ?A1 = "?A\<lparr>sb_free := fs, sb_log := sb_log ?A @ [Incoming ?ord]\<rparr>"
  obtain m A2 where m: "spec_match buy pr sz ty 0 ?A1 = (m, A2)" and f0: "f0 = f"
    and A': "A' = (if m < sz
       then set_sb_side buy (spec_rest pr (f, snd (decrease_size m ?ord)) (sb_side buy A2))
              (A2\<lparr>sb_log := sb_log A2 @ [Resting (snd (decrease_size m ?ord))]\<rparr>)
       else A2\<lparr>sb_log := sb_log A2 @ [Fully_Matched (snd (decrease_size m ?ord))]\<rparr>)"
    using sp fr r by (elim spec_add_cases) auto
  obtain cl where cl: "sb_free A2 = rev cl @ fs" "book_slots ?A = set cl \<union> book_slots A2"
    using m by (rule spec_match_slots) simp
  have own: "sb_side buy A2 = sb_side buy ?A" using m by (rule spec_match_sweep) simp
  have f: "f \<notin> book_slots ?A" "f < pool_cap (order_pool b)"
    using free_not_linked [OF b, of f] fr f0 by simp_all
  have cap: "pool_cap (order_pool b') = pool_cap (order_pool b)" using a by (rule add_order_cap)
  have fs: "f \<notin> set fs" using free_distinct_view [OF b] fr f0 by simp
  have st: "f \<notin> stranded b" using fr f0 by (simp add: stranded_def)
  have free': "sb_free A' = rev cl @ fs" using A' cl(1) by simp
  show ?thesis
  proof (cases "m < sz")
    case True
    have "std_sorted (sb_side buy ?A)" using book_repr_wf [OF book_invD [OF b]] by (simp add: book_wf_def)
    with True A' own have slots': "book_slots A' = insert f (book_slots A2)"
      by (simp add: side_slots_spec_rest book_slots_sides [of A2 buy])
    then have "linked b' f" using linked_iff [OF b'(1)] b'(2) by simp
    moreover have "stranded b' = stranded b"
      using cl fr f0 free' slots' b'(2) cap by (auto simp: stranded_def simp del: view_simps)
    ultimately show ?thesis using st by simp
  next
    case False
    then have slots': "book_slots A' = book_slots A2" using A' by simp
    then have "\<not> linked b' f" using linked_iff [OF b'(1)] b'(2) cl(2) f(1) by auto
    moreover have "stranded b' = insert f (stranded b)"
    proof -
      have "f \<notin> set (rev cl @ fs)" using cl(2) f(1) fs by auto
      then show ?thesis
        using cl fr f0 f free' slots' b'(2) cap by (auto simp: stranded_def simp del: view_simps)
    qed
    ultimately show ?thesis using st by simp
  qed
qed

lemma add_order_None:
  assumes b: "book_inv b"
  shows "sb_free (view b) = [] \<Longrightarrow> add_order oid cid sz pr buy ty b = Inr (None, b)"
    and "add_order oid cid sz pr buy ty b = Inr (None, b') \<Longrightarrow> sb_free (view b) = [] \<and> b' = b"
proof -
  have full: "add_order oid cid sz pr buy ty b = Inr (None, b)" if "sb_free (view b) = []"
  proof -
    have "pool_repr order_overlay (order_pool b) []"
      using book_invD [OF b] that by (simp add: book_repr_def)
    then show ?thesis by (simp add: add_order_def allocate_full)
  qed
  then show "sb_free (view b) = [] \<Longrightarrow> add_order oid cid sz pr buy ty b = Inr (None, b)" .
  assume a: "add_order oid cid sz pr buy ty b = Inr (None, b')"
  show "sb_free (view b) = [] \<and> b' = b"
  proof (cases "sb_free (view b)")
    case Nil
    with full a show ?thesis by simp
  next
    case (Cons f fs)
    obtain r A' where sp: "spec_add oid cid sz pr buy ty (view b) = (r, A')" by fastforce
    then have "r = Some f" using Cons by (rule spec_add_cases)
    moreover have "r = None" using b sp by (rule add_order_view) (use a in simp)
    ultimately show ?thesis by simp
  qed
qed

text \<open>A cancelled order leaves its level or the stranded slots, and its slot is free again.\<close>

lemma cancel_linked_slots:
  assumes b: "book_inv b" and l: "linked b p" and c: "cancel_order (Some p) b = Inr b'"
  shows "sb_free (view b') = p # sb_free (view b)" "stranded b' = stranded b" "\<not> linked b' p"
    "book_slots (view b') = book_slots (view b) - {p}" "book_inv b'"
proof -
  let ?A = "view b" and ?ord = "order_at b p"
  have v: "book_inv b'" "view b' = spec_cancel p ?ord ?A"
    using b l by (rule cancel_linked_view, use c in simp)+
  obtain es where es: "std_find (sb_side (is_buy_side ?ord) ?A) (price ?ord) = Some es" "(p, ?ord) \<in> set es"
    using b l by (rule linked_level)
  have sorted: "std_sorted (sb_side (is_buy_side ?ord) ?A)"
    using book_repr_wf [OF book_invD [OF b]] by (simp add: book_wf_def)
  show "book_inv b'" by (rule v(1))
  show free': "sb_free (view b') = p # sb_free ?A" unfolding v(2) by (simp add: spec_cancel_def)
  have "p \<notin> book_slots (view b')" using free_not_linked [OF v(1)] free' by simp
  then show "\<not> linked b' p" using linked_iff [OF v(1)] by simp
  show slots: "book_slots (view b') = book_slots ?A - {p}"
    using side_slots_spec_unlink [OF sorted es(1), of p] \<open>p \<notin> book_slots (view b')\<close>
    unfolding v(2) by (auto simp: spec_cancel_def book_slots_sides [of ?A "is_buy_side ?ord"])
  have "p \<in> book_slots ?A" using l linked_iff [OF b] by simp
  then show "stranded b' = stranded b"
    unfolding stranded_def cancel_order_cap [OF c] free' slots by auto
qed

lemma cancel_linked_quantities:
  assumes b: "book_inv b" and l: "linked b p" and c: "cancel_order (Some p) b = Inr b'"
  shows "book_qty (is_buy_side (order_at b p)) (view b') + unat (order_size (order_at b p)) =
      book_qty (is_buy_side (order_at b p)) (view b)"
    and "book_qty (\<not> is_buy_side (order_at b p)) (view b') = book_qty (\<not> is_buy_side (order_at b p)) (view b)"
proof -
  let ?ord = "order_at b p"
  have v: "view b' = spec_cancel p ?ord (view b)"
    using b l by (rule cancel_linked_view) (use c in simp)
  obtain es where es: "std_find (sb_side (is_buy_side ?ord) (view b)) (price ?ord) = Some es" "(p, ?ord) \<in> set es"
    using b l by (rule linked_level)
  have sorted: "std_sorted (sb_side (is_buy_side ?ord) (view b))"
    using book_repr_wf [OF book_invD [OF b]] by (simp add: book_wf_def)
  from spec_cancel_quantities [OF sorted es(1) book_repr_level_distinct [OF book_invD [OF b] es(1)] es(2)]
  show "book_qty (is_buy_side ?ord) (view b') + unat (order_size ?ord) = book_qty (is_buy_side ?ord) (view b)"
    "book_qty (\<not> is_buy_side ?ord) (view b') = book_qty (\<not> is_buy_side ?ord) (view b)"
    unfolding v by simp_all
qed

lemma cancel_stranded_slots:
  assumes b: "book_inv b" and u: "in_use b p" "own_level b p = None" and c: "cancel_order (Some p) b = Inr b'"
  shows "sb_free (view b') = p # sb_free (view b)" "stranded b' = stranded b - {p}"
    "\<And>buy. sb_side buy (view b') = sb_side buy (view b)"
proof -
  have v: "view b' = (view b)\<lparr>sb_free := p # sb_free (view b), sb_log := sb_log (view b) @ [Cancelled (order_at b p)]\<rparr>"
    using b u by (rule cancel_unlinked_view) (use c in simp)
  show free': "sb_free (view b') = p # sb_free (view b)" unfolding v by simp
  show "sb_side buy (view b') = sb_side buy (view b)" for buy unfolding v by simp
  have "book_slots (view b') = book_slots (view b)" unfolding v by simp
  with free' show "stranded b' = stranded b - {p}"
    unfolding stranded_def cancel_order_cap [OF c] by auto
qed

section \<open>Reachable states\<close>

text \<open>
  The client may cancel an order that rests, or one that is stranded while no level exists at
  its price: \<open>cancelOrder\<close> then finds no level and only gives the slot back.
\<close>

definition may_cancel :: "order_book \<Rightarrow> nat \<Rightarrow> bool" where
  "may_cancel b p \<longleftrightarrow> in_use b p \<and> (linked b p \<or> own_level b p = None)"

inductive book_step :: "order_book \<Rightarrow> order_book \<Rightarrow> bool" where
  add: "add_order oid cid sz pr buy ty b = Inr (r, b') \<Longrightarrow> book_step b b'"
| cancel: "may_cancel b p \<Longrightarrow> cancel_order (Some p) b = Inr b' \<Longrightarrow> book_step b b'"
| cancel_null: "cancel_order None b = Inr b' \<Longrightarrow> book_step b b'"
| match_bid: "match_bid_order pr sz ty 0 b = Inr (m, b') \<Longrightarrow> book_step b b'"
| match_ask: "match_ask_order pr sz ty 0 b = Inr (m, b') \<Longrightarrow> book_step b b'"

inductive_cases book_stepE: "book_step b b'"

inductive reachable :: "order_book \<Rightarrow> bool" where
  start: "order_book_new sy n = Inr b \<Longrightarrow> reachable b"
| step: "reachable b \<Longrightarrow> book_step b b' \<Longrightarrow> reachable b'"

definition book_good :: "order_book \<Rightarrow> bool" where
  "book_good b \<longleftrightarrow> book_inv b \<and> uncrossed (view b)"

lemma linked_in_use:
  assumes b: "book_inv b" and l: "linked b p"
  shows "in_use b p"
proof -
  obtain es where "std_find (sb_side (is_buy_side (order_at b p)) (view b)) (price (order_at b p)) = Some es"
    "(p, order_at b p) \<in> set es" using b l by (rule linked_level)
  from book_repr_entry(4,5) [OF book_invD [OF b] this] show ?thesis by (simp add: in_use_def)
qed

lemma new_good:
  assumes "order_book_new sy n = Inr b" shows "book_good b"
proof -
  have "n > 0" using assms by (auto simp: order_book_new_def mem_pool_new_def rbind_eq_Inr word_gt_0 split: if_splits)
  then show ?thesis
    by (rule order_book_new_view [of n sy]) (use assms in \<open>simp add: book_good_def uncrossed_def spec_new_def\<close>)
qed

lemma add_order_good:
  assumes "book_good b"
  obtains r b' where "add_order oid cid sz pr buy ty b = Inr (r, b')" "book_good b'"
proof -
  obtain r A' where sp: "spec_add oid cid sz pr buy ty (view b) = (r, A')" by fastforce
  have b: "book_inv b" "uncrossed (view b)" using assms by (simp_all add: book_good_def)
  obtain b' where "add_order oid cid sz pr buy ty b = Inr (r, b')" "book_inv b'" "view b' = A'"
    using b(1) sp by (rule add_order_view)
  moreover have "uncrossed A'"
    using book_repr_wf [OF book_invD [OF b(1)]] b(2) sp by (rule spec_add_uncrossed)
  ultimately have "book_good b'" "add_order oid cid sz pr buy ty b = Inr (r, b')"
    unfolding book_good_def by blast+
  then show thesis by (intro that)
qed

lemma cancel_order_good:
  assumes "book_good b" and "may_cancel b p"
  obtains b' where "cancel_order (Some p) b = Inr b'" "book_good b'"
proof -
  have b: "book_inv b" "uncrossed (view b)" using assms by (simp_all add: book_good_def)
  show thesis
  proof (cases "linked b p")
    case True
    obtain b' where b': "cancel_order (Some p) b = Inr b'" "book_inv b'"
      and v: "view b' = spec_cancel p (order_at b p) (view b)"
      using b(1) True by (rule cancel_linked_view)
    obtain es where es: "std_find (sb_side (is_buy_side (order_at b p)) (view b)) (price (order_at b p)) = Some es"
      using True by (rule linked_entry)
    have "uncrossed (view b')"
      unfolding v using book_repr_wf [OF book_invD [OF b(1)]] es b(2)
      by (intro spec_cancel_uncrossed) (simp_all add: book_wf_def)
    with b' show thesis by (intro that) (simp_all add: book_good_def)
  next
    case False
    with assms(2) have u: "in_use b p" "own_level b p = None" by (simp_all add: may_cancel_def)
    obtain b' where b': "cancel_order (Some p) b = Inr b'" "book_inv b'"
      using b(1) u by (rule cancel_unlinked_view)
    have "uncrossed (view b')"
      by (rule uncrossed_subset [OF b(2)]) (simp only: cancel_stranded_slots(3) [OF b(1) u b'(1)] subset_refl)
    with b' show thesis by (intro that) (simp_all add: book_good_def)
  qed
qed

lemma match_order_good:
  assumes "book_good b"
  obtains m b' where "(if buy then match_bid_order pr sz ty 0 b else match_ask_order pr sz ty 0 b) = Inr (m, b')"
    "book_good b'"
proof -
  obtain m A' where sp: "spec_match buy pr sz ty 0 (view b) = (m, A')" by fastforce
  have b: "book_inv b" "uncrossed (view b)" using assms by (simp_all add: book_good_def)
  have wf: "book_wf (view b)" by (rule book_repr_wf [OF book_invD [OF b(1)]])
  obtain b' where b': "(if buy then match_bid_order pr sz ty 0 b else match_ask_order pr sz ty 0 b) = Inr (m, b')"
    "book_inv b'" "view b' = A'"
    using b(1) sp by (rule match_order_view)
  have own: "sb_side buy A' = sb_side buy (view b)" using sp by (rule spec_match_sweep) simp
  have "fst ` set (sb_side s A') \<subseteq> fst ` set (sb_side s (view b))" for s
    using spec_match_trades(4) [OF sp wf] own by (cases "s = buy") auto
  with b(2) have "uncrossed A'" by (rule uncrossed_subset)
  with b' have "book_good b'" unfolding book_good_def by blast
  with b'(1) show thesis by (rule that)
qed

lemma book_step_good:
  assumes "book_step b b'" and "book_good b" shows "book_good b'"
  using assms(1)
proof cases
  case (add oid cid sz pr buy ty r)
  with assms(2) show ?thesis by (metis Inr_inject add_order_good prod.inject)
next
  case (cancel p)
  with assms(2) show ?thesis by (metis Inr_inject cancel_order_good)
next
  case cancel_null
  with assms(2) show ?thesis by (simp add: cancel_order_def)
next
  case (match_bid pr sz ty m)
  with assms(2) match_order_good [of b True pr sz ty] show ?thesis by (metis Inr_inject prod.inject)
next
  case (match_ask pr sz ty m)
  with assms(2) match_order_good [of b False pr sz ty] show ?thesis by (metis Inr_inject prod.inject)
qed

lemma reachable_good: "reachable b \<Longrightarrow> book_good b"
  by (induction rule: reachable.induct) (simp_all add: new_good book_step_good)

lemma reachable_inv: "reachable b \<Longrightarrow> book_inv b"
  using reachable_good by (simp add: book_good_def)

end
