(* ===== verification/Book_Claims.thy ===== *)
theory Book_Claims
  imports Book_Reach
begin

text \<open>
  The properties of the order book, about the operations of the code. Each one is a few steps
  over the refinement, the invariants of \<open>Book_Reach\<close> and the facts about the abstract book.
\<close>

section \<open>A book to try the properties on\<close>

text \<open>
  A book of four slots with asks of 5 at 101 and 3 at 102 and a bid of 4 at 99, built by the
  operations; it is the input of the examples that instantiate the properties below.
\<close>

definition build_book :: "size_t \<Rightarrow> order_book result" where
  "build_book n =
     rbind (order_book_new ''XYZ'' n) (\<lambda>b.
     rbind (add_order 1 7 5 101 False Limit b) (\<lambda>(_, b).
     rbind (add_order 2 8 3 102 False Limit b) (\<lambda>(_, b).
     rbind (add_order 3 9 4 99 True Limit b) (\<lambda>(_, b). Inr b))))"

definition sample_book :: order_book where
  "sample_book = (case build_book 4 of Inr b \<Rightarrow> b
     | Inl _ \<Rightarrow> \<lparr>book_symbol = [], order_pool = \<lparr>store = [], next_free_index = 0\<rparr>,
                bid_levels = [], ask_levels = [], book_log = []\<rparr>)"

lemma sample_built: "build_book 4 = Inr sample_book"
  by code_simp

lemma sample_reachable: "reachable sample_book"
  using sample_built
  by (auto simp: build_book_def rbind_eq_Inr) (meson add reachable.intros)

lemmas sample_inv = reachable_inv [OF sample_reachable]

text \<open>The sample after a bid for 7 at 102, which closes the order at 101 and reduces the one at 102.\<close>

definition sample_after :: order_book where
  "sample_after = (case match_bid_order 102 7 Limit 0 sample_book of Inr (_, b) \<Rightarrow> b | Inl _ \<Rightarrow> sample_book)"

lemma sample_match: "(if True then match_bid_order 102 7 Limit 0 sample_book
    else match_ask_order 102 7 Limit 0 sample_book) = Inr (7, sample_after)"
  by code_simp

section \<open>The outcome of an accepted order\<close>

lemma add_order_outcome:
  assumes b: "book_inv b" and a: "add_order oid cid sz pr buy ty b = Inr (Some f, b')"
  obtains m A2 fs where "sb_free (view b) = f # fs"
    "spec_match buy pr sz ty 0 ((view b)\<lparr>sb_free := fs,
       sb_log := sb_log (view b) @ [Incoming (mk_order oid cid (sb_symbol (view b)) sz pr buy ty)]\<rparr>) = (m, A2)"
    "\<forall>s. sb_side s (view b') = (if m < sz \<and> s = buy
       then spec_rest pr (f, snd (decrease_size m (mk_order oid cid (sb_symbol (view b)) sz pr buy ty))) (sb_side s A2)
       else sb_side s A2)"
    "sb_free (view b') = sb_free A2" "book_inv b'" "linked b' f \<longleftrightarrow> m < sz"
    "\<not> m < sz \<Longrightarrow> \<exists>ord. last (book_log b') = Fully_Matched ord"
proof -
  let ?A = "view b" and ?ord = "mk_order oid cid (sb_symbol (view b)) sz pr buy ty"
  obtain r A' where sp: "spec_add oid cid sz pr buy ty ?A = (r, A')" by fastforce
  obtain b1 where "add_order oid cid sz pr buy ty b = Inr (r, b1)" "book_inv b1" "view b1 = A'"
    using b sp by (rule add_order_view)
  with a have r: "r = Some f" and b': "book_inv b'" "view b' = A'" by auto
  have "sb_free ?A \<noteq> []" using sp r by (auto simp: spec_add_None simp del: view_simps)
  then obtain f0 fs where fr: "sb_free ?A = f0 # fs" by (meson list.exhaust)
  obtain m A2 where m: "spec_match buy pr sz ty 0 (?A\<lparr>sb_free := fs, sb_log := sb_log ?A @ [Incoming ?ord]\<rparr>) = (m, A2)"
    and f0: "f0 = f"
    and A': "A' = (if m < sz
       then set_sb_side buy (spec_rest pr (f, snd (decrease_size m ?ord)) (sb_side buy A2))
              (A2\<lparr>sb_log := sb_log A2 @ [Resting (snd (decrease_size m ?ord))]\<rparr>)
       else A2\<lparr>sb_log := sb_log A2 @ [Fully_Matched (snd (decrease_size m ?ord))]\<rparr>)"
    using sp fr r by (elim spec_add_cases) auto
  have side: "sb_side s (view b') = (if m < sz \<and> s = buy
       then spec_rest pr (f, snd (decrease_size m ?ord)) (sb_side s A2) else sb_side s A2)" for s
    unfolding b'(2) A' by (cases "s = buy") auto
  have own: "sb_side buy A2 = sb_side buy ?A" using m by (rule spec_match_sweep) simp
  obtain cl where cl: "book_slots ?A = set cl \<union> book_slots A2" using m by (rule spec_match_slots) simp
  have "f \<notin> book_slots ?A" using free_not_linked(1) [OF b, of f] fr f0 by simp
  then have no: "f \<notin> book_slots A2" using cl by simp
  have "std_sorted (sb_side buy ?A)" using book_repr_wf [OF book_invD [OF b]] by (simp add: book_wf_def)
  then have "f \<in> book_slots (view b') \<longleftrightarrow> m < sz"
    using no own unfolding book_slots_sides [of "view b'" buy] side
    by (auto simp: side_slots_spec_rest book_slots_sides [of A2 buy])
  then have "linked b' f \<longleftrightarrow> m < sz" using linked_iff [OF b'(1)] by simp
  moreover have "\<exists>ord. last (book_log b') = Fully_Matched ord" if "\<not> m < sz"
  proof -
    have "sb_log A' = sb_log A2 @ [Fully_Matched (snd (decrease_size m ?ord))]"
      unfolding A' using that by simp
    then have "last (sb_log (view b')) = Fully_Matched (snd (decrease_size m ?ord))"
      unfolding b'(2) by simp
    then show ?thesis by simp
  qed
  ultimately show thesis using fr f0 m side b' A' by (intro that [of fs m A2]) simp_all
qed

section \<open>Refinement\<close>

text \<open>
  C1: \<open>addOrder\<close> implements the abstract book. From every state whose pointers are in order it
  returns without a fault, its answer is the one of \<open>spec_add\<close> (a pointer to the order, or
  \<open>nullptr\<close> when the pool is full), and the levels, the free list and the log that it leaves,
  read through the pointers, are those of \<open>spec_add\<close>.
\<close>

theorem add_order_refines:
  assumes "book_inv b"
  shows "\<exists>b'. add_order oid cid sz pr buy ty b = Inr (fst (spec_add oid cid sz pr buy ty (view b)), b') \<and>
    book_inv b' \<and> view b' = snd (spec_add oid cid sz pr buy ty (view b))"
  by (rule add_order_view [OF assms, of oid cid sz pr buy ty]) auto

corollary add_order_refines_sample:
  "\<exists>b'. add_order 4 7 6 101 True Limit sample_book =
     Inr (fst (spec_add 4 7 6 101 True Limit (view sample_book)), b') \<and>
    book_inv b' \<and> view b' = snd (spec_add 4 7 6 101 True Limit (view sample_book))"
  by (rule add_order_refines [OF sample_inv])

text \<open>
  C2: \<open>cancelOrder\<close> of an order that rests on the book implements the abstract book: it returns
  without a fault, takes exactly that order out of its level (and the level out of the book when
  it was the last one), gives its slot back as the next one to be handed out, and logs it.
\<close>

theorem cancel_order_refines:
  assumes "book_inv b" and "linked b p"
  shows "\<exists>b'. cancel_order (Some p) b = Inr b' \<and> book_inv b' \<and>
    view b' = spec_cancel p (order_at b p) (view b)"
  by (rule cancel_linked_view [OF assms]) blast

lemma sample_linked: "linked sample_book 1" "linked sample_book 2"
  by code_simp+

corollary cancel_order_refines_sample:
  "\<exists>b'. cancel_order (Some 1) sample_book = Inr b' \<and> book_inv b' \<and>
    view b' = spec_cancel 1 (order_at sample_book 1) (view sample_book)"
  by (rule cancel_order_refines [OF sample_inv sample_linked(1)])

text \<open>
  C3: \<open>matchBidOrder\<close> and \<open>matchAskOrder\<close>, with their pointer loops over levels and orders,
  implement the sweep of the abstract book over the facing side, from any running total.
\<close>

theorem match_order_refines:
  assumes "book_inv b"
  shows "\<exists>b'. (if buy then match_bid_order pr sz ty t b else match_ask_order pr sz ty t b) =
      Inr (fst (spec_match buy pr sz ty t (view b)), b') \<and>
    book_inv b' \<and> view b' = snd (spec_match buy pr sz ty t (view b))"
  by (rule match_order_view [OF assms prod.collapse [symmetric]]) blast

corollary match_order_refines_sample:
  "\<exists>b'. (if True then match_bid_order 102 7 Limit 0 sample_book else match_ask_order 102 7 Limit 0 sample_book) =
      Inr (fst (spec_match True 102 7 Limit 0 (view sample_book)), b') \<and>
    book_inv b' \<and> view b' = snd (spec_match True 102 7 Limit 0 (view sample_book))"
  by (rule match_order_refines [OF sample_inv])

section \<open>Invariants of the reachable states\<close>

text \<open>
  C5: In every state that a client reaches, the pointers are in order and the book is not crossed:
  the best bid level of the code (\<open>rbegin\<close> of the bids) is priced below its best ask level
  (\<open>begin\<close> of the asks), market orders included.
\<close>

theorem reachable_uncrossed:
  assumes "reachable b" and "std_rbegin (bid_levels b) = Some (k, q)" and "std_begin (ask_levels b) = Some (j, r)"
  shows "book_inv b \<and> k < j"
proof -
  have b: "book_inv b" "uncrossed (view b)" using reachable_good [OF assms(1)] by (simp_all add: book_good_def)
  have "(k, q) \<in> set (bid_levels b)" using assms(2) by (auto simp: std_rbegin_def split: if_splits dest: last_in_set)
  then have "(k, view_level b q) \<in> set (sb_bids (view b))" by (force simp: view_def)
  moreover have "(j, r) \<in> set (ask_levels b)" using assms(3) by (auto simp: std_begin_def split: list.splits)
  then have "(j, view_level b r) \<in> set (sb_asks (view b))" by (force simp: view_def)
  ultimately have "k < j" using b(2) unfolding uncrossed_def by fastforce
  with b(1) show ?thesis ..
qed

corollary reachable_uncrossed_sample:
  "book_inv sample_book \<and> (99 :: u64) < 101"
  by (rule reachable_uncrossed [OF sample_reachable,
        of _ "snd (the (std_rbegin (bid_levels sample_book)))" _ "snd (the (std_begin (ask_levels sample_book)))"])
     code_simp+

text \<open>
  C4: No reachable state faults. Every \<open>addOrder\<close>, every match and every cancellation that the
  client is entitled to returns, without a null dereference, a wild pointer or an abort, and
  leads to a reachable state again.
\<close>

theorem reachable_no_fault:
  assumes "reachable b"
  shows "(\<exists>r b'. add_order oid cid sz pr buy ty b = Inr (r, b') \<and> reachable b') \<and>
    (\<exists>m b'. match_bid_order pr sz ty 0 b = Inr (m, b') \<and> reachable b') \<and>
    (\<exists>m b'. match_ask_order pr sz ty 0 b = Inr (m, b') \<and> reachable b') \<and>
    (may_cancel b p \<longrightarrow> (\<exists>b'. cancel_order (Some p) b = Inr b' \<and> reachable b')) \<and>
    cancel_order None b = Inr b"
proof (intro conjI impI)
  note good = reachable_good [OF assms]
  show "\<exists>r b'. add_order oid cid sz pr buy ty b = Inr (r, b') \<and> reachable b'"
    by (rule add_order_good [OF good, of oid cid sz pr buy ty]) (blast intro: step [OF assms] book_step.add)
  show "\<exists>m b'. match_bid_order pr sz ty 0 b = Inr (m, b') \<and> reachable b'"
    using match_order_good [OF good, of True pr sz ty] by simp (metis step [OF assms] match_bid)
  show "\<exists>m b'. match_ask_order pr sz ty 0 b = Inr (m, b') \<and> reachable b'"
    using match_order_good [OF good, of False pr sz ty] by simp (metis step [OF assms] match_ask)
  show "\<exists>b'. cancel_order (Some p) b = Inr b' \<and> reachable b'" if "may_cancel b p"
    by (rule cancel_order_good [OF good that]) (blast intro: step [OF assms] book_step.cancel [OF that])
  show "cancel_order None b = Inr b" by (simp add: cancel_order_def)
qed

lemma sample_may_cancel: "may_cancel sample_book 2"
  by code_simp

corollary reachable_no_fault_sample:
  "(\<exists>b'. cancel_order (Some 2) sample_book = Inr b' \<and> reachable b') \<and>
   (\<exists>r b'. add_order 4 7 6 101 True Limit sample_book = Inr (r, b') \<and> reachable b')"
  using reachable_no_fault [OF sample_reachable, of 4 7 6 101 True Limit 2] sample_may_cancel by blast

section \<open>What matching promises\<close>

text \<open>
  C6: Exact fills, on true quantities. A match returns the smaller of the incoming size and the
  total size resting at acceptable prices; exactly that amount leaves the facing side, and the
  other side is untouched. In particular nothing is lost, traded twice or wrapped around.
\<close>

theorem match_exact:
  assumes "book_inv b"
    and "(if buy then match_bid_order pr sz ty 0 b else match_ask_order pr sz ty 0 b) = Inr (m, b')"
  shows "unat m = min (unat sz) (depth (accepts buy ty pr) (facing buy (view b))) \<and>
    book_qty (\<not> buy) (view b) = book_qty (\<not> buy) (view b') + unat m \<and>
    sb_side buy (view b') = sb_side buy (view b)"
proof (intro conjI)
  obtain m' A' where sp: "spec_match buy pr sz ty 0 (view b) = (m', A')" by fastforce
  have eq: "m' = m" "A' = view b'"
    by (rule match_order_view [OF assms(1) sp], use assms(2) in simp)+
  note tr = spec_match_trades [OF sp book_repr_wf [OF book_invD [OF assms(1)]]]
  show "unat m = min (unat sz) (depth (accepts buy ty pr) (facing buy (view b)))"
    "book_qty (\<not> buy) (view b) = book_qty (\<not> buy) (view b') + unat m"
    using tr(1,2) by (simp_all add: eq)
  show "sb_side buy (view b') = sb_side buy (view b)"
    using sp by (rule spec_match_sweep) (simp add: eq)
qed

corollary match_exact_sample:
  "unat (7 :: u32) = min (unat (7 :: u32)) (depth (accepts True Limit 102) (facing True (view sample_book))) \<and>
    book_qty (\<not> True) (view sample_book) = book_qty (\<not> True) (view sample_after) + unat (7 :: u32) \<and>
    sb_side True (view sample_after) = sb_side True (view sample_book)"
  by (rule match_exact [OF sample_inv sample_match])

text \<open>
  C7: Price-time priority. The resting orders of the facing side, listed from the best price and
  within a price from the oldest, are closed from the front: a match closes the first \<open>n\<close> of them
  and gives their slots back in that order, reduces at most the next one (which keeps a positive
  size and its place), and leaves the rest as they are.
\<close>

theorem match_priority:
  assumes "book_inv b"
    and "(if buy then match_bid_order pr sz ty 0 b else match_ask_order pr sz ty 0 b) = Inr (m, b')"
  shows "\<exists>n. same_but_size (drop n (flat (facing buy (view b)))) (flat (facing buy (view b'))) \<and>
    sb_free (view b') = rev (map fst (take n (flat (facing buy (view b))))) @ sb_free (view b)"
proof -
  obtain m' A' where sp: "spec_match buy pr sz ty 0 (view b) = (m', A')" by fastforce
  have eq: "m' = m" "A' = view b'"
    by (rule match_order_view [OF assms(1) sp], use assms(2) in simp)+
  obtain cl ev where sw: "spec_sweep (accepts buy ty pr) sz 0 (facing buy (view b)) = (facing buy (view b'), m, cl, ev)"
    and free: "sb_free (view b') = rev cl @ sb_free (view b)"
    using sp [unfolded eq] by (rule spec_match_sweep)
  note pri = spec_sweep_priority [OF sw word_zero_le]
  have "sb_free (view b') = rev (map fst (take (length cl) (flat (facing buy (view b))))) @ sb_free (view b)"
    unfolding free using conjunct2 [OF pri] by (rule arg_cong)
  with pri show ?thesis by blast
qed

corollary match_priority_sample:
  "\<exists>n. same_but_size (drop n (flat (facing True (view sample_book)))) (flat (facing True (view sample_after))) \<and>
    sb_free (view sample_after) = rev (map fst (take n (flat (facing True (view sample_book))))) @ sb_free (view sample_book)"
  by (rule match_priority [OF sample_inv sample_match])

text \<open>
  C9: Limit prices are respected. The levels whose price the incoming order does not accept (asks
  above the limit of a bid, bids below the limit of an ask) are the same, order by order, after
  the match; a market order accepts every price.
\<close>

theorem match_limit:
  assumes "book_inv b"
    and "(if buy then match_bid_order pr sz ty 0 b else match_ask_order pr sz ty 0 b) = Inr (m, b')"
  shows "filter (\<lambda>l. \<not> accepts buy ty pr (fst l)) (facing buy (view b')) =
    filter (\<lambda>l. \<not> accepts buy ty pr (fst l)) (facing buy (view b))"
proof -
  obtain m' A' where sp: "spec_match buy pr sz ty 0 (view b) = (m', A')" by fastforce
  have eq: "m' = m" "A' = view b'"
    by (rule match_order_view [OF assms(1) sp], use assms(2) in simp)+
  obtain cl ev where "spec_sweep (accepts buy ty pr) sz 0 (facing buy (view b)) = (facing buy (view b'), m, cl, ev)"
    using sp [unfolded eq] by (rule spec_match_sweep)
  from spec_sweep_limit [OF this best_first_facing [OF book_repr_wf [OF book_invD [OF assms(1)]]]]
  show ?thesis by blast
qed

corollary match_limit_sample:
  "filter (\<lambda>l. \<not> accepts True Limit 102 (fst l)) (facing True (view sample_after)) =
    filter (\<lambda>l. \<not> accepts True Limit 102 (fst l)) (facing True (view sample_book))"
  by (rule match_limit [OF sample_inv sample_match])

text \<open>
  The log accounts for every trade: a match only appends to the log, and the amounts of the
  \<open>(Matched ...)\<close> lines it appends add up to exactly what it returns.
\<close>

theorem match_logged:
  assumes "book_inv b"
    and "(if buy then match_bid_order pr sz ty 0 b else match_ask_order pr sz ty 0 b) = Inr (m, b')"
  shows "\<exists>ev. book_log b' = book_log b @ ev \<and> traded ev = unat m"
proof -
  obtain m' A' where sp: "spec_match buy pr sz ty 0 (view b) = (m', A')" by fastforce
  have eq: "m' = m" "A' = view b'"
    by (rule match_order_view [OF assms(1) sp], use assms(2) in simp)+
  obtain cl ev where sw: "spec_sweep (accepts buy ty pr) sz 0 (facing buy (view b)) = (facing buy (view b'), m, cl, ev)"
    and lg: "sb_log (view b') = sb_log (view b) @ ev"
    using sp [unfolded eq] by (rule spec_match_sweep)
  have "unat m = traded ev" using spec_sweep_traded [OF sw word_zero_le] by simp
  with lg show ?thesis by simp
qed

corollary match_logged_sample:
  "\<exists>ev. book_log sample_after = book_log sample_book @ ev \<and> traded ev = unat (7 :: u32)"
  by (rule match_logged [OF sample_inv sample_match])

text \<open>
  C11: What an order leaves behind. Its traded quantity leaves the facing side and the rest of it
  joins its own side; it rests exactly when the acceptable quantity is less than its size, and then
  no acceptable price is left on the facing side (for a market order, nothing at all).
\<close>

theorem add_order_effect:
  assumes "book_inv b" and "add_order oid cid sz pr buy ty b = Inr (Some p, b')"
  shows "book_qty (\<not> buy) (view b') + min (unat sz) (depth (accepts buy ty pr) (facing buy (view b))) =
      book_qty (\<not> buy) (view b) \<and>
    book_qty buy (view b') + min (unat sz) (depth (accepts buy ty pr) (facing buy (view b))) =
      book_qty buy (view b) + unat sz \<and>
    (linked b' p \<longleftrightarrow> depth (accepts buy ty pr) (facing buy (view b)) < unat sz) \<and>
    (linked b' p \<longrightarrow> (\<forall>l \<in> set (facing buy (view b')). \<not> accepts buy ty pr (fst l)))"
proof -
  let ?A = "view b" and ?ord = "mk_order oid cid (sb_symbol (view b)) sz pr buy ty"
  have wf: "book_wf ?A" by (rule book_repr_wf [OF book_invD [OF assms(1)]])
  obtain m A2 fs where fr: "sb_free ?A = p # fs"
    and m: "spec_match buy pr sz ty 0 (?A\<lparr>sb_free := fs, sb_log := sb_log ?A @ [Incoming ?ord]\<rparr>) = (m, A2)"
    and side: "\<forall>s. sb_side s (view b') = (if m < sz \<and> s = buy
       then spec_rest pr (p, snd (decrease_size m ?ord)) (sb_side s A2) else sb_side s A2)"
    and "sb_free (view b') = sb_free A2" "book_inv b'" and lk: "linked b' p \<longleftrightarrow> m < sz"
    by (rule add_order_outcome [OF assms]) blast
  obtain r A' where sp: "spec_add oid cid sz pr buy ty ?A = (r, A')" by fastforce
  have v: "view b' = A'" by (rule add_order_view [OF assms(1) sp]) (use assms(2) in simp)
  note q = spec_add_quantities [OF wf fr sp]
  note tr = spec_match_trades [OF m, simplified, OF wf]
  have far: "\<forall>l \<in> set (facing buy (view b')). \<not> accepts buy ty pr (fst l)" if "m < sz"
    using tr(3) [OF that] by (simp add: set_facing side)
  have "m < sz \<longleftrightarrow> depth (accepts buy ty pr) (facing buy ?A) < unat sz"
    unfolding word_less_nat_alt tr(1) by (simp add: min_def)
  with q far lk v show ?thesis by simp
qed

lemma sample_add: "\<exists>b'. add_order 4 7 6 101 True Limit sample_book = Inr (Some 3, b')"
proof -
  obtain r b' where a: "add_order 4 7 6 101 True Limit sample_book = Inr (r, b')"
    using add_order_good [OF reachable_good [OF sample_reachable]] by blast
  have "fst (projr (add_order 4 7 6 101 True Limit sample_book)) = Some 3" by code_simp
  with a show ?thesis by simp
qed

corollary add_order_effect_sample:
  "\<exists>b'. book_qty False (view b') + min 6 (depth (accepts True Limit 101) (facing True (view sample_book))) =
      book_qty False (view sample_book) \<and> linked b' 3"
proof -
  obtain b' where a: "add_order 4 7 6 101 True Limit sample_book = Inr (Some 3, b')"
    using sample_add by blast
  have d: "depth (accepts True Limit 101) (facing True (view sample_book)) = 5" by code_simp
  from add_order_effect [OF sample_inv a] d show ?thesis by (intro exI [of _ b']) simp
qed

text \<open>
  C13: A cancellation removes exactly the resting quantity of the order from its side, and its slot
  is the one that the next \<open>addOrder\<close> returns.
\<close>

theorem cancel_order_effect:
  assumes "book_inv b" and "linked b p" and "cancel_order (Some p) b = Inr b'"
  shows "book_qty (is_buy_side (order_at b p)) (view b') + unat (order_size (order_at b p)) =
      book_qty (is_buy_side (order_at b p)) (view b) \<and>
    book_qty (\<not> is_buy_side (order_at b p)) (view b') = book_qty (\<not> is_buy_side (order_at b p)) (view b) \<and>
    \<not> linked b' p \<and>
    (\<exists>b''. add_order oid cid sz pr buy ty b' = Inr (Some p, b''))"
proof -
  note c = cancel_linked_slots [OF assms]
  obtain r A' where sp: "spec_add oid cid sz pr buy ty (view b') = (r, A')" by fastforce
  have "r = Some p" using sp c(1) by (rule spec_add_cases)
  then have "\<exists>b''. add_order oid cid sz pr buy ty b' = Inr (Some p, b'')"
    using add_order_view [OF c(5) sp] by blast
  with cancel_linked_quantities [OF assms] c(3) show ?thesis by simp
qed

definition sample_cancelled :: order_book where
  "sample_cancelled = (case cancel_order (Some 2) sample_book of Inr b \<Rightarrow> b | Inl _ \<Rightarrow> sample_book)"

lemma sample_cancel: "cancel_order (Some 2) sample_book = Inr sample_cancelled"
  by code_simp

lemma sample_order: "is_buy_side (order_at sample_book 2) = True" "order_size (order_at sample_book 2) = 4"
  by code_simp+

corollary cancel_order_effect_sample:
  "book_qty True (view sample_cancelled) + 4 = book_qty True (view sample_book) \<and>
   (\<exists>b''. add_order 9 9 9 9 True Market sample_cancelled = Inr (Some 2, b''))"
  using cancel_order_effect [OF sample_inv sample_linked(2) sample_cancel, of 9 9 9 9 True Market]
  by (simp add: sample_order)

section \<open>Where the slots of the pool go\<close>

text \<open>
  C15: In every reachable state each slot of the pool is in exactly one place: free, resting on one
  level, or stranded (handed out, but on no level); the three numbers add up to the capacity.
\<close>

theorem slots_partition:
  assumes "reachable b"
  shows "length (sb_free (view b)) + card (book_slots (view b)) + card (stranded b) = pool_cap (order_pool b)"
proof -
  have b: "book_inv b" by (rule reachable_inv [OF assms])
  let ?F = "set (sb_free (view b))" and ?B = "book_slots (view b)" and ?U = "{..<pool_cap (order_pool b)}"
  have F: "?F \<subseteq> ?U" "?F \<inter> ?B = {}" using free_not_linked [OF b] by auto
  have "in_use b x" if "x \<in> ?B" for x using linked_in_use [OF b] linked_iff [OF b] that by simp
  then have B: "?B \<subseteq> ?U" by (auto simp: in_use_def)
  have fin: "finite ?B" by (rule finite_subset [OF B]) simp
  have "card ?F = length (sb_free (view b))" by (rule distinct_card [OF free_distinct_view [OF b]])
  moreover have "stranded b = ?U - (?F \<union> ?B)" by (auto simp: stranded_def)
  moreover have "card (?F \<union> ?B) = card ?F + card ?B" using F(2) fin by (intro card_Un_disjoint) auto
  moreover have "?F \<union> ?B \<subseteq> ?U" using F(1) B by blast
  then have "card (?U - (?F \<union> ?B)) = card ?U - card (?F \<union> ?B)" "card (?F \<union> ?B) \<le> card ?U"
    using fin by (intro card_Diff_subset card_mono; simp)+
  ultimately show ?thesis by simp
qed

corollary slots_partition_sample:
  "length (sb_free (view sample_book)) + card (book_slots (view sample_book)) + card (stranded sample_book) =
     pool_cap (order_pool sample_book)"
  by (rule slots_partition [OF sample_reachable])

text \<open>
  C27: The slot of an order that is filled on arrival is stranded: it is neither linked nor given
  back, and no later match can give it back, since matches only close linked orders. Orders that
  rest strand nothing, and \<open>addOrder\<close> answers \<open>nullptr\<close> exactly when no slot is free.
\<close>

theorem add_order_strands:
  assumes "book_inv b" and "add_order oid cid sz pr buy ty b = Inr (r, b')"
  shows "case r of
      None \<Rightarrow> sb_free (view b) = [] \<and> b' = b
    | Some f \<Rightarrow> sb_free (view b) \<noteq> [] \<and> f \<notin> stranded b \<and>
        stranded b' = (if depth (accepts buy ty pr) (facing buy (view b)) < unat sz
                       then stranded b else insert f (stranded b))"
proof (cases r)
  case None
  with assms add_order_None(2) [OF assms(1)] show ?thesis by (simp del: view_simps)
next
  case (Some f)
  with assms(2) have a: "add_order oid cid sz pr buy ty b = Inr (Some f, b')" by simp
  obtain m A2 fs where fr: "sb_free (view b) = f # fs"
    and m: "spec_match buy pr sz ty 0 ((view b)\<lparr>sb_free := fs, sb_log := sb_log (view b) @
       [Incoming (mk_order oid cid (sb_symbol (view b)) sz pr buy ty)]\<rparr>) = (m, A2)"
    and lk: "linked b' f \<longleftrightarrow> m < sz"
    by (rule add_order_outcome [OF assms(1) a]) blast
  have wf: "book_wf (view b)" by (rule book_repr_wf [OF book_invD [OF assms(1)]])
  note tr = spec_match_trades(1) [OF m, simplified, OF wf]
  have "m < sz \<longleftrightarrow> depth (accepts buy ty pr) (facing buy (view b)) < unat sz"
    unfolding word_less_nat_alt tr by (simp add: min_def)
  with lk add_order_stranded [OF assms(1) a] Some fr show ?thesis by (auto split: if_splits)
qed

corollary add_order_strands_sample:
  "\<exists>b'. add_order 4 7 5 101 True Limit sample_book = Inr (Some 3, b') \<and> stranded b' = insert 3 (stranded sample_book)"
proof -
  obtain r b' where a: "add_order 4 7 5 101 True Limit sample_book = Inr (r, b')"
    using add_order_good [OF reachable_good [OF sample_reachable]] by blast
  have "fst (projr (add_order 4 7 5 101 True Limit sample_book)) = Some 3" by code_simp
  with a have r: "r = Some 3" by simp
  have d: "depth (accepts True Limit 101) (facing True (view sample_book)) = 5" by code_simp
  from add_order_strands [OF sample_inv a] r d have "stranded b' = insert 3 (stranded sample_book)" by simp
  with a r show ?thesis by blast
qed

end
