(* ===== verification/Book_Wear.thy ===== *)
theory Book_Wear
  imports Book_Claims
begin

text \<open>
  What matching does to the objects in the pool, linked or not: sizes only shrink, and a slot that
  is given back holds an order of size 0. The client relies on it when it reads \<open>size\<close> through a
  pointer whose order may have been closed in the meantime. None of this needs the invariant of
  the book.
\<close>

definition worn :: "order_store \<Rightarrow> order_store \<Rightarrow> bool" where
  "worn st st' \<longleftrightarrow> length st' = length st \<and>
     (\<forall>i < length st. order_size (object (st' ! i)) \<le> order_size (object (st ! i)) \<and>
        (is_free_or_in_use (st' ! i) \<longrightarrow> is_free_or_in_use (st ! i) \<or> order_size (object (st' ! i)) = 0))"

lemma worn_refl [simp]: "worn st st"
  by (simp add: worn_def)

lemma worn_trans [trans]:
  assumes a: "worn st st'" and b: "worn st' st''" shows "worn st st''"
  unfolding worn_def
proof (intro conjI allI impI)
  show "length st'' = length st" using a b by (simp add: worn_def)
next
  fix i assume i: "i < length st"
  then have i': "i < length st'" using a by (simp add: worn_def)
  have ai: "order_size (object (st' ! i)) \<le> order_size (object (st ! i))"
    "is_free_or_in_use (st' ! i) \<Longrightarrow> is_free_or_in_use (st ! i) \<or> order_size (object (st' ! i)) = 0"
    using a i by (auto simp: worn_def)
  have bi: "order_size (object (st'' ! i)) \<le> order_size (object (st' ! i))"
    "is_free_or_in_use (st'' ! i) \<Longrightarrow> is_free_or_in_use (st' ! i) \<or> order_size (object (st'' ! i)) = 0"
    using b i' by (auto simp: worn_def)
  show "order_size (object (st'' ! i)) \<le> order_size (object (st ! i))" using ai(1) bi(1) by simp
  show "is_free_or_in_use (st ! i) \<or> order_size (object (st'' ! i)) = 0" if "is_free_or_in_use (st'' ! i)"
    using bi(2) [OF that] ai(2) bi(1) by auto
qed

lemma worn_core: "store_core st' = store_core st \<Longrightarrow> worn st st'"
  unfolding worn_def
proof (intro conjI allI impI)
  assume c: "store_core st' = store_core st"
  show "length st' = length st" by (rule store_core_length [OF c])
  fix i assume i: "i < length st"
  have "order_size (object (st' ! i)) = order_size (object (st ! i))"
    using arg_cong [OF store_core_nth(1) [OF c i], of order_size] by simp
  then show "order_size (object (st' ! i)) \<le> order_size (object (st ! i))" by simp
  show "is_free_or_in_use (st' ! i) \<Longrightarrow> is_free_or_in_use (st ! i) \<or> order_size (object (st' ! i)) = 0"
    using store_core_nth(2) [OF c i] by simp
qed

section \<open>The queue changes only links\<close>

lemma save_core: "save order_nodes h p n = Inr h' \<Longrightarrow> store_core h' = store_core h"
  using oh.payload_put by (auto simp: save_def split: option.splits if_splits)

lemma q_remove_core: "q_remove order_nodes x (h, q) = Inr (h', q') \<Longrightarrow> store_core h' = store_core h"
  by (auto simp: q_remove_def q_unlink_prev_def q_unlink_next_def rbind_eq_Inr dest!: save_core split: if_splits)

lemma q_append_core: "q_append order_nodes x (h, q) = Inr (h', q') \<Longrightarrow> store_core h' = store_core h"
  by (auto simp: q_append_def rbind_eq_Inr dest!: save_core split: if_splits)

section \<open>Matching\<close>

lemma decrease_size_le: "order_size (snd (decrease_size a ord)) \<le> order_size ord"
  by (simp add: word_le_nat_alt decrease_size_left)

lemma worn_write:
  assumes "read_order pool p = Inr ord" and "order_size ord' \<le> order_size ord"
  shows "worn (store pool) (store (write_order pool p ord'))"
  using assms by (auto simp: worn_def read_order_def write_order_def nth_list_update split: option.splits if_splits)

lemma worn_deallocate:
  assumes "deallocate order_overlay p pool = Inr pool'" and "read_order pool p = Inr ord" and "order_size ord = 0"
  shows "worn (store pool) (store pool')"
  using assms
  by (auto simp: worn_def deallocate_def read_order_def set_next_free_of_def order_overlay_def nth_list_update
      split: option.splits if_splits)

lemma match_step_worn:
  assumes "match_step sz s = Inr s'" shows "worn (store (ms_pool s)) (store (ms_pool s'))"
proof -
  obtain ord where ord: "read_order (ms_pool s) (q_peek (ms_level s)) = Inr ord"
    using assms by (auto simp: match_step_def rbind_eq_Inr Let_def)
  obtain m ord' where d: "decrease_size (sz - ms_total s) ord = (m, ord')" by fastforce
  let ?P1 = "write_order (ms_pool s) (q_peek (ms_level s)) ord'"
  have le: "order_size ord' \<le> order_size ord" using decrease_size_le [of "sz - ms_total s" ord] d by simp
  have w1: "worn (store (ms_pool s)) (store ?P1)" by (rule worn_write [OF ord le])
  show ?thesis
  proof (cases "order_size ord' = 0")
    case False
    with assms ord d have "ms_pool s' = ?P1" by (auto simp: match_step_def Let_def)
    with w1 show ?thesis by simp
  next
    case True
    obtain st q pool where rm: "q_remove order_nodes (q_peek (ms_level s)) (store ?P1, ms_level s) = Inr (st, q)"
      and de: "deallocate order_overlay (q_peek (ms_level s)) (?P1\<lparr>store := st\<rparr>) = Inr pool" and s': "ms_pool s' = pool"
      using assms ord d True by (auto simp: match_step_def Let_def rbind_eq_Inr)
    have c: "store_core st = store_core (store ?P1)" using rm by (rule q_remove_core)
    obtain i where p: "q_peek (ms_level s) = Some i" "i < length (store (ms_pool s))"
      using ord by (auto simp: read_order_def split: option.splits if_splits)
    have i1: "i < length (store ?P1)" using p by (simp add: write_order_def)
    have "object (store ?P1 ! i) = ord'" using p by (simp add: write_order_def)
    with arg_cong [OF store_core_nth(1) [OF c i1], of order_size] True
    have z: "order_size (object (st ! i)) = 0" by simp
    have rd: "read_order (?P1\<lparr>store := st\<rparr>) (q_peek (ms_level s)) = Inr (object (st ! i))"
      using p i1 store_core_length [OF c] by (simp add: read_order_def)
    have "worn st (store pool)" using worn_deallocate [OF de rd z] by simp
    with worn_trans [OF w1 worn_core [OF c]] show ?thesis unfolding s' by (rule worn_trans)
  qed
qed

lemma match_at_level_worn: "match_at_level sz s = Inr s' \<Longrightarrow> worn (store (ms_pool s)) (store (ms_pool s'))"
proof (induction sz s rule: match_at_level.induct)
  case (1 sz s)
  then show ?case
    by (auto simp: match_at_level.simps [of sz s] intro: worn_trans match_step_worn split: if_splits sum.splits)
qed

lemma match_bid_order_worn:
  "match_bid_order pr sz ty t b = Inr (m, b') \<Longrightarrow> worn (store (order_pool b)) (store (order_pool b'))"
proof (induction pr sz ty t b rule: match_bid_order.induct)
  case (1 pr sz ty t b)
  then show ?case
    by (auto simp: match_bid_order.simps [of pr sz ty t b] Let_def
        dest!: match_at_level_worn split: if_splits sum.splits option.splits)
       (erule worn_trans, simp)+
qed

lemma match_ask_order_worn:
  "match_ask_order pr sz ty t b = Inr (m, b') \<Longrightarrow> worn (store (order_pool b)) (store (order_pool b'))"
proof (induction pr sz ty t b rule: match_ask_order.induct)
  case (1 pr sz ty t b)
  then show ?case
    by (auto simp: match_ask_order.simps [of pr sz ty t b] Let_def
        dest!: match_at_level_worn split: if_splits sum.splits option.splits)
       (erule worn_trans, simp)+
qed

lemma append_to_level_worn:
  "append_to_level buy pr p b = Inr b' \<Longrightarrow> worn (store (order_pool b)) (store (order_pool b'))"
  by (auto simp: append_to_level_def Let_def rbind_eq_Inr dest!: q_append_core intro: worn_core split: option.splits)

section \<open>Adding an order\<close>

lemma append_to_level_log: "append_to_level buy pr p b = Inr b' \<Longrightarrow> book_log b' = book_log b"
  by (auto simp: append_to_level_def Let_def rbind_eq_Inr set_side_levels_def split: option.splits)

lemma element_overwrite:
  fixes e :: "'a element"
  shows "e\<lparr>is_free_or_in_use := u, object := v\<rparr> = \<lparr>is_free_or_in_use = u, object = v\<rparr>"
  by simp

lemma add_order_worn:
  assumes a: "add_order oid cid sz pr buy ty b = Inr (Some f, b')"
  shows "worn ((store (order_pool b))[f := \<lparr>is_free_or_in_use = False, object = mk_order oid cid (book_symbol b) sz pr buy ty\<rparr>])
           (store (order_pool b'))"
    and "f < length (store (order_pool b)) \<Longrightarrow> last (book_log b') = Fully_Matched x \<Longrightarrow>
           order_size (object (store (order_pool b') ! f)) = 0"
proof -
  let ?new = "mk_order oid cid (book_symbol b) sz pr buy ty"
  let ?st = "(store (order_pool b))[f := \<lparr>is_free_or_in_use = False, object = ?new\<rparr>]"
  let ?left = "\<lambda>m ord. snd (decrease_size m ord)"
  let ?P' = "\<lambda>i m ord b2. b2\<lparr>order_pool := write_order (order_pool b2) (Some i) (?left m ord)\<rparr>"
  obtain r0 pool where ra: "allocate order_overlay (order_pool b) ?new = (r0, pool)" by fastforce
  have "r0 \<noteq> None" using a by (cases r0) (simp_all add: add_order_def ra)
  then obtain i where al: "allocate order_overlay (order_pool b) ?new = (Some i, pool)" using ra by auto
  let ?b1 = "\<lambda>inc. b\<lparr>order_pool := pool, book_log := book_log b @ [Incoming (core inc)]\<rparr>"
  note a1 = a [unfolded add_order_def al prod.case option.case Let_def]
  obtain inc where a2: "rbind (if buy then match_bid_order pr sz ty 0 (?b1 inc) else match_ask_order pr sz ty 0 (?b1 inc))
      (\<lambda>(m, b2). rbind (read_order (order_pool b2) (Some i)) (\<lambda>ord.
         if m < sz then
           rbind (append_to_level buy pr (Some i) (?P' i m ord b2\<lparr>book_log := book_log (?P' i m ord b2) @ [Resting (core (?left m ord))]\<rparr>))
             (\<lambda>b4. Inr (Some i, b4))
         else Inr (Some i, ?P' i m ord b2\<lparr>book_log := book_log (?P' i m ord b2) @ [Fully_Matched (core (?left m ord))]\<rparr>))) = Inr (Some f, b')"
    using a1 by (rule rbind_InrE)
  obtain m b2 where mt: "(if buy then match_bid_order pr sz ty 0 (?b1 inc) else match_ask_order pr sz ty 0 (?b1 inc)) = Inr (m, b2)"
    and a3: "rbind (read_order (order_pool b2) (Some i)) (\<lambda>ord.
         if m < sz then
           rbind (append_to_level buy pr (Some i) (?P' i m ord b2\<lparr>book_log := book_log (?P' i m ord b2) @ [Resting (core (?left m ord))]\<rparr>))
             (\<lambda>b4. Inr (Some i, b4))
         else Inr (Some i, ?P' i m ord b2\<lparr>book_log := book_log (?P' i m ord b2) @ [Fully_Matched (core (?left m ord))]\<rparr>)) = Inr (Some f, b')"
    using a2 by (rule rbind_InrE) auto
  obtain ord where rd: "read_order (order_pool b2) (Some i) = Inr ord"
    and fin: "(if m < sz then
         rbind (append_to_level buy pr (Some i) (?P' i m ord b2\<lparr>book_log := book_log (?P' i m ord b2) @ [Resting (core (?left m ord))]\<rparr>))
           (\<lambda>b4. Inr (Some i, b4))
       else Inr (Some i, ?P' i m ord b2\<lparr>book_log := book_log (?P' i m ord b2) @ [Fully_Matched (core (?left m ord))]\<rparr>)) = Inr (Some f, b')"
    using a3 by (rule rbind_InrE)
  have i: "i = f" using fin by (auto simp: rbind_eq_Inr split: if_splits)
  note al = al [unfolded i] and rd = rd [unfolded i] and fin = fin [unfolded i]
  have st: "store pool = ?st"
    using al by (auto simp: allocate_def Let_def element_overwrite split: if_splits)
  have w2: "worn ?st (store (order_pool b2))"
    using mt st by (auto dest: match_bid_order_worn match_ask_order_worn split: if_splits)
  let ?P = "write_order (order_pool b2) (Some f) (snd (decrease_size m ord))"
  have w3: "worn (store (order_pool b2)) (store ?P)" by (rule worn_write [OF rd decrease_size_le])
  have w4: "worn (store ?P) (store (order_pool b'))"
    using fin by (auto simp: rbind_eq_Inr dest!: append_to_level_worn split: if_splits)
  show "worn ?st (store (order_pool b'))" by (rule worn_trans [OF worn_trans [OF w2 w3] w4])
  show "order_size (object (store (order_pool b') ! f)) = 0"
    if f: "f < length (store (order_pool b))" and l: "last (book_log b') = Fully_Matched x"
  proof -
    have m: "sz \<le> m" using fin l by (auto simp: rbind_eq_Inr dest!: append_to_level_log split: if_splits)
    have f2: "f < length (store (order_pool b2))" using w2 f by (simp add: worn_def)
    have "order_size ord \<le> sz"
      using w2 rd f f2 by (auto simp: worn_def read_order_def mk_order_def)
    then have "order_size ord \<le> m" using m by (rule order_trans)
    then have "order_size (snd (decrease_size m ord)) = 0"
      by (simp add: decrease_size_def Let_def)
    moreover have "order_pool b' = ?P" using fin m by (auto split: if_splits)
    ultimately show ?thesis using f2 by (simp add: write_order_def)
  qed
qed

text \<open>An order that a client tracks still rests after an addition, or can be seen to be closed.\<close>

lemma add_order_tracked:
  assumes b: "book_inv b" and l: "linked b p" and a: "add_order oid cid sz pr buy ty b = Inr (r, b')"
  shows "linked b' p \<or> order_size (object (store (order_pool b') ! p)) = 0"
proof (cases r)
  case None
  with a add_order_None(2) [OF b] have "b' = b" by blast
  with l show ?thesis by simp
next
  case (Some f)
  note af = a [unfolded Some]
  have p: "p < length (store (order_pool b))" "p \<notin> set (sb_free (view b))"
    using linked_in_use [OF b l] by (simp_all add: in_use_def pool_cap_def)
  have flag: "\<not> is_free_or_in_use (store (order_pool b) ! p)"
    using book_invD [OF b] p by (auto simp: book_repr_def pool_repr_def)
  have pb: "p \<in> book_slots (view b)" using l linked_iff [OF b] by simp
  obtain m A2 fs where fr: "sb_free (view b) = f # fs" and b': "book_inv b'"
    by (rule add_order_outcome [OF b af]) blast
  have fp: "f \<noteq> p" using free_not_linked(1) [OF b, of f] fr pb by auto
  show ?thesis
  proof (cases "is_free_or_in_use (store (order_pool b') ! p)")
    case True
    then show ?thesis using add_order_worn(1) [OF af] p(1) flag fp by (auto simp: worn_def)
  next
    case False
    have cap: "pool_cap (order_pool b') = pool_cap (order_pool b)" using a by (rule add_order_cap)
    then have p': "p < pool_cap (order_pool b')" using p(1) by (simp add: pool_cap_def)
    then have "p \<notin> set (sb_free (view b'))"
      using False book_invD [OF b'] by (auto simp: book_repr_def pool_repr_def pool_cap_def)
    moreover have "p \<notin> stranded b" using pb by (simp add: stranded_def)
    then have "p \<notin> stranded b'" using add_order_stranded [OF b af] fp by (auto split: if_splits)
    ultimately have "p \<in> book_slots (view b')" using p' by (simp add: stranded_def)
    then show ?thesis using linked_iff [OF b'] by simp
  qed
qed

lemma add_order_new_tracked:
  assumes b: "book_inv b" and a: "add_order oid cid sz pr buy ty b = Inr (Some f, b')"
  shows "linked b' f \<longleftrightarrow> order_size (object (store (order_pool b') ! f)) \<noteq> 0"
    and "sb_free (view b) \<noteq> []" and "f \<notin> book_slots (view b)"
proof -
  obtain m A2 fs where fr: "sb_free (view b) = f # fs" and b': "book_inv b'" and lk: "linked b' f \<longleftrightarrow> m < sz"
    and full: "\<not> m < sz \<Longrightarrow> \<exists>ord. last (book_log b') = Fully_Matched ord"
    by (rule add_order_outcome [OF assms]) blast
  from fr show "sb_free (view b) \<noteq> []" by simp
  show "f \<notin> book_slots (view b)" using free_not_linked(1) [OF b, of f] fr by simp
  have f: "f < length (store (order_pool b))"
    using free_not_linked(2) [OF b, of f] fr by (simp add: pool_cap_def)
  show "linked b' f \<longleftrightarrow> order_size (object (store (order_pool b') ! f)) \<noteq> 0"
  proof
    assume "linked b' f"
    with b' obtain es where es: "std_find (sb_side (is_buy_side (order_at b' f)) (view b')) (price (order_at b' f)) = Some es"
      "(f, order_at b' f) \<in> set es" by (rule linked_level)
    have "order_size (order_at b' f) \<noteq> 0"
      using book_repr_wf [OF book_invD [OF b']] std_find_Some_in [OF es(1)] es(2)
      unfolding book_wf_def by fastforce
    then show "order_size (object (store (order_pool b') ! f)) \<noteq> 0" by (simp add: order_at_def)
  next
    assume "order_size (object (store (order_pool b') ! f)) \<noteq> 0"
    with add_order_worn(2) [OF a f] full lk show "linked b' f" by blast
  qed
qed

lemma linked_size:
  assumes b: "book_inv b" and l: "linked b p"
  shows "order_size (object (store (order_pool b) ! p)) \<noteq> 0"
proof -
  obtain es where es: "std_find (sb_side (is_buy_side (order_at b p)) (view b)) (price (order_at b p)) = Some es"
    "(p, order_at b p) \<in> set es" using b l by (rule linked_level)
  have "order_size (order_at b p) \<noteq> 0"
    using book_repr_wf [OF book_invD [OF b]] std_find_Some_in [OF es(1)] es(2)
    unfolding book_wf_def by fastforce
  then show ?thesis by (simp add: order_at_def)
qed

lemma add_order_slots:
  assumes b: "book_inv b" and a: "add_order oid cid sz pr buy ty b = Inr (Some f, b')"
  shows "book_slots (view b') \<subseteq> insert f (book_slots (view b))"
    and "length (sb_free (view b)) \<le> Suc (length (sb_free (view b')))"
proof -
  obtain m A2 fs where fr: "sb_free (view b) = f # fs"
    and m: "spec_match buy pr sz ty 0 ((view b)\<lparr>sb_free := fs,
       sb_log := sb_log (view b) @ [Incoming (mk_order oid cid (sb_symbol (view b)) sz pr buy ty)]\<rparr>) = (m, A2)"
    and side: "\<forall>s. sb_side s (view b') = (if m < sz \<and> s = buy
       then spec_rest pr (f, snd (decrease_size m (mk_order oid cid (sb_symbol (view b)) sz pr buy ty))) (sb_side s A2)
       else sb_side s A2)"
    and free: "sb_free (view b') = sb_free A2"
    by (rule add_order_outcome [OF assms]) blast
  obtain cl where cl: "sb_free A2 = rev cl @ fs" "book_slots (view b) = set cl \<union> book_slots A2"
    using m by (rule spec_match_slots) simp
  have own: "sb_side buy A2 = sb_side buy (view b)" using m by (rule spec_match_sweep) simp
  have "std_sorted (sb_side buy (view b))" using book_repr_wf [OF book_invD [OF b]] by (simp add: book_wf_def)
  then have "book_slots (view b') \<subseteq> insert f (book_slots A2)"
    using side own by (auto simp: book_slots_sides [of _ buy] side_slots_spec_rest split: if_splits)
  with cl(2) show "book_slots (view b') \<subseteq> insert f (book_slots (view b))" by auto
  show "length (sb_free (view b)) \<le> Suc (length (sb_free (view b')))"
    unfolding free cl(1) fr by simp
qed

text \<open>A cancellation changes no field of any element but the links and the id, which the free list overlays.\<close>

lemma cancel_order_keeps:
  assumes "cancel_order (Some p) b = Inr b'" and "i < pool_cap (order_pool b)"
    and f: "\<And>ord. f (core ord) = f ord" "\<And>w ord. f (ord\<lparr>order_id := w\<rparr>) = f ord"
  shows "f (object (store (order_pool b') ! i)) = f (object (store (order_pool b) ! i))"
proof -
  obtain ord :: order and b1 pool where rl: "remove_from_level (is_buy_side ord) (price ord) (Some p) b = Inr b1"
    and de: "deallocate order_overlay (Some p) (order_pool b1) = Inr pool" and b': "order_pool b' = pool"
  proof -
    have "\<exists>(ord :: order) b1. remove_from_level (is_buy_side ord) (price ord) (Some p) b = Inr b1 \<and>
        deallocate order_overlay (Some p) (order_pool b1) = Inr (order_pool b')"
      using assms(1) by (auto simp: cancel_order_def Let_def rbind_eq_Inr) blast
    then show thesis using that by blast
  qed
  have c: "store_core (store (order_pool b1)) = store_core (store (order_pool b))"
    using rl by (auto simp: remove_from_level_def Let_def rbind_eq_Inr dest!: q_remove_core split: option.splits)
  have i: "i < length (store (order_pool b))" using assms(2) by (simp add: pool_cap_def)
  have "f (object (store (order_pool b1) ! i)) = f (object (store (order_pool b) ! i))"
    using arg_cong [OF store_core_nth(1) [OF c i], of f] by (simp add: f)
  moreover have "f (object (store (order_pool b') ! i)) = f (object (store (order_pool b1) ! i))"
    using de i store_core_length [OF c] unfolding b'
    by (auto simp: deallocate_def set_next_free_of_def order_overlay_def nth_list_update f split: if_splits)
  ultimately show ?thesis by simp
qed

lemma cancel_order_sizes:
  assumes "cancel_order (Some p) b = Inr b'" and "i < pool_cap (order_pool b)"
  shows "order_size (object (store (order_pool b') ! i)) = order_size (object (store (order_pool b) ! i))"
  using assms by (rule cancel_order_keeps) simp_all

end
