(* ===== verification/Book_Hazards.thy ===== *)
theory Book_Hazards
  imports Book_Wear
begin

text \<open>
  Three ways in which the book's contract with its caller is weaker than its comments suggest,
  proved on the model: filled orders use up the pool, cancelling one of them while its price
  still has a level breaks that level, and cancelling an order twice hands its slot out twice.
\<close>

section \<open>Filled orders use up the pool\<close>

text \<open>Rounds of an ask and a bid for the same size at the same price.\<close>

fun trade_rounds :: "nat \<Rightarrow> u32 \<Rightarrow> u64 \<Rightarrow> order_book \<Rightarrow> order_book result" where
  "trade_rounds 0 sz pr b = Inr b"
| "trade_rounds (Suc n) sz pr b =
     rbind (add_order (word_of_nat (2 * n)) 1 sz pr False Limit b) (\<lambda>(_, b1).
     rbind (add_order (word_of_nat (2 * n + 1)) 2 sz pr True Limit b1) (\<lambda>(_, b2).
       trade_rounds n sz pr b2))"

lemma spec_round:
  assumes "sb_bids A = []" "sb_asks A = []" "sb_free A = f1 # f2 # fs" "sz \<noteq> 0"
    and "spec_add o1 c1 sz pr False Limit A = (r1, A1)" and "spec_add o2 c2 sz pr True Limit A1 = (r2, A2)"
  shows "r2 = Some f2" "sb_bids A2 = []" "sb_asks A2 = []" "sb_free A2 = f1 # fs"
proof -
  have z: "(0 :: u32) < sz" using assms(4) by (simp add: word_gt_0)
  have A1: "sb_bids A1 = []" "sb_free A1 = f2 # fs"
    "sb_asks A1 = [(pr, [(f1, mk_order o1 c1 (sb_symbol A) sz pr False Limit)])]"
    using assms z by (auto simp: spec_add_def spec_match_ask_def Let_def set_sb_side_def sb_side_def spec_rest_def
        decrease_size_def mk_order_def)
  then show "r2 = Some f2" "sb_bids A2 = []" "sb_asks A2 = []" "sb_free A2 = f1 # fs"
    using assms(6) z by (auto simp: spec_add_def spec_match_bid_def bid_accepts_def Let_def
        decrease_size_def mk_order_def)
qed

lemma trade_round_view:
  assumes b: "book_inv b" "sb_bids (view b) = []" "sb_asks (view b) = []" "sb_free (view b) = f1 # f2 # fs" and z: "sz \<noteq> 0"
  obtains r1 b1 r2 b2 where "add_order o1 c1 sz pr False Limit b = Inr (r1, b1)"
    "add_order o2 c2 sz pr True Limit b1 = Inr (r2, b2)" "book_inv b2"
    "sb_bids (view b2) = []" "sb_asks (view b2) = []" "sb_free (view b2) = f1 # fs"
proof -
  obtain r1 A1 where s1: "spec_add o1 c1 sz pr False Limit (view b) = (r1, A1)" by fastforce
  obtain r2 A2 where s2: "spec_add o2 c2 sz pr True Limit A1 = (r2, A2)" by fastforce
  obtain b1 where b1: "add_order o1 c1 sz pr False Limit b = Inr (r1, b1)" "book_inv b1" "view b1 = A1"
    using b(1) s1 by (rule add_order_view)
  obtain b2 where b2: "add_order o2 c2 sz pr True Limit b1 = Inr (r2, b2)" "book_inv b2" "view b2 = A2"
    using b1(2) s2 [folded b1(3)] by (rule add_order_view)
  show thesis
    by (rule that [OF b1(1) b2(1,2)]) (use spec_round [OF b(2,3,4) z s1 s2] b2(3) in simp_all)
qed

lemma trade_rounds_free:
  "book_inv b \<Longrightarrow> sb_bids (view b) = [] \<Longrightarrow> sb_asks (view b) = [] \<Longrightarrow> length (sb_free (view b)) = Suc n \<Longrightarrow>
     sz \<noteq> 0 \<Longrightarrow> \<exists>b'. trade_rounds n sz pr b = Inr b' \<and> book_inv b' \<and>
       sb_bids (view b') = [] \<and> sb_asks (view b') = [] \<and> length (sb_free (view b')) = 1"
proof (induction n arbitrary: b)
  case (Suc n)
  obtain f1 f2 fs where fr: "sb_free (view b) = f1 # f2 # fs"
    using Suc.prems(4) by (metis length_Suc_conv)
  obtain r1 b1 r2 b2 where s: "add_order (word_of_nat (2 * n)) 1 sz pr False Limit b = Inr (r1, b1)"
    "add_order (word_of_nat (2 * n + 1)) 2 sz pr True Limit b1 = Inr (r2, b2)" "book_inv b2"
    "sb_bids (view b2) = []" "sb_asks (view b2) = []" "sb_free (view b2) = f1 # fs"
    using Suc.prems(1-3) fr Suc.prems(5) by (rule trade_round_view)
  have "length (sb_free (view b2)) = Suc n" using Suc.prems(4) fr s(6) by simp
  from Suc.IH [OF s(3-5) this Suc.prems(5)] s(1,2) show ?case by simp
qed simp

text \<open>
  C28: A pool of \<open>n\<close> slots survives \<open>n - 1\<close> trades. After that many rounds of an ask and a bid that
  fill each other, the book is empty, yet one slot is left: the next ask rests in it, and the bid
  that would trade with it gets \<open>nullptr\<close>, then and for ever, although nothing else is on the book.
\<close>

theorem filled_orders_exhaust_pool:
  assumes "n > 0" and "sz \<noteq> 0"
  shows "\<exists>b b1 b2 p. order_book_new sy n = Inr b \<and> trade_rounds (unat n - 1) sz pr b = Inr b1 \<and>
    bid_levels b1 = [] \<and> ask_levels b1 = [] \<and>
    add_order oid cid sz pr False Limit b1 = Inr (Some p, b2) \<and>
    (\<forall>oid' cid' sz' pr' buy ty. add_order oid' cid' sz' pr' buy ty b2 = Inr (None, b2))"
proof -
  obtain b where b: "order_book_new sy n = Inr b" "book_inv b" "view b = spec_new sy (unat n)"
    using assms(1) by (rule order_book_new_view)
  have "unat n = Suc (unat n - 1)" using assms(1) by (simp add: unat_gt_0)
  then have "length (sb_free (view b)) = Suc (unat n - 1)" using b(3) by (simp add: spec_new_def del: view_simps)
  then obtain b1 where b1: "trade_rounds (unat n - 1) sz pr b = Inr b1" "book_inv b1"
      "sb_bids (view b1) = []" "sb_asks (view b1) = []" "length (sb_free (view b1)) = 1"
    using trade_rounds_free [OF b(2), of "unat n - 1" sz pr] b(3) assms(2) by (auto simp: spec_new_def)
  from b1(5) obtain p where fr: "sb_free (view b1) = [p]" by (auto simp: length_Suc_conv)
  obtain r A2 where sp: "spec_add oid cid sz pr False Limit (view b1) = (r, A2)" by fastforce
  obtain b2 where b2: "add_order oid cid sz pr False Limit b1 = Inr (r, b2)" "book_inv b2" "view b2 = A2"
    using b1(2) sp by (rule add_order_view)
  have "r = Some p" "sb_free (view b2) = []"
    using sp fr b1(3) by (auto simp: b2(3) spec_add_def spec_match_ask_def Let_def split: if_splits simp del: view_simps)
  then have "add_order oid' cid' sz' pr' buy ty b2 = Inr (None, b2)" for oid' cid' sz' pr' buy ty
    using add_order_None(1) [OF b2(2)] by simp
  moreover have "bid_levels b1 = []" "ask_levels b1 = []" using b1(3,4) by (simp_all add: view_def)
  ultimately show ?thesis using b(1) b1(1) b2(1) \<open>r = Some p\<close> by blast
qed

corollary filled_orders_exhaust_pool_sample:
  "\<exists>b b1 b2 p. order_book_new ''SPY'' 1024 = Inr b \<and> trade_rounds (unat (1024 :: size_t) - 1) 100 5000 b = Inr b1 \<and>
    bid_levels b1 = [] \<and> ask_levels b1 = [] \<and>
    add_order 1 1 100 5000 False Limit b1 = Inr (Some p, b2) \<and>
    (\<forall>oid' cid' sz' pr' buy ty. add_order oid' cid' sz' pr' buy ty b2 = Inr (None, b2))"
  by (rule filled_orders_exhaust_pool) simp_all

section \<open>Cancelling a filled order\<close>

lemma q_remove_detached:
  assumes "p < length st" and "list_node (object (st ! p)) = null_node"
  obtains st' where "q_remove order_nodes (Some p) (st, q) = Inr (st', \<lparr>q_head = None, q_tail = None, q_size = q_size q - 1\<rparr>)"
    "length st' = length st"
  by (rule that [of "put_node order_nodes st p null_node"])
     (use assms in \<open>simp_all add: q_remove_def q_unlink_prev_def q_unlink_next_def load_def save_def order_nodes_def\<close>)

lemma match_headless_level:
  assumes "q_head q = None" "q_size q \<noteq> 0" "t < sz"
  shows "match_at_level sz \<lparr>ms_pool = pool, ms_level = q, ms_total = t, ms_log = lg\<rparr> = Inl NullDeref"
  using assms
  by (subst match_at_level.simps) (simp add: match_guard_def q_empty_def match_step_def q_peek_def read_order_def)

lemma headless_not_repr: "q_head q = None \<Longrightarrow> q_size q \<noteq> 0 \<Longrightarrow> \<not> level_repr st q es"
  by (cases es) (auto simp: level_repr_def q_repr_def)

text \<open>
  The cancellation of a stranded order whose price has a level of at least two orders: it returns, the
  level is left without ends, and the slot of the order is the next one to be handed out.
\<close>

lemma cancel_stranded_result:
  assumes "book_inv b" and "in_use b p" and "list_node (object (store (order_pool b) ! p)) = null_node"
    and "std_find (side_levels (is_buy_side (order_at b p)) b) (price (order_at b p)) = Some q"
    and "1 < q_size q"
  obtains b' where "cancel_order (Some p) b = Inr b'"
    "side_levels (is_buy_side (order_at b p)) b' =
       std_assign (price (order_at b p)) \<lparr>q_head = None, q_tail = None, q_size = q_size q - 1\<rparr>
         (side_levels (is_buy_side (order_at b p)) b)"
    "q_size q - 1 \<noteq> 0" "\<And>v. fst (allocate order_overlay (order_pool b') v) = Some p"
proof -
  let ?ord = "object (store (order_pool b) ! p)"
  let ?q' = "\<lparr>q_head = None, q_tail = None, q_size = q_size q - 1\<rparr>"
  have ord: "is_buy_side (order_at b p) = is_buy_side ?ord" "price (order_at b p) = price ?ord"
    by (simp_all add: order_at_def)
  have p: "p < length (store (order_pool b))" using assms(2) by (simp add: in_use_def pool_cap_def)
  obtain st' where rm: "q_remove order_nodes (Some p) (store (order_pool b), q) = Inr (st', ?q')"
    and len: "length st' = length (store (order_pool b))"
    using p assms(3) by (rule q_remove_detached)
  let ?lv = "std_assign (price ?ord) ?q' (side_levels (is_buy_side ?ord) b)"
  let ?b1 = "set_side_levels (is_buy_side ?ord) ?lv (b\<lparr>order_pool := (order_pool b)\<lparr>store := st'\<rparr>\<rparr>)"
  have nz: "q_size q - 1 \<noteq> 0" using assms(5) by auto
  have rl: "remove_from_level (is_buy_side ?ord) (price ?ord) (Some p) b = Inr ?b1"
    using assms(4) rm nz by (simp add: remove_from_level_def ord q_empty_def)
  obtain pool where de: "deallocate order_overlay (Some p) ((order_pool b)\<lparr>store := st'\<rparr>) = Inr pool"
    and pool: "next_free_index pool = word_of_nat p" "length (store pool) = length (store (order_pool b))"
    using p len by (simp add: deallocate_def)
  let ?b' = "?b1\<lparr>book_log := book_log b @ [Cancelled (core (object (st' ! p)))], order_pool := pool\<rparr>"
  have pr: "order_pool ?b1 = (order_pool b)\<lparr>store := st'\<rparr>" "book_log ?b1 = book_log b"
    by (simp_all add: set_side_levels_def)
  have c: "cancel_order (Some p) b = Inr ?b'"
    using p len rl de by (simp add: cancel_order_def read_order_def pr)
  have sl: "side_levels (is_buy_side ?ord) ?b' = ?lv"
    by (simp add: side_levels_def set_side_levels_def)
  have "length (store (order_pool b)) < 2 ^ 64"
    using book_invD [OF assms(1)] by (simp add: book_repr_def pool_repr_def)
  then have "unat (word_of_nat p :: size_t) = p" "\<not> word_of_nat (length (store pool)) \<le> (word_of_nat p :: size_t)"
    using p pool(2) by (simp_all add: unat_word_of_nat word_le_nat_alt)
  then have "fst (allocate order_overlay (order_pool ?b') v) = Some p" for v
    using pool(1) by (simp add: allocate_def Let_def)
  with c sl nz show thesis by (intro that [of ?b']) (simp_all add: ord)
qed

text \<open>
  C29: Cancelling a stranded order while its price still has a level of at least two orders breaks
  the level: its head becomes \<open>nullptr\<close> with orders still counted, so the book is no longer in
  order, and the next match that reaches the level dereferences \<open>nullptr\<close>.
\<close>

theorem cancel_stranded_breaks_level:
  assumes "book_inv b" and "in_use b p" and "list_node (object (store (order_pool b) ! p)) = null_node"
    and "std_find (side_levels (is_buy_side (order_at b p)) b) (price (order_at b p)) = Some q"
    and "1 < q_size q"
  shows "\<exists>b' q'. cancel_order (Some p) b = Inr b' \<and> \<not> book_inv b' \<and>
    std_find (side_levels (is_buy_side (order_at b p)) b') (price (order_at b p)) = Some q' \<and>
    (\<forall>sz t lg. t < sz \<longrightarrow>
      match_at_level sz \<lparr>ms_pool = order_pool b', ms_level = q', ms_total = t, ms_log = lg\<rparr> = Inl NullDeref)"
proof -
  let ?q' = "\<lparr>q_head = None, q_tail = None, q_size = q_size q - 1\<rparr>"
  obtain b' where c: "cancel_order (Some p) b = Inr b'"
    "side_levels (is_buy_side (order_at b p)) b' =
       std_assign (price (order_at b p)) ?q' (side_levels (is_buy_side (order_at b p)) b)"
    and nz: "q_size q - 1 \<noteq> 0"
    using assms by (rule cancel_stranded_result)
  have f: "std_find (side_levels (is_buy_side (order_at b p)) b') (price (order_at b p)) = Some ?q'"
    unfolding c(2) using assms(4) by (simp add: std_find_assign)
  have "\<not> book_inv b'"
  proof
    assume "book_inv b'"
    note r = book_repr_side [OF book_invD [OF this], of "is_buy_side (order_at b p)"]
    from side_repr_find [OF r f] obtain es where
      "lev (store (order_pool b')) (is_buy_side (order_at b p)) (price (order_at b p)) ?q' es" by blast
    then show False using headless_not_repr [of ?q'] nz by (simp add: lev_def)
  qed
  moreover have "\<forall>sz t lg. t < sz \<longrightarrow>
      match_at_level sz \<lparr>ms_pool = order_pool b', ms_level = ?q', ms_total = t, ms_log = lg\<rparr> = Inl NullDeref"
    using match_headless_level [of ?q'] nz by simp
  ultimately show ?thesis using c(1) f by (intro exI [of _ b'] exI [of _ ?q'] conjI)
qed

text \<open>
  An ask of 5 at 101 is filled by a bid of 5, which is stranded in slot 1; bids of 2 and 3 then rest
  at 101, and the client cancels the filled bid.
\<close>

definition build_broken :: "order_book result" where
  "build_broken =
     rbind (order_book_new ''XYZ'' 4) (\<lambda>b.
     rbind (add_order 1 7 5 101 False Limit b) (\<lambda>(_, b).
     rbind (add_order 2 8 5 101 True Limit b) (\<lambda>(_, b).
     rbind (add_order 3 9 2 101 True Limit b) (\<lambda>(_, b).
     rbind (add_order 4 9 3 101 True Limit b) (\<lambda>(_, b). Inr b)))))"

definition stranding_book :: order_book where
  "stranding_book = (case build_broken of Inr b \<Rightarrow> b | Inl _ \<Rightarrow> sample_book)"

lemma stranding_built: "build_broken = Inr stranding_book"
  by code_simp

lemma stranding_inv: "book_inv stranding_book"
  using stranding_built
  by (auto simp: build_broken_def rbind_eq_Inr intro!: reachable_inv) (meson add reachable.intros)

lemma stranding_facts:
  "in_use stranding_book 1" "list_node (object (store (order_pool stranding_book) ! 1)) = null_node"
  "is_buy_side (order_at stranding_book 1)" "price (order_at stranding_book 1) = 101"
  "case std_find (bid_levels stranding_book) 101 of None \<Rightarrow> False | Some q \<Rightarrow> 1 < q_size q"
  by code_simp+

corollary cancel_stranded_breaks_level_sample:
  "\<exists>b'. cancel_order (Some 1) stranding_book = Inr b' \<and> \<not> book_inv b'"
proof -
  obtain q where q: "std_find (bid_levels stranding_book) 101 = Some q" "1 < q_size q"
    using stranding_facts(5) by (auto split: option.splits)
  have f: "std_find (side_levels (is_buy_side (order_at stranding_book 1)) stranding_book)
      (price (order_at stranding_book 1)) = Some q"
    using q(1) stranding_facts(3,4) by (simp add: side_levels_def)
  from cancel_stranded_breaks_level [OF stranding_inv stranding_facts(1,2) f q(2)] show ?thesis by blast
qed










section \<open>Cancelling an order twice\<close>

lemma spec_unlink_last:
  assumes "std_sorted ls" and "std_find ls pr = Some [(p, ord)]"
  shows "std_find (spec_unlink pr p ls) pr = None"
  using assms by (simp add: spec_unlink_def Let_def std_find_erase)

text \<open>The first cancellation empties the level and puts the slot in front of the free list.\<close>

lemma cancel_last_of_level:
  assumes b: "book_inv b" and l: "own_level b p = Some [(p, ord)]"
  obtains b1 where "cancel_order (Some p) b = Inr b1" "book_inv b1" "sb_free (view b1) = p # sb_free (view b)"
    "own_level b1 p = None" "p < pool_cap (order_pool b1)"
proof -
  have lk: "linked b p" using l by (simp add: linked_def)
  obtain b1 where c: "cancel_order (Some p) b = Inr b1"
    and v: "view b1 = spec_cancel p (order_at b p) (view b)"
    using b lk by (rule cancel_linked_view)
  have p: "p < pool_cap (order_pool b)" using linked_in_use [OF b lk] by (simp add: in_use_def)
  have k: "is_buy_side (order_at b1 p) = is_buy_side (order_at b p)" "price (order_at b1 p) = price (order_at b p)"
    using cancel_order_keeps [OF c p, of is_buy_side] cancel_order_keeps [OF c p, of price]
    by (simp_all add: order_at_def)
  have "std_sorted (sb_side (is_buy_side (order_at b p)) (view b))"
    using book_repr_wf [OF book_invD [OF b]] by (simp add: book_wf_def)
  from spec_unlink_last [OF this l [unfolded own_level_def]] have "own_level b1 p = None"
    unfolding own_level_def k v by (simp add: spec_cancel_def)
  with c cancel_linked_slots [OF b lk c] p show thesis
    by (intro that [of b1]) (simp_all add: cancel_order_cap [OF c])
qed

text \<open>The second finds no level, and links the slot to itself.\<close>

lemma cancel_free_slot:
  assumes b: "book_inv b" and fr: "sb_free (view b) = p # fs" and n: "own_level b p = None"
    and p: "p < pool_cap (order_pool b)"
  obtains b' where "cancel_order (Some p) b = Inr b'" "next_free_index (order_pool b') = word_of_nat p"
    "next_free_of order_overlay (store (order_pool b') ! p) = word_of_nat p" "pool_cap (order_pool b') = pool_cap (order_pool b)"
proof -
  let ?ord = "object (store (order_pool b) ! p)"
  have i: "next_free_index (order_pool b) = word_of_nat p"
    using book_invD [OF b] fr by (auto simp: book_repr_def pool_repr_def)
  have "fst ` set (sb_side buy (view b)) = fst ` set (side_levels buy b)" for buy
    by (force simp: side_levels_def sb_side_def view_def)
  with n have "std_find (side_levels (is_buy_side ?ord) b) (price ?ord) = None"
    by (simp add: own_level_def order_at_def std_find_None)
  then have "remove_from_level (is_buy_side ?ord) (price ?ord) (Some p) b = Inr b"
    by (simp add: remove_from_level_def)
  with p i have c: "cancel_order (Some p) b = Inr (b\<lparr>book_log := book_log b @ [Cancelled (core ?ord)],
      order_pool := (order_pool b)\<lparr>store := (store (order_pool b))[p :=
          set_next_free_of order_overlay (word_of_nat p) ((store (order_pool b) ! p)\<lparr>is_free_or_in_use := True\<rparr>)],
        next_free_index := word_of_nat p\<rparr>\<rparr>)"
    by (simp add: cancel_order_def read_order_def deallocate_def pool_cap_def)
  show thesis
    by (rule that [OF c]) (use p in \<open>simp_all add: pool_cap_def set_next_free_of_def next_free_of_def order_overlay_def\<close>)
qed

lemma allocate_self_linked:
  assumes "next_free_index pool = word_of_nat p" and "next_free_of order_overlay (store pool ! p) = word_of_nat p"
    and "p < pool_cap pool" "pool_cap pool < 2 ^ 64"
  shows "fst (allocate order_overlay pool v) = Some p"
    "next_free_index (snd (allocate order_overlay pool v)) = word_of_nat p"
    "fst (allocate order_overlay (snd (allocate order_overlay pool v)) w) = Some p"
    "next_free_index (snd (allocate order_overlay (snd (allocate order_overlay pool v)) w)) = order_id v"
proof -
  have u: "unat (word_of_nat p :: size_t) = p" using assms(3,4) by (intro unat_word_of_nat) simp
  have "\<not> word_of_nat (length (store pool)) \<le> (word_of_nat p :: size_t)"
    using assms(3,4) u by (simp add: word_le_nat_alt unat_word_of_nat pool_cap_def)
  with assms u show "fst (allocate order_overlay pool v) = Some p"
    "next_free_index (snd (allocate order_overlay pool v)) = word_of_nat p"
    "fst (allocate order_overlay (snd (allocate order_overlay pool v)) w) = Some p"
    "next_free_index (snd (allocate order_overlay (snd (allocate order_overlay pool v)) w)) = order_id v"
    by (simp_all add: allocate_def Let_def next_free_of_def order_overlay_def pool_cap_def)
qed

text \<open>
  C31: Cancelling the same order twice. When the order was the last one of its level, the second
  \<open>cancelOrder\<close> returns normally and gives its slot back a second time. The next order that is
  added takes the slot, the pool hands the same slot out again to the one after it, and then
  reads the id of the first of them as the index of its next free element.
\<close>

theorem double_cancel_aliases:
  assumes "book_inv b" and "own_level b p = Some [(p, ord)]"
  shows "\<exists>b1 b2. cancel_order (Some p) b = Inr b1 \<and> cancel_order (Some p) b1 = Inr b2 \<and>
    (\<forall>oid cid sz pr buy ty r b3. add_order oid cid sz pr buy ty b2 = Inr (r, b3) \<longrightarrow> r = Some p) \<and>
    (\<forall>v w. case allocate order_overlay (order_pool b2) v of (r, pool) \<Rightarrow>
       r = Some p \<and> fst (allocate order_overlay pool w) = Some p \<and>
       next_free_index (snd (allocate order_overlay pool w)) = order_id v)"
proof -
  obtain b1 where b1: "cancel_order (Some p) b = Inr b1" "book_inv b1" "sb_free (view b1) = p # sb_free (view b)"
    "own_level b1 p = None" "p < pool_cap (order_pool b1)"
    using assms by (rule cancel_last_of_level)
  obtain b2 where c: "cancel_order (Some p) b1 = Inr b2" and s: "next_free_index (order_pool b2) = word_of_nat p"
    "next_free_of order_overlay (store (order_pool b2) ! p) = word_of_nat p" "pool_cap (order_pool b2) = pool_cap (order_pool b1)"
    using b1(2,3,4,5) by (rule cancel_free_slot)
  have "pool_cap (order_pool b1) < 2 ^ 64"
    using book_invD [OF b1(2)] by (simp add: book_repr_def pool_repr_def pool_cap_def)
  with b1(5) s have lt: "p < pool_cap (order_pool b2)" "pool_cap (order_pool b2) < 2 ^ 64" by simp_all
  note al = allocate_self_linked [OF s(1,2) lt]
  have "r = Some p" if a: "add_order oid cid sz pr buy ty b2 = Inr (r, b3)" for oid cid sz pr buy ty r b3
  proof -
    let ?v = "mk_order oid cid (book_symbol b2) sz pr buy ty"
    obtain pool where "allocate order_overlay (order_pool b2) ?v = (Some p, pool)"
      using al(1) [of ?v] by (metis prod.collapse)
    with a show ?thesis by (auto simp: add_order_def Let_def rbind_eq_Inr split: if_splits prod.splits)
  qed
  with b1(1) c al show ?thesis by (intro exI [of _ b1] exI [of _ b2]) (simp add: case_prod_unfold)
qed

text \<open>
  The bid of the sample book is the last one of its level. After two cancellations two asks at
  different prices are added: both get its slot, and both levels point to the second of them.
\<close>

definition build_doubled :: "(ptr \<times> ptr \<times> order_book) result" where
  "build_doubled =
     rbind (cancel_order (Some 2) sample_book) (\<lambda>b.
     rbind (cancel_order (Some 2) b) (\<lambda>b.
     rbind (add_order 4 7 5 200 False Limit b) (\<lambda>(r, b).
     rbind (add_order 5 8 6 300 False Limit b) (\<lambda>(r', b). Inr (r, r', b)))))"

lemma doubled_orders:
  "(case build_doubled of
      Inr (r, r', b) \<Rightarrow> r = Some 2 \<and> r' = Some 2 \<and> order_id (order_at b 2) = 5 \<and>
        map (\<lambda>(k, q). (k, q_head q)) (ask_levels b) = [(101, Some 0), (102, Some 1), (200, Some 2), (300, Some 2)]
    | Inl _ \<Rightarrow> False)"
  by code_simp

lemma sample_last: "own_level sample_book 2 = Some [(2, order_at sample_book 2)]"
  by code_simp

corollary double_cancel_aliases_sample:
  "\<exists>b1 b2. cancel_order (Some 2) sample_book = Inr b1 \<and> cancel_order (Some 2) b1 = Inr b2 \<and>
    fst (allocate order_overlay (order_pool b2) (order_at sample_book 2)) = Some 2"
proof -
  from double_cancel_aliases [OF sample_inv sample_last] show ?thesis
    by (metis (mono_tags, lifting) case_prod_unfold)
qed

end
