(* ===== verification/Book_Ledger.thy ===== *)
theory Book_Ledger
  imports Book_Wear
begin

text \<open>
  The log as a ledger. Over a whole history of a client that adds and cancels orders, the
  quantities that the log shows as entered, traded and withdrawn on a side account for what rests
  on that side.
\<close>

section \<open>Reading the log\<close>

fun event_entered :: "bool \<Rightarrow> event \<Rightarrow> nat" where
  "event_entered buy (Incoming ord) = (if is_buy_side ord = buy then unat (order_size ord) else 0)"
| "event_entered buy _ = 0"

fun event_withdrawn :: "bool \<Rightarrow> event \<Rightarrow> nat" where
  "event_withdrawn buy (Cancelled ord) = (if is_buy_side ord = buy then unat (order_size ord) else 0)"
| "event_withdrawn buy _ = 0"

definition entered :: "bool \<Rightarrow> event list \<Rightarrow> nat" where
  "entered buy ev = sum_list (map (event_entered buy) ev)"

definition withdrawn :: "bool \<Rightarrow> event list \<Rightarrow> nat" where
  "withdrawn buy ev = sum_list (map (event_withdrawn buy) ev)"

lemma ledger_simps [simp]:
  "entered buy [] = 0" "entered buy (e # ev) = event_entered buy e + entered buy ev"
  "entered buy (ev @ ev') = entered buy ev + entered buy ev'"
  "withdrawn buy [] = 0" "withdrawn buy (e # ev) = event_withdrawn buy e + withdrawn buy ev"
  "withdrawn buy (ev @ ev') = withdrawn buy ev + withdrawn buy ev'"
  by (simp_all add: entered_def withdrawn_def)

text \<open>Matching itself neither enters nor withdraws.\<close>

lemma spec_level_ledger:
  "spec_level sz t es = (es', t', cl, ev) \<Longrightarrow> entered buy ev = 0 \<and> withdrawn buy ev = 0"
  by (induction sz t es arbitrary: es' t' cl ev rule: spec_level.induct) (auto split: prod.splits if_splits)

lemma spec_sweep_ledger:
  "spec_sweep ok sz t ls = (ls', t', cl, ev) \<Longrightarrow> entered buy ev = 0 \<and> withdrawn buy ev = 0"
proof (induction ok sz t ls arbitrary: ls' t' cl ev rule: spec_sweep.induct)
  case (2 ok sz t k es ls)
  obtain es1 t1 cl1 ev1 where sl: "spec_level sz t es = (es1, t1, cl1, ev1)" by (metis prod_cases4)
  note L = spec_level_ledger [OF sl, of buy]
  show ?case
  proof (cases "t < sz \<and> ok k \<and> es1 = []")
    case False
    with "2.prems" sl L show ?thesis by (auto split: if_splits)
  next
    case True
    obtain ls2 t2 cl2 ev2 where sw: "spec_sweep ok sz t1 ls = (ls2, t2, cl2, ev2)" by (metis prod_cases4)
    have "entered buy ev2 = 0 \<and> withdrawn buy ev2 = 0"
      using "2.IH" [OF _ sl [symmetric] refl refl _ sw] True by simp
    with "2.prems" sl sw True L show ?thesis by auto
  qed
qed simp

section \<open>What one operation adds to the ledger\<close>

definition balanced :: "bool \<Rightarrow> order_book \<Rightarrow> bool" where
  "balanced buy b \<longleftrightarrow> entered buy (book_log b) =
     book_qty buy (view b) + traded (book_log b) + withdrawn buy (book_log b)"

lemma add_order_ledger:
  assumes b: "book_inv b" and a: "add_order oid cid sz pr buy ty b = Inr (Some f, b')" and bal: "\<forall>s. balanced s b"
  shows "balanced s b'"
proof -
  let ?A = "view b" and ?ord = "mk_order oid cid (sb_symbol (view b)) sz pr buy ty"
  let ?d = "min (unat sz) (depth (accepts buy ty pr) (facing buy (view b)))"
  obtain r A' where sp: "spec_add oid cid sz pr buy ty ?A = (r, A')" by fastforce
  obtain b1 where "add_order oid cid sz pr buy ty b = Inr (r, b1)" "view b1 = A'"
    using b sp by (rule add_order_view)
  with a have v: "view b' = A'" by simp
  have wf: "book_wf ?A" by (rule book_repr_wf [OF book_invD [OF b]])
  obtain fs where fr: "sb_free ?A = f # fs"
    using b a by (rule add_order_outcome) blast
  obtain m A2 where m: "spec_match buy pr sz ty 0 (?A\<lparr>sb_free := fs, sb_log := sb_log ?A @ [Incoming ?ord]\<rparr>) = (m, A2)"
    and A': "A' = (if m < sz
       then set_sb_side buy (spec_rest pr (f, snd (decrease_size m ?ord)) (sb_side buy A2))
              (A2\<lparr>sb_log := sb_log A2 @ [Resting (snd (decrease_size m ?ord))]\<rparr>)
       else A2\<lparr>sb_log := sb_log A2 @ [Fully_Matched (snd (decrease_size m ?ord))]\<rparr>)"
    using sp fr by (rule spec_add_cases) blast
  obtain cl ev where sw: "spec_sweep (accepts buy ty pr) sz 0
      (facing buy (?A\<lparr>sb_free := fs, sb_log := sb_log ?A @ [Incoming ?ord]\<rparr>)) = (facing buy A2, m, cl, ev)"
    and lg: "sb_log A2 = sb_log (?A\<lparr>sb_free := fs, sb_log := sb_log ?A @ [Incoming ?ord]\<rparr>) @ ev"
    using m by (rule spec_match_sweep)
  have md: "unat m = ?d" using spec_match_trades(1) [OF m] wf by simp
  have "traded ev = unat m" using spec_sweep_traded [OF sw word_zero_le] by simp
  then have tr: "traded (book_log b') = traded (book_log b) + ?d"
    using arg_cong [OF v, of sb_log] lg md by (auto simp: A' split: if_splits)
  have ev: "entered s ev = 0" "withdrawn s ev = 0" using spec_sweep_ledger [OF sw] by auto
  have "entered s (book_log b') = entered s (book_log b) + (if s = buy then unat sz else 0)"
    and wd: "withdrawn s (book_log b') = withdrawn s (book_log b)"
    using arg_cong [OF v, of sb_log] lg ev by (auto simp: A' split: if_splits)
  moreover note spec_add_quantities [OF wf fr sp] spec [OF bal, of s]
  ultimately show ?thesis
    unfolding balanced_def tr wd v by (cases "s = buy") auto
qed

lemma cancel_linked_ledger:
  assumes b: "book_inv b" and l: "linked b p" and c: "cancel_order (Some p) b = Inr b'" and bal: "balanced s b"
  shows "balanced s b'"
proof -
  let ?ord = "order_at b p"
  have v: "view b' = spec_cancel p ?ord (view b)"
    using b l by (rule cancel_linked_view) (use c in simp)
  have lg: "book_log b' = book_log b @ [Cancelled ?ord]"
    using arg_cong [OF v, of sb_log] by (simp add: spec_cancel_def)
  have "book_qty s (view b') + (if s = is_buy_side ?ord then unat (order_size ?ord) else 0) = book_qty s (view b)"
    using cancel_linked_quantities [OF b l c] by (cases "s = is_buy_side ?ord") auto
  with bal show ?thesis by (auto simp: balanced_def lg)
qed

text \<open>A stranded order shows size 0, so withdrawing it changes no balance.\<close>

definition strands_closed :: "order_book \<Rightarrow> bool" where
  "strands_closed b \<longleftrightarrow> (\<forall>p \<in> stranded b. order_size (object (store (order_pool b) ! p)) = 0)"

lemma cancel_stranded_ledger:
  assumes b: "book_inv b" and u: "in_use b p" "own_level b p = None" and c: "cancel_order (Some p) b = Inr b'"
    and z: "strands_closed b" and bal: "balanced s b"
  shows "balanced s b'"
proof -
  have v: "view b' = (view b)\<lparr>sb_free := p # sb_free (view b), sb_log := sb_log (view b) @ [Cancelled (order_at b p)]\<rparr>"
    using b u by (rule cancel_unlinked_view) (use c in simp)
  have "\<not> linked b p" using u(2) by (simp add: linked_def)
  then have "p \<in> stranded b" using u(1) linked_iff [OF b] by (simp add: stranded_def in_use_def)
  with z have "order_size (order_at b p) = 0" by (simp add: strands_closed_def order_at_def)
  moreover have "book_log b' = book_log b @ [Cancelled (order_at b p)]" using arg_cong [OF v, of sb_log] by simp
  ultimately show ?thesis using bal by (simp add: balanced_def v del: view_simps)
qed

lemma add_order_strands_closed:
  assumes b: "book_inv b" and a: "add_order oid cid sz pr buy ty b = Inr (Some f, b')" and z: "strands_closed b"
  shows "strands_closed b'"
  unfolding strands_closed_def
proof
  fix p assume p: "p \<in> stranded b'"
  let ?size = "\<lambda>b. order_size (object (store (order_pool b) ! p))"
  have b': "book_inv b'" using b a by (rule add_order_outcome)
  show "?size b' = 0"
  proof (cases "p = f")
    case True
    with p have "\<not> linked b' f" using linked_iff [OF b'] by (simp add: stranded_def)
    with add_order_new_tracked(1) [OF b a] True show ?thesis by simp
  next
    case False
    with p have pb: "p \<in> stranded b" using add_order_stranded [OF b a] by (auto split: if_splits)
    then have "p < length (store (order_pool b))" by (simp add: stranded_def pool_cap_def)
    then have "?size b' \<le> ?size b" using add_order_worn(1) [OF a] False by (auto simp: worn_def)
    with pb z show ?thesis by (simp add: strands_closed_def)
  qed
qed

lemma cancel_order_strands_closed:
  assumes "book_inv b" and "may_cancel b p" and "cancel_order (Some p) b = Inr b'" and "strands_closed b"
  shows "strands_closed b'"
proof -
  have "stranded b' \<subseteq> stranded b"
    using cancel_linked_slots(2) [OF assms(1) _ assms(3)] cancel_stranded_slots(2) [OF assms(1) _ _ assms(3)] assms(2)
    by (auto simp: may_cancel_def)
  moreover have "p < pool_cap (order_pool b)" if "p \<in> stranded b" for p using that by (simp add: stranded_def)
  ultimately show ?thesis
    using assms(4) cancel_order_sizes [OF assms(3)] unfolding strands_closed_def by (metis subsetD)
qed

section \<open>Histories of a client\<close>

text \<open>A client that only adds orders and cancels the ones it may cancel.\<close>

inductive client_history :: "order_book \<Rightarrow> bool" where
  fresh: "order_book_new sy n = Inr b \<Longrightarrow> client_history b"
| submit: "client_history b \<Longrightarrow> add_order oid cid sz pr buy ty b = Inr (r, b') \<Longrightarrow> client_history b'"
| withdraw: "client_history b \<Longrightarrow> may_cancel b p \<Longrightarrow> cancel_order (Some p) b = Inr b' \<Longrightarrow> client_history b'"

lemma client_history_reachable: "client_history b \<Longrightarrow> reachable b"
  by (induction rule: client_history.induct) (blast intro: reachable.intros book_step.intros)+

lemma new_ledger:
  assumes "order_book_new sy n = Inr b"
  shows "balanced s b" "strands_closed b"
proof -
  have n: "n > 0" using assms by (auto simp: order_book_new_def mem_pool_new_def rbind_eq_Inr word_gt_0 split: if_splits)
  have v: "view b = spec_new sy (unat n)" by (rule order_book_new_view [OF n, of sy]) (use assms in simp)
  have "book_log b = []" using arg_cong [OF v, of sb_log] by (simp add: spec_new_def)
  then show "balanced s b" by (simp add: balanced_def v spec_new_def book_qty_def sb_side_def del: view_simps)
  obtain pool where pool: "mem_pool_new order_overlay zero_order n = Inr pool" "pool_cap pool = unat n"
    by (rule om.mem_pool_new_repr [OF n, of zero_order]) (rule that)
  have "order_pool b = pool" using assms unfolding order_book_new_def pool(1) by auto
  then have "pool_cap (order_pool b) = unat n" using pool(2) by simp
  then have "stranded b = {}" by (auto simp: stranded_def v spec_new_def simp del: view_simps)
  then show "strands_closed b" by (simp add: strands_closed_def)
qed

lemma client_history_ledger: "client_history b \<Longrightarrow> (\<forall>s. balanced s b) \<and> strands_closed b"
proof (induction rule: client_history.induct)
  case (fresh sy n b)
  then show ?case using new_ledger by blast
next
  case (submit b oid cid sz pr buy ty r b')
  note inv = reachable_inv [OF client_history_reachable [OF submit.hyps(1)]]
  show ?case
  proof (cases r)
    case None
    with submit.hyps(2) add_order_None(2) [OF inv] have "b' = b" by blast
    with submit.IH show ?thesis by simp
  next
    case (Some f)
    with submit.hyps(2) have a: "add_order oid cid sz pr buy ty b = Inr (Some f, b')" by simp
    with submit.IH add_order_ledger [OF inv a] add_order_strands_closed [OF inv a] show ?thesis by blast
  qed
next
  case (withdraw b p b')
  note inv = reachable_inv [OF client_history_reachable [OF withdraw.hyps(1)]]
  from withdraw.IH withdraw.hyps(2) show ?case
    using cancel_linked_ledger [OF inv _ withdraw.hyps(3)] cancel_stranded_ledger [OF inv _ _ withdraw.hyps(3)]
      cancel_order_strands_closed [OF inv withdraw.hyps(2,3)]
    by (auto simp: may_cancel_def)
qed

text \<open>
  C10: The log is a ledger. Over any history of additions and permitted cancellations, on each side
  the quantity that entered (the sizes of the \<open>(Incoming)\<close> lines of that side) is the quantity that
  rests there plus the quantity traded (the amounts of all \<open>(Matched ...)\<close> lines) plus the quantity
  withdrawn (the sizes of its \<open>(Cancelled)\<close> lines), exactly, as unbounded numbers.
\<close>

theorem log_is_ledger:
  assumes "client_history b"
  shows "entered buy (book_log b) = book_qty buy (view b) + traded (book_log b) + withdrawn buy (book_log b)"
  using client_history_ledger [OF assms] by (simp add: balanced_def)

text \<open>The sample book, after a bid that trades at two prices and rests, and after a cancellation.\<close>

definition build_history :: "order_book result" where
  "build_history =
     rbind (build_book 8) (\<lambda>b.
     rbind (add_order 4 7 9 102 True Limit b) (\<lambda>(_, b).
     rbind (cancel_order (Some 2) b) (\<lambda>b. Inr b)))"

definition history_book :: order_book where
  "history_book = (case build_history of Inr b \<Rightarrow> b | Inl _ \<Rightarrow> sample_book)"

lemma history_built: "build_history = Inr history_book"
  by code_simp

lemma history_may_cancel:
  "case build_book 8 of Inr b \<Rightarrow> (case add_order 4 7 9 102 True Limit b of Inr (_, b) \<Rightarrow> may_cancel b 2 | _ \<Rightarrow> False) | _ \<Rightarrow> False"
  by code_simp

lemma history_client: "client_history history_book"
proof -
  obtain b0 r b1 where b0: "build_book 8 = Inr b0" and b1: "add_order 4 7 9 102 True Limit b0 = Inr (r, b1)"
    and c: "cancel_order (Some 2) b1 = Inr history_book"
    using history_built by (auto simp: build_history_def rbind_eq_Inr)
  have "client_history b0"
    using b0 by (auto simp: build_book_def rbind_eq_Inr) (meson client_history.intros)
  then have "client_history b1" using b1 by (rule submit)
  then show ?thesis by (rule withdraw [OF _ _ c]) (use history_may_cancel b0 b1 in simp)
qed

text \<open>8 asks and 13 bids entered, 8 traded, 4 of the bids withdrawn; a bid of 1 rests.\<close>

lemma history_numbers:
  "entered True (book_log history_book) = 13" "traded (book_log history_book) = 8"
  "withdrawn True (book_log history_book) = 4"
  by code_simp+

corollary log_is_ledger_sample:
  "book_qty True (view history_book) = 1"
  using log_is_ledger [OF history_client, of True] history_numbers by simp

end
