(* ===== verification/Book_Lifecycle.thy ===== *)
theory Book_Lifecycle
  imports Book_Ledger
begin

text \<open>
  The life of an order as its client sees it: a market order that finds enough quantity empties the
  facing side, an order that trades with nothing can be taken back without a trace, and whatever
  rests on a level of a reachable book is an order of that level.
\<close>

section \<open>Levels without quantity\<close>

lemma book_wf_level:
  assumes "book_wf A" and "(k, es) \<in> set (sb_side buy A)"
  shows "es \<noteq> []" "(p, ord) \<in> set es \<Longrightarrow> price ord = k \<and> is_buy_side ord = buy \<and> order_size ord \<noteq> 0"
  using assms unfolding book_wf_def by fast+

lemma wf_no_quantity:
  assumes "book_wf A" and "book_qty buy A = 0"
  shows "sb_side buy A = []"
proof (rule ccontr)
  assume "sb_side buy A \<noteq> []"
  then obtain k es ls where s: "sb_side buy A = (k, es) # ls" by (cases "sb_side buy A") auto
  then have l: "(k, es) \<in> set (sb_side buy A)" by simp
  obtain p ord es' where "es = (p, ord) # es'" using book_wf_level(1) [OF assms(1) l] by (cases es) auto
  moreover from this have "order_size ord \<noteq> 0" using book_wf_level(2) [OF assms(1) l, of p ord] by simp
  ultimately have "es = (p, ord) # es'" "order_size ord \<noteq> 0" by blast+
  with s assms(2) show False by (simp add: book_qty_def unat_eq_zero)
qed

lemma depth_all: "\<forall>l \<in> set ls. ok (fst l) \<Longrightarrow> depth ok ls = qty (flat ls)"
  by (induction ls) auto

lemma depth_market: "depth (accepts buy Market pr) (facing buy A) = book_qty (\<not> buy) A"
  by (simp add: depth_all accepts_def bid_accepts_def ask_accepts_def qty_flat_facing)

lemma view_side_empty: "sb_side buy (view b) = [] \<longleftrightarrow> side_levels buy b = []"
  by (simp add: sb_side_def side_levels_def view_def)

text \<open>
  C12: A market order that is at least as large as everything that rests on the facing side takes all
  of it: afterwards that side has no level, whatever the price it was sent with, and the order itself
  rests with exactly what is left, or not at all.
\<close>

theorem market_order_sweeps:
  assumes "book_inv b" and "add_order oid cid sz pr buy Market b = Inr (Some p, b')"
    and "book_qty (\<not> buy) (view b) \<le> unat sz"
  shows "side_levels (\<not> buy) b' = [] \<and>
    book_qty buy (view b') = book_qty buy (view b) + (unat sz - book_qty (\<not> buy) (view b)) \<and>
    (linked b' p \<longleftrightarrow> book_qty (\<not> buy) (view b) < unat sz)"
proof -
  have wf: "book_wf (view b)" by (rule book_repr_wf [OF book_invD [OF assms(1)]])
  obtain r A' where sp: "spec_add oid cid sz pr buy Market (view b) = (r, A')" by fastforce
  have v: "view b' = A'" by (rule add_order_view [OF assms(1) sp]) (use assms(2) in simp)
  obtain m A2 fs where fr: "sb_free (view b) = p # fs"
    and m: "spec_match buy pr sz Market 0 ((view b)\<lparr>sb_free := fs, sb_log := sb_log (view b) @
        [Incoming (mk_order oid cid (sb_symbol (view b)) sz pr buy Market)]\<rparr>) = (m, A2)"
    and b': "book_inv b'" and lk: "linked b' p \<longleftrightarrow> m < sz"
    by (rule add_order_outcome [OF assms(1,2)]) blast
  note q = spec_add_quantities [OF wf fr sp, unfolded depth_market]
  have "book_qty (\<not> buy) (view b') = 0" using q(1) assms(3) v by (simp add: min_absorb2)
  then have e: "side_levels (\<not> buy) b' = []"
    using wf_no_quantity [OF book_repr_wf [OF book_invD [OF b']], of "\<not> buy"] view_side_empty by blast
  have "unat m = book_qty (\<not> buy) (view b)"
    using spec_match_trades(1) [OF m] wf assms(3) by (simp add: depth_market min_absorb2)
  then have "m < sz \<longleftrightarrow> book_qty (\<not> buy) (view b) < unat sz" by (simp add: word_less_nat_alt)
  with e lk q(2) assms(3) v show ?thesis by (simp add: min_absorb2)
qed

lemma sample_depth: "book_qty False (view sample_book) = 8"
  by code_simp

lemma sample_market: "fst (projr (add_order 4 7 10 1 True Market sample_book)) = Some 3"
  by code_simp

corollary market_order_sweeps_sample:
  "\<exists>b'. add_order 4 7 10 1 True Market sample_book = Inr (Some 3, b') \<and> ask_levels b' = [] \<and> linked b' 3"
proof -
  obtain r b' where a: "add_order 4 7 10 1 True Market sample_book = Inr (r, b')"
    using add_order_good [OF reachable_good [OF sample_reachable]] by blast
  with sample_market have r: "add_order 4 7 10 1 True Market sample_book = Inr (Some 3, b')" by simp
  from market_order_sweeps [OF sample_inv r] show ?thesis
    using r by (auto simp: sample_depth side_levels_def)
qed

section \<open>Taking an order back\<close>

lemma spec_unlink_rest:
  assumes "std_sorted ls" and "std_sorted (spec_rest pr (p, ord) ls)"
    and p: "p \<notin> side_slots ls" and ne: "\<forall>(k, es) \<in> set ls. es \<noteq> []"
  shows "spec_unlink pr p (spec_rest pr (p, ord) ls) = ls"
  using assms(1)
proof (cases rule: spec_rest_split [where pr = pr and e = "(p, ord)"])
  case (new l1 l2)
  then have "pr \<notin> fst ` set l1" using std_sorted_distinct [OF assms(2)] by auto
  moreover have "std_find (l1 @ (pr, [(p, ord)]) # l2) pr = Some [(p, ord)]"
    using std_find_iff [OF assms(2) [unfolded new(2)]] by simp
  ultimately show ?thesis using new by (simp add: spec_unlink_def std_erase_append Let_def)
next
  case (old l1 l2 es)
  then have n: "pr \<notin> fst ` set l1" using std_sorted_distinct [OF assms(2)] by auto
  have f: "filter (\<lambda>e. fst e \<noteq> p) es = es" "es \<noteq> []"
    using p ne old(1) by (auto simp: filter_id_conv)
  have "std_find (l1 @ (pr, es @ [(p, ord)]) # l2) pr = Some (es @ [(p, ord)])"
    using std_find_iff [OF assms(2) [unfolded old(2)]] by simp
  with old f n show ?thesis by (simp add: spec_unlink_def std_assign_append Let_def)
qed

lemma spec_sweep_none:
  assumes "depth ok ls = 0" and "\<forall>(k, es) \<in> set ls. es \<noteq> [] \<and> (\<forall>(p, ord) \<in> set es. order_size ord \<noteq> 0)"
  shows "spec_sweep ok sz t ls = (ls, t, [], [])"
proof (cases ls)
  case (Cons l ls')
  obtain k es where l: "l = (k, es)" by fastforce
  with assms(2) Cons obtain p ord es' where "es = (p, ord) # es'" "order_size ord \<noteq> 0" by (cases es) auto
  then have "qty es \<noteq> 0" by (simp add: unat_eq_zero)
  with assms(1) Cons l show ?thesis by (auto split: if_splits)
qed simp

lemma spec_rest_entry:
  assumes "std_sorted ls" and "std_sorted (spec_rest pr e ls)"
  obtains es where "std_find (spec_rest pr e ls) pr = Some es" "e \<in> set es"
  using assms(1)
proof (cases rule: spec_rest_split [where pr = pr and e = e])
  case (new l1 l2)
  then show thesis using std_find_iff [OF assms(2)] by (intro that [of "[e]"]) simp_all
next
  case (old l1 l2 es)
  then show thesis using std_find_iff [OF assms(2)] by (intro that [of "es @ [e]"]) simp_all
qed

lemma spec_book_eqI:
  assumes "sb_symbol A = sb_symbol B" "sb_free A = sb_free B" "\<And>buy. sb_side buy A = sb_side buy B" "sb_log A = sb_log B"
  shows "A = (B :: spec_book)"
  using assms(3) [of True] assms(3) [of False] assms by (simp add: sb_side_def)

lemma spec_symbols:
  "spec_add oid cid sz pr buy ty A = (r, A') \<Longrightarrow> sb_symbol A' = sb_symbol A"
  "spec_match buy pr sz ty t A = (m, A') \<Longrightarrow> sb_symbol A' = sb_symbol A"
  "sb_symbol (spec_cancel p ord A) = sb_symbol A"
  by (auto simp: spec_add_def spec_match_def spec_match_bid_def spec_match_ask_def spec_cancel_def Let_def
      split: list.splits prod.splits if_splits)

text \<open>An order that finds no quantity at an acceptable price only rests.\<close>

lemma add_order_rests:
  assumes b: "book_inv b" and d: "depth (accepts buy ty pr) (facing buy (view b)) = 0" and z: "sz \<noteq> 0"
    and a: "add_order oid cid sz pr buy ty b = Inr (Some p, b')"
  obtains ord where "price ord = pr" "is_buy_side ord = buy" "linked b' p" "book_inv b'"
    "sb_side buy (view b') = spec_rest pr (p, ord) (sb_side buy (view b))"
    "sb_side (\<not> buy) (view b') = sb_side (\<not> buy) (view b)"
    "sb_free (view b) = p # sb_free (view b')" "book_symbol b' = book_symbol b"
proof -
  let ?ord = "mk_order oid cid (sb_symbol (view b)) sz pr buy ty"
  have wf: "book_wf (view b)" by (rule book_repr_wf [OF book_invD [OF b]])
  obtain m A2 fs where fr: "sb_free (view b) = p # fs"
    and m: "spec_match buy pr sz ty 0 ((view b)\<lparr>sb_free := fs, sb_log := sb_log (view b) @ [Incoming ?ord]\<rparr>) = (m, A2)"
    and side: "\<forall>s. sb_side s (view b') = (if m < sz \<and> s = buy
       then spec_rest pr (p, snd (decrease_size m ?ord)) (sb_side s A2) else sb_side s A2)"
    and free: "sb_free (view b') = sb_free A2" and b': "book_inv b'" and lk: "linked b' p \<longleftrightarrow> m < sz"
    by (rule add_order_outcome [OF b a]) blast
  obtain cl ev where sw: "spec_sweep (accepts buy ty pr) sz 0 (facing buy (view b)) = (facing buy A2, m, cl, ev)"
    and fr2: "sb_free A2 = rev cl @ fs" and own: "sb_side buy A2 = sb_side buy (view b)"
    using m by (rule spec_match_sweep) simp
  have "\<forall>(k, es) \<in> set (facing buy (view b)). es \<noteq> [] \<and> (\<forall>(p, ord) \<in> set es. order_size ord \<noteq> 0)"
    using book_wf_level [OF wf] unfolding set_facing by blast
  from spec_sweep_none [OF d this] sw have same: "facing buy A2 = facing buy (view b)" "m = 0" "cl = []" by auto
  have other: "sb_side (\<not> buy) A2 = sb_side (\<not> buy) (view b)"
    using same(1) by (cases buy) (simp_all add: facing_def sb_side_def)
  have z': "0 < sz" using z by (simp add: word_gt_0)
  obtain r A' where sp: "spec_add oid cid sz pr buy ty (view b) = (r, A')" by fastforce
  have v: "view b' = A'" by (rule add_order_view [OF b sp]) (use a in simp)
  have "sb_symbol (view b') = sb_symbol (view b)" using spec_symbols(1) [OF sp] v by simp
  then show thesis
    using side same own other free fr2 fr lk z' b'
    by (intro that [of "snd (decrease_size 0 ?ord)"]) simp_all
qed

text \<open>
  C14: An order that trades with nothing can be taken back without a trace. If no acceptable quantity
  faces it, \<open>addOrder\<close> followed by \<open>cancelOrder\<close> of the pointer it returned leaves the book, levels, queues
  and free list, exactly as it was; only the log is longer.
\<close>

theorem order_taken_back:
  assumes "book_inv b" and "depth (accepts buy ty pr) (facing buy (view b)) = 0" and "sz \<noteq> 0"
    and "add_order oid cid sz pr buy ty b = Inr (Some p, b')"
  shows "\<exists>b''. cancel_order (Some p) b' = Inr b'' \<and> book_inv b'' \<and>
    view b'' = (view b)\<lparr>sb_log := book_log b''\<rparr>"
proof -
  obtain ord where ord: "price ord = pr" "is_buy_side ord = buy" and l: "linked b' p" and b': "book_inv b'"
    and own: "sb_side buy (view b') = spec_rest pr (p, ord) (sb_side buy (view b))"
    and other: "sb_side (\<not> buy) (view b') = sb_side (\<not> buy) (view b)"
    and free: "sb_free (view b) = p # sb_free (view b')" and sym: "book_symbol b' = book_symbol b"
    using assms by (rule add_order_rests)
  have wf: "book_wf (view b)" "book_wf (view b')"
    using book_repr_wf [OF book_invD [OF assms(1)]] book_repr_wf [OF book_invD [OF b']] by blast+
  then have sorted: "std_sorted (sb_side buy (view b))" "std_sorted (spec_rest pr (p, ord) (sb_side buy (view b)))"
    using own by (auto simp: book_wf_def) metis
  obtain es where "std_find (sb_side buy (view b')) pr = Some es" "(p, ord) \<in> set es"
    unfolding own by (rule spec_rest_entry [OF sorted])
  then have at: "order_at b' p = ord" by (rule book_repr_entry(1) [OF book_invD [OF b']])
  obtain b'' where c: "cancel_order (Some p) b' = Inr b''" "book_inv b''"
    and v: "view b'' = spec_cancel p ord (view b')"
    using cancel_linked_view [OF b' l] at by metis
  have "p \<notin> book_slots (view b)" using free_not_linked(1) [OF assms(1), of p] free by simp
  then have "p \<notin> side_slots (sb_side buy (view b))" using book_slots_sides [of "view b" buy] by simp
  moreover have "\<forall>(k, es) \<in> set (sb_side buy (view b)). es \<noteq> []" using book_wf_level(1) [OF wf(1)] by blast
  ultimately have restored: "spec_unlink pr p (sb_side buy (view b')) = sb_side buy (view b)"
    unfolding own by (rule spec_unlink_rest [OF sorted])
  have "sb_side s (view b'') = sb_side s (view b)" for s
    unfolding v spec_cancel_def ord using restored other by (cases "s = buy") auto
  moreover have "sb_free (view b'') = sb_free (view b)" unfolding v spec_cancel_def using free by simp
  moreover have "sb_symbol (view b'') = sb_symbol (view b)" unfolding v spec_symbols(3) using sym by simp
  ultimately have "view b'' = (view b)\<lparr>sb_log := book_log b''\<rparr>"
    by (intro spec_book_eqI) (simp_all del: view_simps, simp)
  with c show ?thesis by blast
qed

lemma sample_no_depth: "depth (accepts True Limit 100) (facing True (view sample_book)) = 0"
  "fst (projr (add_order 4 7 6 100 True Limit sample_book)) = Some 3"
  by code_simp+

corollary order_taken_back_sample:
  "\<exists>b' b''. add_order 4 7 6 100 True Limit sample_book = Inr (Some 3, b') \<and> cancel_order (Some 3) b' = Inr b'' \<and>
    view b'' = (view sample_book)\<lparr>sb_log := book_log b''\<rparr>"
proof -
  obtain r b' where "add_order 4 7 6 100 True Limit sample_book = Inr (r, b')"
    using add_order_good [OF reachable_good [OF sample_reachable]] by blast
  with sample_no_depth(2) have a: "add_order 4 7 6 100 True Limit sample_book = Inr (Some 3, b')" by simp
  from order_taken_back [OF sample_inv sample_no_depth(1) _ a] a show ?thesis by auto
qed

section \<open>What rests on a level\<close>

definition symbols_ok :: "spec_book \<Rightarrow> bool" where
  "symbols_ok A \<longleftrightarrow> (\<forall>buy. \<forall>e \<in> set (flat (sb_side buy A)). symbol (snd e) = sb_symbol A)"

lemma same_but_size_symbol:
  "same_but_size es es' \<Longrightarrow> \<forall>e \<in> set es. symbol (snd e) = sy \<Longrightarrow> \<forall>e \<in> set es'. symbol (snd e) = sy"
  by (fastforce simp: same_but_size_def)

lemma flat_facing: "set (flat (facing buy A)) = set (flat (sb_side (\<not> buy) A))"
  by (simp add: facing_def sb_side_def flat_def)

lemma spec_match_symbols_ok:
  assumes "spec_match buy pr sz ty 0 A = (m, A')" and "symbols_ok A"
  shows "symbols_ok A'"
proof -
  obtain cl ev where sw: "spec_sweep (accepts buy ty pr) sz 0 (facing buy A) = (facing buy A', m, cl, ev)"
    and own: "sb_side buy A' = sb_side buy A" and sy: "sb_symbol A' = sb_symbol A"
    using assms(1) by (rule spec_match_sweep)
  obtain n where "same_but_size (drop n (flat (facing buy A))) (flat (facing buy A'))"
    using spec_sweep_priority [OF sw word_zero_le] by blast
  moreover have "\<forall>e \<in> set (drop n (flat (facing buy A))). symbol (snd e) = sb_symbol A"
    using assms(2) flat_facing [of buy A] set_drop_subset unfolding symbols_ok_def by fast
  ultimately have "\<forall>e \<in> set (flat (facing buy A')). symbol (snd e) = sb_symbol A" by (rule same_but_size_symbol)
  then have "\<forall>e \<in> set (flat (sb_side s A')). symbol (snd e) = sb_symbol A'" for s
    using assms(2) own flat_facing [of buy A'] unfolding symbols_ok_def sy by (cases "s = buy") auto
  then show ?thesis by (simp add: symbols_ok_def)
qed

lemma set_flat_spec_rest:
  assumes "std_sorted ls" shows "set (flat (spec_rest pr e ls)) = insert e (set (flat ls))"
  using assms by (cases rule: spec_rest_split [where pr = pr and e = e]) auto

lemma set_flat_spec_unlink:
  assumes "std_sorted ls" shows "set (flat (spec_unlink pr p ls)) \<subseteq> set (flat ls)"
proof (cases "std_find ls pr")
  case None
  then show ?thesis by (simp add: spec_unlink_def)
next
  case (Some es)
  show ?thesis by (rule spec_unlink_split [OF assms Some, of p]) auto
qed

lemma symbols_ok_frame [simp]:
  "symbols_ok (A\<lparr>sb_free := fs\<rparr>) = symbols_ok A" "symbols_ok (A\<lparr>sb_log := lg\<rparr>) = symbols_ok A"
  by (simp_all add: symbols_ok_def)

lemma set_sb_side_symbols_ok:
  assumes "symbols_ok A" and "\<forall>e \<in> set (flat ls). symbol (snd e) = sb_symbol A"
  shows "symbols_ok (set_sb_side buy ls A)"
proof -
  have "\<forall>e \<in> set (flat (sb_side s (set_sb_side buy ls A))). symbol (snd e) = sb_symbol A" for s
    using assms unfolding symbols_ok_def by (cases "s = buy") auto
  then show ?thesis by (simp add: symbols_ok_def)
qed

lemma spec_add_symbols_ok:
  assumes "spec_add oid cid sz pr buy ty A = (r, A')" and "symbols_ok A" and "book_wf A"
  shows "symbols_ok A'"
proof (cases "sb_free A")
  case Nil
  with assms show ?thesis by (simp add: spec_add_None)
next
  case (Cons f fs)
  let ?ord = "mk_order oid cid (sb_symbol A) sz pr buy ty"
  obtain m A2 where m: "spec_match buy pr sz ty 0 (A\<lparr>sb_free := fs, sb_log := sb_log A @ [Incoming ?ord]\<rparr>) = (m, A2)"
    and A': "A' = (if m < sz
       then set_sb_side buy (spec_rest pr (f, snd (decrease_size m ?ord)) (sb_side buy A2))
              (A2\<lparr>sb_log := sb_log A2 @ [Resting (snd (decrease_size m ?ord))]\<rparr>)
       else A2\<lparr>sb_log := sb_log A2 @ [Fully_Matched (snd (decrease_size m ?ord))]\<rparr>)"
    using assms(1) Cons by (rule spec_add_cases) blast
  have ok: "symbols_ok A2" using spec_match_symbols_ok [OF m] assms(2) by simp
  have sy: "sb_symbol A2 = sb_symbol A" using spec_symbols(2) [OF m] by simp
  have "sb_side buy A2 = sb_side buy A" using m by (rule spec_match_sweep) simp
  then have sorted: "std_sorted (sb_side buy A2)" using assms(3) by (simp add: book_wf_def)
  have "\<forall>e \<in> set (flat (spec_rest pr (f, snd (decrease_size m ?ord)) (sb_side buy A2))). symbol (snd e) = sb_symbol A2"
    unfolding set_flat_spec_rest [OF sorted] using ok sy by (auto simp: symbols_ok_def)
  then show ?thesis using ok by (auto simp: A' intro!: set_sb_side_symbols_ok)
qed

lemma spec_cancel_symbols_ok:
  assumes "symbols_ok A" and "book_wf A"
  shows "symbols_ok (spec_cancel p ord A)"
proof -
  have "std_sorted (sb_side (is_buy_side ord) A)" using assms(2) by (simp add: book_wf_def)
  from set_flat_spec_unlink [OF this, of "price ord" p] assms(1)
  have "symbols_ok (set_sb_side (is_buy_side ord) (spec_unlink (price ord) p (sb_side (is_buy_side ord) A)) A)"
    by (intro set_sb_side_symbols_ok) (auto simp: symbols_ok_def)
  then show ?thesis by (simp add: spec_cancel_def)
qed

text \<open>Every step of a client, on the view.\<close>

lemma book_step_view:
  assumes "book_step b b'" and b: "book_inv b"
  obtains
    (add) oid cid sz pr buy ty r where "spec_add oid cid sz pr buy ty (view b) = (r, view b')"
  | (cancel) p where "linked b p" "view b' = spec_cancel p (order_at b p) (view b)"
  | (give_back) p where "in_use b p" "own_level b p = None"
      "view b' = (view b)\<lparr>sb_free := p # sb_free (view b), sb_log := sb_log (view b) @ [Cancelled (order_at b p)]\<rparr>"
  | (none) "view b' = view b"
  | (trade) buy pr sz ty m where "spec_match buy pr sz ty 0 (view b) = (m, view b')"
  using assms(1)
proof cases
  case (add oid cid sz pr buy ty r)
  obtain r' A' where sp: "spec_add oid cid sz pr buy ty (view b) = (r', A')" by fastforce
  have "view b' = A'" by (rule add_order_view [OF b sp]) (use add in simp)
  with sp that(1) show thesis by blast
next
  case (cancel p)
  show thesis
  proof (cases "linked b p")
    case True
    have "view b' = spec_cancel p (order_at b p) (view b)"
      using b True by (rule cancel_linked_view) (use cancel in simp)
    with True show thesis by (rule that(2))
  next
    case False
    with cancel have u: "in_use b p" "own_level b p = None" by (simp_all add: may_cancel_def)
    have "view b' = (view b)\<lparr>sb_free := p # sb_free (view b), sb_log := sb_log (view b) @ [Cancelled (order_at b p)]\<rparr>"
      using b u by (rule cancel_unlinked_view) (use cancel in simp)
    with u show thesis by (rule that(3))
  qed
next
  case cancel_null
  with that(4) show thesis by (simp add: cancel_order_def)
next
  case (match_bid pr sz ty m)
  obtain m' A' where sp: "spec_match True pr sz ty 0 (view b) = (m', A')" by fastforce
  have "view b' = A'" by (rule match_order_view [OF b sp]) (use match_bid in simp)
  with sp that(5) show thesis by blast
next
  case (match_ask pr sz ty m)
  obtain m' A' where sp: "spec_match False pr sz ty 0 (view b) = (m', A')" by fastforce
  have "view b' = A'" by (rule match_order_view [OF b sp]) (use match_ask in simp)
  with sp that(5) show thesis by blast
qed

lemma new_view:
  assumes "order_book_new sy n = Inr b" shows "view b = spec_new sy (unat n)"
proof -
  have n: "n > 0" using assms by (auto simp: order_book_new_def mem_pool_new_def rbind_eq_Inr word_gt_0 split: if_splits)
  show ?thesis by (rule order_book_new_view [OF n, of sy]) (use assms in simp)
qed

text \<open>An invariant of the view that every step keeps holds in every reachable book.\<close>

lemma reachable_view_induct [consumes 1, case_names start step]:
  assumes "reachable b" and "\<And>sy n. P (spec_new sy n)"
    and "\<And>b b'. book_inv b \<Longrightarrow> book_wf (view b) \<Longrightarrow> book_step b b' \<Longrightarrow> P (view b) \<Longrightarrow> P (view b')"
  shows "P (view b)"
  using assms(1)
proof (induction rule: reachable.induct)
  case (start sy n b)
  then show ?case using new_view assms(2) by simp
next
  case (step b b')
  note b = reachable_inv [OF step.hyps(1)]
  show ?case using assms(3) [OF b book_repr_wf [OF book_invD [OF b]] step.hyps(2) step.IH] .
qed

lemma reachable_symbols_ok: "reachable b \<Longrightarrow> symbols_ok (view b)"
proof (induction rule: reachable_view_induct)
  case (start sy n)
  then show ?case by (simp add: symbols_ok_def spec_new_def sb_side_def)
next
  case (step b b')
  from step(3,1) show ?case
    by (cases rule: book_step_view)
       (use step(2,4) spec_add_symbols_ok spec_cancel_symbols_ok spec_match_symbols_ok in \<open>force simp del: view_simps\<close>)+
qed

lemma view_side_level:
  "(k, q) \<in> set (side_levels buy b) \<Longrightarrow> (k, view_level b q) \<in> set (sb_side buy (view b))"
  by (force simp: side_levels_def sb_side_def view_def split: if_splits)

text \<open>
  C16: What rests on a level. In every reachable book, each order that the \<open>next\<close> pointers of a level reach
  is an element of the pool that is marked in use, and it is an order of that level: its price is the
  key of the level, its side that of the map, its symbol that of the book, and its size is not 0.
\<close>

theorem resting_orders_typed:
  assumes "reachable b" and "(k, q) \<in> set (side_levels buy b)"
    and "p \<in> set (q_walk order_nodes (store (order_pool b)) (unat (q_size q)) (q_head q))"
  shows "p < length (store (order_pool b)) \<and> \<not> is_free_or_in_use (store (order_pool b) ! p) \<and>
    price (order_at b p) = k \<and> is_buy_side (order_at b p) = buy \<and>
    symbol (order_at b p) = book_symbol b \<and> order_size (order_at b p) \<noteq> 0"
proof -
  have b: "book_inv b" by (rule reachable_inv [OF assms(1)])
  have wf: "book_wf (view b)" by (rule book_repr_wf [OF book_invD [OF b]])
  have l: "(k, view_level b q) \<in> set (sb_side buy (view b))" using assms(2) by (rule view_side_level)
  have e: "(p, order_at b p) \<in> set (view_level b q)" using assms(3) by (auto simp: view_level_def)
  have f: "std_find (sb_side buy (view b)) k = Some (view_level b q)"
    using l std_find_iff [of "sb_side buy (view b)" k] wf by (simp add: book_wf_def)
  have p: "p < length (store (order_pool b))" "p \<notin> set (sb_free (view b))"
    using book_repr_entry(4,5) [OF book_invD [OF b] f e] by (simp_all add: pool_cap_def)
  then have "\<not> is_free_or_in_use (store (order_pool b) ! p)"
    using book_invD [OF b] by (auto simp: book_repr_def pool_repr_def)
  moreover have "(p, order_at b p) \<in> set (flat (sb_side buy (view b)))" using l e by (force simp: flat_def)
  then have "symbol (order_at b p) = book_symbol b"
    using reachable_symbols_ok [OF assms(1)] by (fastforce simp: symbols_ok_def)
  ultimately show ?thesis using p(1) book_wf_level(2) [OF wf l e] by blast
qed

lemma sample_level: "map (\<lambda>(k, q). (k, q_walk order_nodes (store (order_pool sample_book)) (unat (q_size q)) (q_head q)))
    (side_levels True sample_book) = [(99, [2])]"
  by code_simp

corollary resting_orders_typed_sample:
  "price (order_at sample_book 2) = 99 \<and> is_buy_side (order_at sample_book 2)"
proof -
  obtain q where "side_levels True sample_book = [(99, q)]"
    "q_walk order_nodes (store (order_pool sample_book)) (unat (q_size q)) (q_head q) = [2]"
    using sample_level by auto
  with resting_orders_typed [OF sample_reachable, of 99 q True 2] show ?thesis by simp
qed

end
