(* ===== verification/Book_Arrival.thy ===== *)
theory Book_Arrival
  imports Book_Lifecycle "HOL-Library.Sublist"
begin

text \<open>
  Time priority over a whole history. \<open>Book_Priority\<close> shows that one match takes the orders of a
  level from its front; here the log says what that front is: on each level of a reachable book
  the orders stand in the order in which the log shows them come in.
\<close>

section \<open>Arrivals\<close>

text \<open>An order without its size, the one field that trading changes.\<close>

definition sizeless :: "order \<Rightarrow> order" where
  "sizeless ord = ord\<lparr>order_size := 0\<rparr>"

fun event_arrival :: "event \<Rightarrow> order list" where
  "event_arrival (Incoming ord) = [sizeless ord]"
| "event_arrival _ = []"

definition arrivals :: "event list \<Rightarrow> order list" where
  "arrivals ev = concat (map event_arrival ev)"

text \<open>The orders that came in for one side at one price.\<close>

definition arrivals_at :: "bool \<Rightarrow> u64 \<Rightarrow> event list \<Rightarrow> order list" where
  "arrivals_at buy k ev = filter (\<lambda>ord. is_buy_side ord = buy \<and> price ord = k) (arrivals ev)"

lemma arrivals_simps [simp]:
  "arrivals [] = []" "arrivals (e # ev) = event_arrival e @ arrivals ev"
  "arrivals (ev @ ev') = arrivals ev @ arrivals ev'"
  by (simp_all add: arrivals_def)

lemma sizeless_simps [simp]:
  "sizeless (ord\<lparr>order_size := s\<rparr>) = sizeless ord"
  "sizeless (snd (decrease_size a ord)) = sizeless ord"
  "order_id (sizeless ord) = order_id ord" "price (sizeless ord) = price ord" "is_buy_side (sizeless ord) = is_buy_side ord"
  by (simp_all add: sizeless_def decrease_size_def Let_def)

abbreviation queued :: "entry list \<Rightarrow> order list" where
  "queued es \<equiv> map (\<lambda>e. sizeless (snd e)) es"

definition in_time :: "event list \<Rightarrow> levels \<Rightarrow> bool" where
  "in_time lg ls \<longleftrightarrow> (\<forall>(k, es) \<in> set ls. subseq (queued es) (arrivals lg))"

lemma in_time_simps [simp]:
  "in_time lg []" "in_time lg ((k, es) # ls) \<longleftrightarrow> subseq (queued es) (arrivals lg) \<and> in_time lg ls"
  "in_time lg (ls @ ls') \<longleftrightarrow> in_time lg ls \<and> in_time lg ls'" "in_time lg (rev ls) = in_time lg ls"
  by (auto simp: in_time_def)

text \<open>More of a log is no harm.\<close>

lemma in_time_more: "in_time lg ls \<Longrightarrow> in_time (lg @ ev) ls"
  by (auto simp: in_time_def intro: subseq_order.order_trans)

section \<open>One operation\<close>

text \<open>Matching leaves the back of a level.\<close>

lemma spec_level_queued:
  "spec_level sz t es = (es', t', cl, ev) \<Longrightarrow> subseq (queued es') (queued es)"
proof (induction sz t es arbitrary: es' t' cl ev rule: spec_level.induct)
  case (2 sz t p ord es)
  obtain m ord' where d: "decrease_size (sz - t) ord = (m, ord')" by fastforce
  then have s: "sizeless ord' = sizeless ord" using sizeless_simps(2) [of "sz - t" ord] by simp
  show ?case
  proof (cases "t < sz \<and> order_size ord' = 0")
    case True
    obtain es1 t1 cl1 ev1 where sl: "spec_level sz (t + m) es = (es1, t1, cl1, ev1)" by (metis prod_cases4)
    with "2.IH" [OF _ d [symmetric] _ sl] "2.prems" True d show ?thesis by auto
  next
    case False
    with "2.prems" d s show ?thesis by (auto split: if_splits)
  qed
qed simp

lemma spec_sweep_in_time:
  "spec_sweep ok sz t ls = (ls', t', cl, ev) \<Longrightarrow> in_time lg ls \<Longrightarrow> in_time lg ls'"
proof (induction ok sz t ls arbitrary: ls' t' cl ev rule: spec_sweep.induct)
  case (2 ok sz t k es ls)
  obtain es1 t1 cl1 ev1 where sl: "spec_level sz t es = (es1, t1, cl1, ev1)" by (metis prod_cases4)
  obtain ls2 t2 cl2 ev2 where sw: "spec_sweep ok sz t1 ls = (ls2, t2, cl2, ev2)" by (metis prod_cases4)
  have es1: "subseq (queued es1) (arrivals lg)"
    using spec_level_queued [OF sl] "2.prems"(2) subseq_order.order_trans by fastforce
  show ?case
  proof (cases "t < sz \<and> ok k \<and> es1 = []")
    case True
    with "2.IH" [OF _ sl [symmetric] refl refl _ sw] "2.prems" sl sw show ?thesis by auto
  next
    case False
    with "2.prems" sl es1 show ?thesis by (auto split: if_splits)
  qed
qed simp

lemma spec_match_in_time:
  assumes "spec_match buy pr sz ty 0 A = (m, A')" and "in_time lg (sb_side s A)"
  shows "in_time lg (sb_side s A')"
proof -
  obtain cl ev where sw: "spec_sweep (accepts buy ty pr) sz 0 (facing buy A) = (facing buy A', m, cl, ev)"
    and own: "sb_side buy A' = sb_side buy A"
    using assms(1) by (rule spec_match_sweep)
  show ?thesis
  proof (cases "s = buy")
    case False
    have "in_time lg (facing buy B) = in_time lg (sb_side (\<not> buy) B)" for B by (simp add: facing_def sb_side_def)
    with spec_sweep_in_time [OF sw, of lg] assms(2) False show ?thesis by (cases s; cases buy) simp_all
  qed (use own assms(2) in simp)
qed

text \<open>A resting order goes to the end of its level, and its arrival is the last one of the log.\<close>

lemma spec_rest_in_time:
  assumes "std_sorted ls" and "in_time lg ls" and "sizeless (snd e) = sizeless ord"
  shows "in_time (lg @ [Incoming ord]) (spec_rest pr e ls)"
  using assms(1)
proof (cases rule: spec_rest_split [where pr = pr and e = e])
  case (new l1 l2)
  with in_time_more [OF assms(2), of "[Incoming ord]"] assms(3) show ?thesis by (simp add: list_emb_append2)
next
  case (old l1 l2 es)
  with in_time_more [OF assms(2), of "[Incoming ord]"] assms(2,3) show ?thesis by simp
qed

lemma spec_unlink_in_time:
  assumes "std_sorted ls" and "in_time lg ls" shows "in_time lg (spec_unlink pr p ls)"
proof (cases "std_find ls pr")
  case None
  with assms(2) show ?thesis by (simp add: spec_unlink_def)
next
  case (Some es)
  obtain l1 l2 where ls: "ls = l1 @ (pr, es) # l2" and un: "spec_unlink pr p ls = l1 @
       (if filter (\<lambda>e. fst e \<noteq> p) es = [] then [] else [(pr, filter (\<lambda>e. fst e \<noteq> p) es)]) @ l2"
    using assms(1) Some by (rule spec_unlink_split)
  have "subseq (queued (filter (\<lambda>e. fst e \<noteq> p) es)) (queued es)" by (rule subseq_map) simp
  moreover have "subseq (queued es) (arrivals lg)" using assms(2) ls by simp
  ultimately have "subseq (queued (filter (\<lambda>e. fst e \<noteq> p) es)) (arrivals lg)" by (rule subseq_order.order_trans)
  with assms(2) show ?thesis unfolding un unfolding ls by simp
qed

definition time_ok :: "spec_book \<Rightarrow> bool" where
  "time_ok A \<longleftrightarrow> (\<forall>s. in_time (sb_log A) (sb_side s A))"

lemma time_ok_frame [simp]: "time_ok (A\<lparr>sb_free := fs\<rparr>) = time_ok A"
  by (simp add: time_ok_def)

lemma time_ok_log: "time_ok A \<Longrightarrow> time_ok (A\<lparr>sb_log := sb_log A @ ev\<rparr>)"
  by (simp add: time_ok_def in_time_more)

lemma spec_match_time_ok:
  assumes "spec_match buy pr sz ty 0 A = (m, A')" and "time_ok A" shows "time_ok A'"
proof -
  obtain ev where "sb_log A' = sb_log A @ ev" using assms(1) by (rule spec_match_sweep)
  with spec_match_in_time [OF assms(1)] assms(2) show ?thesis by (simp add: time_ok_def in_time_more)
qed

lemma spec_add_time_ok:
  assumes "spec_add oid cid sz pr buy ty A = (r, A')" and "time_ok A" and "book_wf A"
  shows "time_ok A'"
proof (cases "sb_free A")
  case Nil
  with assms show ?thesis by (simp add: spec_add_None)
next
  case (Cons f fs)
  let ?ord = "mk_order oid cid (sb_symbol A) sz pr buy ty"
  let ?A1 = "A\<lparr>sb_free := fs, sb_log := sb_log A @ [Incoming ?ord]\<rparr>"
  obtain m A2 where m: "spec_match buy pr sz ty 0 ?A1 = (m, A2)"
    and A': "A' = (if m < sz
       then set_sb_side buy (spec_rest pr (f, snd (decrease_size m ?ord)) (sb_side buy A2))
              (A2\<lparr>sb_log := sb_log A2 @ [Resting (snd (decrease_size m ?ord))]\<rparr>)
       else A2\<lparr>sb_log := sb_log A2 @ [Fully_Matched (snd (decrease_size m ?ord))]\<rparr>)"
    using assms(1) Cons by (rule spec_add_cases) blast
  have "time_ok ?A1" using assms(2) by (simp add: time_ok_def in_time_more)
  then have ok: "time_ok A2" by (rule spec_match_time_ok [OF m])
  obtain ev where own: "sb_side buy A2 = sb_side buy A" and lg: "sb_log A2 = (sb_log A @ [Incoming ?ord]) @ ev"
    using m by (rule spec_match_sweep) simp
  have "in_time (sb_log A @ [Incoming ?ord]) (spec_rest pr (f, snd (decrease_size m ?ord)) (sb_side buy A2))"
    unfolding own by (rule spec_rest_in_time) (use assms(2,3) in \<open>auto simp: time_ok_def book_wf_def\<close>)
  then have "in_time (sb_log A2) (spec_rest pr (f, snd (decrease_size m ?ord)) (sb_side buy A2))"
    unfolding lg by (rule in_time_more)
  then have "in_time (sb_log A') (sb_side s A')" for s
    using ok unfolding A' time_ok_def by (cases "s = buy") (auto simp: in_time_more)
  then show ?thesis by (simp add: time_ok_def)
qed

lemma spec_cancel_time_ok:
  assumes "time_ok A" and "book_wf A" shows "time_ok (spec_cancel p ord A)"
proof -
  let ?s = "is_buy_side ord"
  have "std_sorted (sb_side ?s A)" using assms(2) by (simp add: book_wf_def)
  then have "in_time (sb_log A) (spec_unlink (price ord) p (sb_side ?s A))"
    by (rule spec_unlink_in_time) (use assms(1) in \<open>simp add: time_ok_def\<close>)
  then have "in_time (sb_log A) (sb_side s (set_sb_side ?s (spec_unlink (price ord) p (sb_side ?s A)) A))" for s
    using assms(1) unfolding time_ok_def by (cases "s = ?s") auto
  then show ?thesis by (simp add: time_ok_def spec_cancel_def in_time_more)
qed

section \<open>Every history\<close>

lemma reachable_time_ok: "reachable b \<Longrightarrow> time_ok (view b)"
proof (induction rule: reachable_view_induct)
  case (start sy n)
  then show ?case by (simp add: time_ok_def spec_new_def sb_side_def)
next
  case (step b b')
  from step(3,1) show ?case
  proof (cases rule: book_step_view)
    case add
    with step(2,4) show ?thesis by (metis spec_add_time_ok)
  next
    case cancel
    with step(2,4) show ?thesis by (metis spec_cancel_time_ok)
  next
    case (give_back p)
    with step(4) show ?thesis by (simp add: time_ok_def in_time_more del: view_simps)
  next
    case none
    with step(4) show ?thesis by metis
  next
    case trade
    with step(4) show ?thesis by (metis spec_match_time_ok)
  qed
qed

text \<open>
  C8: Time priority over a whole history. In every reachable book, after any number of
  additions, trades and cancellations, the orders that the \<open>next\<close> pointers of a level reach, from
  \<open>head\<close> to \<open>tail\<close>, are a subsequence of the \<open>(Incoming)\<close> lines of the log for that side and
  price: an order that came in earlier stands before one that came in later, each arrival is
  there at most once, and nothing but its size has changed since it came in.
\<close>

theorem levels_in_arrival_order:
  assumes "reachable b" and "(k, q) \<in> set (side_levels buy b)"
  shows "subseq
    (map (\<lambda>p. sizeless (order_at b p)) (q_walk order_nodes (store (order_pool b)) (unat (q_size q)) (q_head q)))
    (arrivals_at buy k (book_log b))"
proof -
  let ?es = "view_level b q"
  have b: "book_inv b" by (rule reachable_inv [OF assms(1)])
  have l: "(k, ?es) \<in> set (sb_side buy (view b))" using assms(2) by (rule view_side_level)
  have "subseq (queued ?es) (arrivals (book_log b))"
    using reachable_time_ok [OF assms(1)] l by (fastforce simp: time_ok_def in_time_def)
  then have "subseq (filter (\<lambda>ord. is_buy_side ord = buy \<and> price ord = k) (queued ?es)) (arrivals_at buy k (book_log b))"
    unfolding arrivals_at_def by (rule subseq_filter)
  moreover have "filter (\<lambda>ord. is_buy_side ord = buy \<and> price ord = k) (queued ?es) = queued ?es"
    using book_wf_level(2) [OF book_repr_wf [OF book_invD [OF b]] l] by (auto simp: filter_id_conv)
  ultimately show ?thesis by (simp add: view_level_def comp_def)
qed

text \<open>Two orders of the sample book's only ask level, after a third one between them has been withdrawn.\<close>

definition build_arrivals :: "order_book result" where
  "build_arrivals =
     rbind (order_book_new ''AAPL'' 4) (\<lambda>b.
     rbind (add_order 1 7 5 101 False Limit b) (\<lambda>(_, b).
     rbind (add_order 2 8 6 101 False Limit b) (\<lambda>(_, b).
     rbind (add_order 3 9 7 101 False Limit b) (\<lambda>(_, b).
     rbind (add_order 4 7 2 101 True Limit b) (\<lambda>(_, b). Inr b)))))"

definition arrivals_book :: order_book where
  "arrivals_book =
     (case rbind build_arrivals (cancel_order (Some 1)) of Inr b \<Rightarrow> b | Inl _ \<Rightarrow> sample_book)"

lemma arrivals_built: "rbind build_arrivals (cancel_order (Some 1)) = Inr arrivals_book"
  by code_simp

lemma arrivals_may_cancel: "case build_arrivals of Inr b \<Rightarrow> may_cancel b 1 | Inl _ \<Rightarrow> False"
  by code_simp

lemma arrivals_reachable: "reachable arrivals_book"
proof -
  obtain b where b: "build_arrivals = Inr b" "cancel_order (Some 1) b = Inr arrivals_book"
    using arrivals_built by (auto simp: rbind_eq_Inr)
  have "reachable b"
    using b(1) by (auto simp: build_arrivals_def rbind_eq_Inr) (meson start step book_step.add)
  moreover have "may_cancel b 1" using arrivals_may_cancel unfolding b(1) by (simp only: sum.case)
  ultimately show ?thesis using b(2) step book_step.cancel by blast
qed

lemma arrivals_level:
  "map (\<lambda>(k, q). (k, map (\<lambda>p. order_id (order_at arrivals_book p))
     (q_walk order_nodes (store (order_pool arrivals_book)) (unat (q_size q)) (q_head q))))
     (side_levels False arrivals_book) = [(101, [1, 3])]"
  "map order_id (arrivals_at False 101 (book_log arrivals_book)) = [1, 2, 3]"
  by code_simp+

corollary levels_in_arrival_order_sample:
  "subseq [1, 3] [1, 2, 3 :: u64]"
proof -
  obtain q where q: "side_levels False arrivals_book = [(101, q)]"
    and ids: "map (\<lambda>p. order_id (order_at arrivals_book p))
      (q_walk order_nodes (store (order_pool arrivals_book)) (unat (q_size q)) (q_head q)) = [1, 3]"
    using arrivals_level(1) by auto
  have "(101, q) \<in> set (side_levels False arrivals_book)" using q by simp
  from subseq_map [OF levels_in_arrival_order [OF arrivals_reachable this], of order_id]
  show ?thesis by (simp add: ids arrivals_level(2) comp_def)
qed

end
