(* ===== verification/Book_Depth.thy ===== *)
theory Book_Depth
  imports Book_Hazards
begin

text \<open>
  \<open>OrderBook::toString\<close>: the depth table of the book. The loop over a level follows raw \<open>next\<close>
  pointers and adds 32-bit sizes, so the model gives \<open>None\<close> for a loop that does not end, a fault
  for a wild pointer, and a total that wraps. The table lists the prices of a
  \<open>std::set<uint64_t, std::greater<>>\<close>, here a map of the library over the reversed order of
  prices.
\<close>

section \<open>Prices in descending order\<close>

datatype 'a desc = Desc (undesc: 'a)

instantiation desc :: (linorder) linorder
begin

definition less_eq_desc :: "'a desc \<Rightarrow> 'a desc \<Rightarrow> bool" where
  "less_eq_desc a b \<longleftrightarrow> undesc b \<le> undesc a"

definition less_desc :: "'a desc \<Rightarrow> 'a desc \<Rightarrow> bool" where
  "less_desc a b \<longleftrightarrow> undesc b < undesc a"

instance
proof
  fix a b :: "'a desc"
  show "a < b \<longleftrightarrow> a \<le> b \<and> \<not> b \<le> a" by (auto simp: less_eq_desc_def less_desc_def)
  show "a \<le> b \<Longrightarrow> b \<le> a \<Longrightarrow> a = b" by (simp add: less_eq_desc_def desc.expand)
qed (auto simp: less_eq_desc_def)

end

lemma Desc_less [simp]: "Desc a < Desc b \<longleftrightarrow> b < a"
  by (simp add: less_desc_def)

text \<open>\<open>prices.insert\<close> for every key of both maps.\<close>

definition insert_prices :: "(u64, queue) std_map \<Rightarrow> (u64 desc, unit) std_map \<Rightarrow> (u64 desc, unit) std_map" where
  "insert_prices levels ps = fold (\<lambda>(k, _) ps. std_subscript (Desc k) () ps) levels ps"

definition table_prices :: "order_book \<Rightarrow> u64 list" where
  "table_prices b = map (undesc \<circ> fst) (insert_prices (ask_levels b) (insert_prices (bid_levels b) []))"

lemma insert_prices_sorted: "std_sorted ps \<Longrightarrow> std_sorted (insert_prices m ps)"
  unfolding insert_prices_def by (induction m arbitrary: ps) (auto simp: std_sorted_subscript)

lemma insert_prices_keys: "fst ` set (insert_prices m ps) = Desc ` fst ` set m \<union> fst ` set ps"
proof (induction m arbitrary: ps)
  case (Cons x m)
  obtain k q where x: "x = (k, q)" by fastforce
  have "insert_prices (x # m) ps = insert_prices m (std_subscript (Desc k) () ps)"
    by (simp add: insert_prices_def x)
  with Cons.IH [of "std_subscript (Desc k) () ps"] show ?case by (simp add: keys_std_subscript x)
qed (simp add: insert_prices_def)

lemma std_sorted_desc: "std_sorted (ps :: ('a::linorder desc \<times> 'b) list) \<Longrightarrow> sorted_wrt (>) (map (undesc \<circ> fst) ps)"
  by (simp add: std_sorted_def std_keys_def sorted_wrt_map less_desc_def)

lemma table_prices_spec:
  "sorted_wrt (>) (table_prices b)"
  "set (table_prices b) = fst ` set (bid_levels b) \<union> fst ` set (ask_levels b)"
proof -
  show "sorted_wrt (>) (table_prices b)"
    unfolding table_prices_def by (intro std_sorted_desc insert_prices_sorted) simp
  have "set (table_prices b) = undesc ` fst ` set (insert_prices (ask_levels b) (insert_prices (bid_levels b) []))"
    by (simp add: table_prices_def image_comp)
  then show "set (table_prices b) = fst ` set (bid_levels b) \<union> fst ` set (ask_levels b)"
    by (simp add: insert_prices_keys image_Un image_comp Un_commute)
qed

lemma table_prices_sorted_list:
  "table_prices b = rev (sorted_list_of_set (fst ` set (bid_levels b) \<union> fst ` set (ask_levels b)))"
proof -
  have sorted: "sorted_wrt (<) (rev (table_prices b))"
    unfolding sorted_wrt_rev using table_prices_spec(1) [of b] by simp
  then have "sorted_list_of_set (set (rev (table_prices b))) = rev (table_prices b)"
    by (simp only: strict_sorted_iff sorted_list_of_set.idem_if_sorted_distinct)
  then have "rev (sorted_list_of_set (set (table_prices b))) = table_prices b" by simp
  then show ?thesis using table_prices_spec(2) [of b] by simp
qed

section \<open>The loop over a level\<close>

partial_function (option) size_loop :: "order_store \<Rightarrow> ptr \<Rightarrow> u32 \<Rightarrow> u32 result option" where
  "size_loop st p total_size = (case p of
     None \<Rightarrow> Some (Inr total_size)
   | Some i \<Rightarrow>
       if i < length st then
         size_loop st (nxt (list_node (object (st ! i)))) (total_size + order_size (object (st ! i)))
       else Some (Inl OutOfRange))"

definition orbind :: "'a result option \<Rightarrow> ('a \<Rightarrow> 'b result option) \<Rightarrow> 'b result option" where
  "orbind m f = (case m of None \<Rightarrow> None | Some (Inl e) \<Rightarrow> Some (Inl e) | Some (Inr x) \<Rightarrow> f x)"

lemma orbind_simps [simp]: "orbind (Some (Inr x)) f = f x" "orbind (Some (Inl e)) f = Some (Inl e)" "orbind None f = None"
  by (simp_all add: orbind_def)

section \<open>The table\<close>

definition newline :: string where
  "newline = [char_of (10::nat)]"

definition level_cell :: "fmt_ops \<Rightarrow> order_store \<Rightarrow> (u64, queue) std_map \<Rightarrow> u64 \<Rightarrow> string result option" where
  "level_cell F st levels pr = (case std_find levels pr of
     None \<Rightarrow> Some (Inr ''0'')
   | Some q \<Rightarrow> orbind (size_loop st (q_head q) 0) (\<lambda>total_size. Some (Inr (fixed F 3 (unat total_size) 1000))))"

definition table_row :: "fmt_ops \<Rightarrow> string \<Rightarrow> string \<Rightarrow> string \<Rightarrow> string" where
  "table_row F x y z = right10 F x @ '' | '' @ right10 F y @ '' | '' @ right10 F z @ newline"

fun table_rows :: "fmt_ops \<Rightarrow> order_book \<Rightarrow> u64 list \<Rightarrow> string result option" where
  "table_rows F b [] = Some (Inr [])"
| "table_rows F b (pr # prs) =
     orbind (level_cell F (store (order_pool b)) (bid_levels b) pr) (\<lambda>bid_count.
     orbind (level_cell F (store (order_pool b)) (ask_levels b) pr) (\<lambda>ask_count.
     orbind (table_rows F b prs) (\<lambda>rows.
       Some (Inr (table_row F bid_count (fixed F 2 (unat pr) 100) ask_count @ rows)))))"

definition mid_price :: "fmt_ops \<Rightarrow> (u64 \<times> 'a) option \<Rightarrow> (u64 \<times> 'b) option \<Rightarrow> string" where
  "mid_price F best_bid best_ask = (case (best_bid, best_ask) of
     (Some (k, _), Some (j, _)) \<Rightarrow> midpoint F (unat k) (unat j)
   | _ \<Rightarrow> fixed F 2 0 1)"

definition table_text :: "fmt_ops \<Rightarrow> string \<Rightarrow> string \<Rightarrow> string \<Rightarrow> string" where
  "table_text F sy rows mid =
     ''Order Book for '' @ sy @ '':'' @ newline @
     table_row F ''Bids'' ''Price'' ''Asks'' @
     ''-------------------------------------'' @ newline @ rows @
     ''-------------------------------------'' @ newline @
     ''Mid Price: '' @ mid @ newline"

definition book_to_string :: "fmt_ops \<Rightarrow> order_book \<Rightarrow> string result option" where
  "book_to_string F b =
     orbind (table_rows F b (table_prices b)) (\<lambda>rows.
       Some (Inr (table_text F (book_symbol b) rows (mid_price F (std_rbegin (bid_levels b)) (std_begin (ask_levels b))))))"

section \<open>What the table shows\<close>

definition spec_cell :: "fmt_ops \<Rightarrow> levels \<Rightarrow> u64 \<Rightarrow> string" where
  "spec_cell F ls pr = (case std_find ls pr of
     None \<Rightarrow> ''0''
   | Some es \<Rightarrow> fixed F 3 (qty es mod 2 ^ 32) 1000)"

definition spec_table :: "fmt_ops \<Rightarrow> spec_book \<Rightarrow> string" where
  "spec_table F A =
     table_text F (sb_symbol A)
       (concat (map (\<lambda>pr. table_row F (spec_cell F (sb_bids A) pr) (fixed F 2 (unat pr) 100) (spec_cell F (sb_asks A) pr))
          (rev (sorted_list_of_set (fst ` set (sb_bids A) \<union> fst ` set (sb_asks A))))))
       (mid_price F (std_rbegin (sb_bids A)) (std_begin (sb_asks A)))"

lemma size_loop_links:
  "links order_nodes st p (map fst es) None \<Longrightarrow> entries_ok st es \<Longrightarrow>
     size_loop st (ptr_hd (map fst es)) t = Some (Inr (t + word_of_nat (qty es)))"
proof (induction es arbitrary: p t)
  case Nil
  then show ?case by (simp add: size_loop.simps)
next
  case (Cons e es)
  obtain i ord where e: "e = (i, ord)" by fastforce
  have i: "i < length st" and ord: "core (object (st ! i)) = ord" and es: "entries_ok st es"
    using Cons.prems(2) e by simp_all
  have nx: "nxt (list_node (object (st ! i))) = ptr_hd (map fst es)" and ls: "links order_nodes st (Some i) (map fst es) None"
    using Cons.prems(1) e i by (auto simp: ptr_hd_def split: list.splits)
  have sz: "order_size (object (st ! i)) = order_size ord" using ord by auto
  show ?case
    using Cons.IH [OF ls es] i nx sz e by (subst size_loop.simps) (simp add: add.assoc)
qed

lemma word_of_nat_qty: "unat (word_of_nat n :: u32) = n mod 2 ^ 32"
  by (simp add: unat_of_nat take_bit_eq_mod)

lemma level_cell_spec:
  assumes "book_repr b A"
  shows "level_cell F (store (order_pool b)) (side_levels buy b) pr = Some (Inr (spec_cell F (sb_side buy A) pr))"
proof -
  have r: "side_repr (store (order_pool b)) buy (side_levels buy b) (sb_side buy A)"
    using assms by (rule book_repr_side)
  show ?thesis
  proof (cases "std_find (side_levels buy b) pr")
    case None
    moreover have "fst ` set (side_levels buy b) = fst ` set (sb_side buy A)"
      using lv_rel_keys [of _ "side_levels buy b" "sb_side buy A"] r
      unfolding side_repr_def by (metis list.set_map)
    ultimately have "std_find (sb_side buy A) pr = None" by (simp add: std_find_None)
    with None show ?thesis by (simp add: level_cell_def spec_cell_def)
  next
    case (Some q)
    then obtain es where es: "std_find (sb_side buy A) pr = Some es" "lev (store (order_pool b)) buy pr q es"
      using side_repr_find [OF r] by blast
    then have "q_head q = ptr_hd (map fst es)" "links order_nodes (store (order_pool b)) None (map fst es) None"
      "entries_ok (store (order_pool b)) es"
      by (simp_all add: lev_def level_repr_def q_repr_def)
    then have "size_loop (store (order_pool b)) (q_head q) 0 = Some (Inr (0 + word_of_nat (qty es)))"
      using size_loop_links by simp
    with Some es(1) show ?thesis by (simp add: level_cell_def spec_cell_def word_of_nat_qty)
  qed
qed

lemma side_levels_simps [simp]: "side_levels True b = bid_levels b" "side_levels False b = ask_levels b"
  by (simp_all add: side_levels_def)

lemma table_rows_spec:
  assumes "book_repr b A"
  shows "table_rows F b prs = Some (Inr (concat (map (\<lambda>pr.
    table_row F (spec_cell F (sb_bids A) pr) (fixed F 2 (unat pr) 100) (spec_cell F (sb_asks A) pr)) prs)))"
  using level_cell_spec [OF assms, of F True] level_cell_spec [OF assms, of F False]
  by (induction prs) (simp_all add: sb_side_def)

lemma mid_price_keys:
  "map_option fst p = map_option fst p' \<Longrightarrow> map_option fst q = map_option fst q' \<Longrightarrow>
     mid_price F p q = mid_price F p' q'"
  by (cases p; cases p'; cases q; cases q') (auto simp: mid_price_def)

lemma book_to_string_spec:
  assumes "book_inv b"
  shows "book_to_string F b = Some (Inr (spec_table F (view b)))"
proof -
  have r: "book_repr b (view b)" by (rule book_invD [OF assms])
  have keys: "map fst (bid_levels b) = map fst (sb_bids (view b))" "map fst (ask_levels b) = map fst (sb_asks (view b))"
    by (simp_all add: view_def split_def o_def)
  then have sets: "fst ` set (bid_levels b) = fst ` set (sb_bids (view b))" "fst ` set (ask_levels b) = fst ` set (sb_asks (view b))"
    by (metis list.set_map)+
  have ends: "map_option fst (std_rbegin (bid_levels b)) = map_option fst (std_rbegin (sb_bids (view b)))"
    "map_option fst (std_begin (ask_levels b)) = map_option fst (std_begin (sb_asks (view b)))"
    by (auto simp: view_def std_rbegin_def std_begin_def last_map split_def split: list.splits)
  show ?thesis
    unfolding book_to_string_def table_rows_spec [OF r] orbind_simps table_prices_sorted_list sets
      spec_table_def mid_price_keys [OF ends]
    by simp
qed

text \<open>
  C26: \<open>toString\<close> of a book in order ends, without a fault, and prints the abstract book: one row
  for each price that has a level, from the highest to the lowest, with the total of its bids and of
  its asks (0 where there is no level), and the mid of the best bid and the best ask. The totals are
  32-bit sums.
\<close>

theorem book_to_string_correct:
  assumes "book_inv b"
  shows "book_to_string F b = Some (Inr (spec_table F (view b)))"
  by (rule book_to_string_spec [OF assms])

definition plain_fmt :: fmt_ops where
  "plain_fmt = \<lparr>fixed = (\<lambda>d n k. [char_of (n div k)]), midpoint = (\<lambda>n k. [char_of (n + k)]), uint = (\<lambda>n. [char_of n]), right10 = (\<lambda>s. s)\<rparr>"

corollary book_to_string_correct_sample:
  "book_to_string plain_fmt sample_book = Some (Inr (spec_table plain_fmt (view sample_book)))"
  by (rule book_to_string_correct [OF sample_inv])

end
