(* ===== verification/Order_Generator.thy ===== *)
theory Order_Generator
  imports Prelude
begin

text \<open>
  \<open>project/random_order_generator.hpp\<close>: the generator of order data. The random engines and
  distributions of the standard library are parameters: each call takes the values that the
  distributions return, and what a distribution documents about its range is a hypothesis. The
  function-local statics \<open>current_id\<close> and \<open>last_price\<close> are the state.
\<close>

section \<open>State and draws\<close>

record generator =
  current_id :: u64
  last_price :: u64

definition new_generator :: generator where
  "new_generator = \<lparr>current_id = 1, last_price = 15000\<rparr>"

text \<open>The values drawn for a size and for a price; the offset is an \<open>int64_t\<close>.\<close>

record size_draws =
  fractional :: bool
  frac_val :: u32
  whole_val :: u32

record price_draws =
  cluster :: bool
  offset_val :: "64 word"
  wide_val :: u64
  round_price :: bool

text \<open>The documented ranges of the distributions.\<close>

definition size_draws_ok :: "size_draws \<Rightarrow> bool" where
  "size_draws_ok d \<longleftrightarrow> 1 \<le> frac_val d \<and> frac_val d \<le> 3 \<and> 1 \<le> whole_val d \<and> whole_val d \<le> 100"

definition price_draws_ok :: "price_draws \<Rightarrow> bool" where
  "price_draws_ok d \<longleftrightarrow> - 300 \<le> sint (offset_val d) \<and> sint (offset_val d) \<le> 300 \<and>
     10000 \<le> wide_val d \<and> wide_val d \<le> 20000"

section \<open>Operations\<close>

definition generate_uuid_v4_as_uint64 :: "u64 \<Rightarrow> generator \<Rightarrow> u64 \<times> generator" where
  "generate_uuid_v4_as_uint64 drawn g = (drawn, g)"

definition get_next_order_id :: "generator \<Rightarrow> u64 \<times> generator" where
  "get_next_order_id g = (current_id g, g\<lparr>current_id := current_id g + 1\<rparr>)"

definition generate_random_size :: "size_draws \<Rightarrow> generator \<Rightarrow> u32 \<times> generator" where
  "generate_random_size d g = (if fractional d then frac_val d * 250 else whole_val d * 1000, g)"

definition generate_random_price :: "price_draws \<Rightarrow> generator \<Rightarrow> u64 \<times> generator" where
  "generate_random_price d g =
     (let last1 = (if cluster d then
                     (if sint (offset_val d) < 0 \<and> - offset_val d \<ge> last_price g then 100
                      else last_price g + offset_val d)
                   else wide_val d);
          last2 = (if round_price d then ((last1 + 50) div 100) * 100 else last1);
          last3 = (if last2 < 100 then 100 else last2)
      in (last3, g\<lparr>last_price := last3\<rparr>))"

text \<open>A run of the price generator.\<close>

fun generate_prices :: "price_draws list \<Rightarrow> generator \<Rightarrow> u64 list" where
  "generate_prices [] g = []"
| "generate_prices (d # ds) g = (case generate_random_price d g of (p, g') \<Rightarrow> p # generate_prices ds g')"

fun generate_ids :: "nat \<Rightarrow> generator \<Rightarrow> u64 list" where
  "generate_ids 0 g = []"
| "generate_ids (Suc n) g = (case get_next_order_id g of (i, g') \<Rightarrow> i # generate_ids n g')"

section \<open>Sizes and identifiers\<close>

lemma size_cases:
  assumes "size_draws_ok d"
  shows "unat (fst (generate_random_size d g)) = (if fractional d then unat (frac_val d) * 250 else unat (whole_val d) * 1000)"
proof -
  have r: "unat (frac_val d) \<le> 3" "unat (whole_val d) \<le> 100"
    using assms by (simp_all add: size_draws_ok_def word_le_nat_alt)
  then have "unat (frac_val d) * 250 < 2 ^ 32" "unat (whole_val d) * 1000 < 2 ^ 32" by simp_all
  then show ?thesis by (simp add: generate_random_size_def unat_word_ariths)
qed

text \<open>
  A generated size is one of 250, 500 and 750, or a whole multiple of 1000 from 1000 to 100000;
  in particular it is never 0 and the product never wraps.
\<close>

theorem generated_size_range:
  assumes "size_draws_ok d" and "generate_random_size d g = (sz, g')"
  shows "g' = g \<and> (if fractional d then unat sz \<in> {250, 500, 750}
    else 1000 dvd unat sz \<and> 1000 \<le> unat sz \<and> unat sz \<le> 100000)"
proof -
  have u: "unat sz = (if fractional d then unat (frac_val d) * 250 else unat (whole_val d) * 1000)"
    using size_cases [OF assms(1), of g] assms(2) by simp
  have r: "1 \<le> unat (frac_val d)" "unat (frac_val d) \<le> 3" "1 \<le> unat (whole_val d)" "unat (whole_val d) \<le> 100"
    using assms(1) by (simp_all add: size_draws_ok_def word_le_nat_alt)
  then consider "unat (frac_val d) = 1" | "unat (frac_val d) = 2" | "unat (frac_val d) = 3" by linarith
  then have "fractional d \<Longrightarrow> unat sz \<in> {250, 500, 750}" using u by cases simp_all
  moreover have "g' = g" using assms(2) by (simp add: generate_random_size_def)
  ultimately show ?thesis using u r by simp
qed

corollary generated_size_range_sample:
  "unat (750 :: u32) \<in> {250, 500, 750}"
  using generated_size_range [of "\<lparr>fractional = True, frac_val = 3, whole_val = 40\<rparr>" new_generator 750 new_generator]
  by (simp add: size_draws_ok_def generate_random_size_def)

lemma generate_ids_upt: "generate_ids n g = map (\<lambda>i. current_id g + word_of_nat i) [0..<n]"
proof (induction n arbitrary: g)
  case (Suc n)
  have "[0..<Suc n] = 0 # map Suc [0..<n]" by (metis map_Suc_upt upt_conv_Cons zero_less_Suc)
  with Suc show ?case by (simp add: get_next_order_id_def o_def add.assoc)
qed simp

text \<open>
  The identifiers of a run are consecutive from 1, hence pairwise distinct for as long as the
  64-bit counter does not come round.
\<close>

theorem generated_ids_distinct:
  assumes "n < 2 ^ 64"
  shows "generate_ids n new_generator = map (\<lambda>i. word_of_nat (Suc i)) [0..<n] \<and> distinct (generate_ids n new_generator)"
proof -
  have eq: "generate_ids n new_generator = map (\<lambda>i. word_of_nat (Suc i)) [0..<n]"
    by (simp add: generate_ids_upt new_generator_def)
  have "inj_on (\<lambda>i. word_of_nat (Suc i) :: u64) {0..<n}"
  proof (rule inj_onI)
    fix x y assume xy: "x \<in> {0..<n}" "y \<in> {0..<n}" and e: "(word_of_nat (Suc x) :: u64) = word_of_nat (Suc y)"
    then have "(word_of_nat x :: u64) = word_of_nat y" by simp
    then have "unat (word_of_nat x :: u64) = unat (word_of_nat y :: u64)" by (rule arg_cong)
    moreover have "x < 2 ^ 64" "y < 2 ^ 64" using xy assms by simp_all
    ultimately show "x = y" by (simp add: unat_word_of_nat)
  qed
  then have "distinct (map (\<lambda>i. word_of_nat (Suc i) :: u64) [0..<n])" by (simp only: distinct_map distinct_upt set_upt simp_thms)
  with eq show ?thesis by simp
qed

corollary generated_ids_distinct_sample: "distinct (generate_ids 100 new_generator)"
  by (rule conjunct2 [OF generated_ids_distinct]) simp

section \<open>Prices\<close>

lemma unat_add_signed:
  fixes a v :: u64
  assumes "0 \<le> int (unat a) + sint v" and "int (unat a) + sint v < 2 ^ 64"
  shows "int (unat (a + v)) = int (unat a) + sint v"
proof -
  have "a + v = word_of_int (uint a + sint v)" by simp
  then have "uint (a + v) = (uint a + sint v) mod 2 ^ 64" by (simp only: uint_word_of_int) (simp add: take_bit_eq_mod)
  with assms show ?thesis by simp
qed

lemma unat_neg_signed:
  fixes v :: u64
  assumes "sint v < 0" shows "int (unat (- v)) = - sint v"
proof -
  have r: "- (2 ^ 63) \<le> sint v" using sint_ge [of v] by simp
  have "- v = word_of_int (- sint v)" by simp
  then have "uint (- v) = (- sint v) mod 2 ^ 64" by (simp only: uint_word_of_int) (simp add: take_bit_eq_mod)
  with assms r show ?thesis by simp
qed

lemma round_bounds: "(n + 50) div 100 * 100 \<le> n + 50" "n < (n + 50) div 100 * 100 + 50" for n :: nat
  by simp_all

lemma generate_price_step:
  assumes d: "price_draws_ok d" and g: "100 \<le> unat (last_price g)" "unat (last_price g) \<le> B"
    and B: "20000 \<le> B" "B \<le> 2 ^ 60" and r: "generate_random_price d g = (p, g')"
  shows "last_price g' = p" "100 \<le> unat p" "unat p \<le> B + 350" "round_price d \<longrightarrow> 100 dvd unat p"
proof -
  define last1 where "last1 = (if cluster d then
      (if sint (offset_val d) < 0 \<and> - offset_val d \<ge> last_price g then 100
       else last_price g + offset_val d) else wide_val d)"
  define last2 where "last2 = (if round_price d then ((last1 + 50) div 100) * 100 else last1)"
  have p: "p = (if last2 < 100 then 100 else last2)" and g': "last_price g' = p"
    using r by (auto simp: generate_random_price_def last1_def last2_def Let_def)
  have off: "- 300 \<le> sint (offset_val d)" "sint (offset_val d) \<le> 300" and w: "unat (wide_val d) \<le> 20000"
    using d by (simp_all add: price_draws_ok_def word_le_nat_alt)
  have l1: "unat last1 \<le> B + 300"
  proof (cases "cluster d")
    case False
    then show ?thesis using w B by (simp add: last1_def)
  next
    case True
    show ?thesis
    proof (cases "sint (offset_val d) < 0 \<and> - offset_val d \<ge> last_price g")
      case True
      then show ?thesis using \<open>cluster d\<close> B by (simp add: last1_def)
    next
      case False
      have nonneg: "0 \<le> int (unat (last_price g)) + sint (offset_val d)"
      proof (cases "sint (offset_val d) < 0")
        case True
        with False have "unat (- offset_val d) < unat (last_price g)" by (simp add: word_less_nat_alt not_le)
        with unat_neg_signed [OF True] show ?thesis by linarith
      qed simp
      have "int (unat (last_price g + offset_val d)) = int (unat (last_price g)) + sint (offset_val d)"
      proof (rule unat_add_signed [OF nonneg])
        have "unat (last_price g) \<le> 1152921504606846976" using g(2) B(2) by simp
        moreover have "(2 :: int) ^ 64 = 18446744073709551616" by simp
        ultimately show "int (unat (last_price g)) + sint (offset_val d) < 2 ^ 64" using off by linarith
      qed
      then have "unat (last_price g + offset_val d) \<le> B + 300" using off(2) g(2) by linarith
      with False \<open>cluster d\<close> show ?thesis by (auto simp: last1_def)
    qed
  qed
  have add50: "unat (last1 + 50) = unat last1 + 50"
  proof -
    have "unat last1 + unat (50 :: u64) < 2 ^ 64" using l1 B by simp
    then show ?thesis using unat_add_lem [of last1 50] by simp
  qed
  have l2: "unat last2 \<le> B + 350" "round_price d \<longrightarrow> 100 dvd unat last2"
  proof -
    have "unat ((last1 + 50) div 100 * 100) = (unat last1 + 50) div 100 * 100"
    proof -
      have q: "unat ((last1 + 50) div 100) = (unat last1 + 50) div 100" using add50 by (simp add: unat_div)
      have "(unat last1 + 50) div 100 * 100 \<le> 2 ^ 60 + 350"
        using round_bounds(1) [of "unat last1"] l1 B by linarith
      also have "\<dots> < (2 :: nat) ^ 64" by simp
      finally have "(unat last1 + 50) div 100 * 100 < 2 ^ 64" .
      then show ?thesis using q by (simp add: unat_word_ariths)
    qed
    then show "unat last2 \<le> B + 350" "round_price d \<longrightarrow> 100 dvd unat last2"
      using round_bounds(1) [of "unat last1"] l1 by (auto simp: last2_def)
  qed
  show "last_price g' = p" by (rule g')
  show "100 \<le> unat p" by (simp add: p word_less_nat_alt not_less)
  show "unat p \<le> B + 350" using l2(1) B by (simp add: p)
  show "round_price d \<longrightarrow> 100 dvd unat p" using l2(2) by (simp add: p)
qed

lemma generate_prices_bounds:
  "\<forall>d \<in> set ds. price_draws_ok d \<Longrightarrow> 100 \<le> unat (last_price g) \<Longrightarrow> unat (last_price g) \<le> B \<Longrightarrow> 20000 \<le> B \<Longrightarrow>
     B + 350 * length ds \<le> 2 ^ 60 \<Longrightarrow> p \<in> set (generate_prices ds g) \<Longrightarrow>
     100 \<le> unat p \<and> unat p \<le> B + 350 * length ds"
proof (induction ds arbitrary: g B)
  case (Cons d ds)
  obtain p1 g1 where r: "generate_random_price d g = (p1, g1)" by fastforce
  have ok: "price_draws_ok d" "B \<le> 2 ^ 60" using Cons.prems(1,5) by simp_all
  note st = generate_price_step [OF ok(1) Cons.prems(2,3,4) ok(2) r]
  consider "p = p1" | "p \<in> set (generate_prices ds g1)" using Cons.prems(6) r by auto
  then show ?case
  proof cases
    case 1
    then show ?thesis using st Cons.prems(4) by simp
  next
    case 2
    have "100 \<le> unat (last_price g1)" "unat (last_price g1) \<le> B + 350" "20000 \<le> B + 350"
      "B + 350 + 350 * length ds \<le> 2 ^ 60" using st Cons.prems(4,5) by simp_all
    from Cons.IH [OF _ this 2] Cons.prems(1) show ?thesis by simp
  qed
qed simp

text \<open>
  Every price of a run of \<open>n\<close> calls is at least 100 and at most \<open>20000 + 350 n\<close>: the signed offset is
  added to the unsigned last price without ever wrapping below 0, and rounding to a multiple of 100
  never falls to 0.
\<close>

theorem generated_prices_range:
  assumes "\<forall>d \<in> set ds. price_draws_ok d" and "length ds \<le> 2 ^ 50"
  shows "\<forall>p \<in> set (generate_prices ds new_generator). 100 \<le> unat p \<and> unat p \<le> 20000 + 350 * length ds"
proof
  fix p assume p: "p \<in> set (generate_prices ds new_generator)"
  show "100 \<le> unat p \<and> unat p \<le> 20000 + 350 * length ds"
    by (rule generate_prices_bounds [OF assms(1) _ _ _ _ p]) (use assms(2) in \<open>simp_all add: new_generator_def\<close>)
qed

corollary generated_prices_range_sample:
  "100 \<le> unat (hd (generate_prices [\<lparr>cluster = True, offset_val = - 300, wide_val = 10000, round_price = True\<rparr>] new_generator)) \<and>
   unat (hd (generate_prices [\<lparr>cluster = True, offset_val = - 300, wide_val = 10000, round_price = True\<rparr>] new_generator)) \<le> 20350"
  using generated_prices_range [of "[\<lparr>cluster = True, offset_val = - 300, wide_val = 10000, round_price = True\<rparr>]"]
  by (simp add: price_draws_ok_def split: prod.splits)

section \<open>All that a run generates\<close>

text \<open>
  C36: The numbers of a run are what the generator documents. Every size is one of 250, 500 and 750, or a whole
  multiple of 1000 from 1000 to 100000; the prices of \<open>n\<close> calls are at least 100 and at most \<open>20000 + 350 n\<close>,
  so the signed offset never carries them through 0 or around the end of 64 bits; and the identifiers
  are \<open>1, 2, 3, ...\<close>, all different.
\<close>

theorem generated_numbers_in_range:
  assumes "\<forall>d \<in> set sds. size_draws_ok d" and "\<forall>d \<in> set pds. price_draws_ok d" and "length pds \<le> 2 ^ 50"
    and "n < 2 ^ 64"
  shows "(\<forall>d \<in> set sds. let sz = unat (fst (generate_random_size d g)) in
      sz \<in> {250, 500, 750} \<or> 1000 dvd sz \<and> 1000 \<le> sz \<and> sz \<le> 100000) \<and>
    (\<forall>p \<in> set (generate_prices pds new_generator). 100 \<le> unat p \<and> unat p \<le> 20000 + 350 * length pds) \<and>
    generate_ids n new_generator = map (\<lambda>i. word_of_nat (Suc i)) [0..<n] \<and> distinct (generate_ids n new_generator)"
proof (intro conjI)
  show "\<forall>d \<in> set sds. let sz = unat (fst (generate_random_size d g)) in
      sz \<in> {250, 500, 750} \<or> 1000 dvd sz \<and> 1000 \<le> sz \<and> sz \<le> 100000"
  proof
    fix d assume "d \<in> set sds"
    with assms(1) have d: "size_draws_ok d" by blast
    obtain sz g' where r: "generate_random_size d g = (sz, g')" by fastforce
    from generated_size_range [OF d r] show "let sz = unat (fst (generate_random_size d g)) in
      sz \<in> {250, 500, 750} \<or> 1000 dvd sz \<and> 1000 \<le> sz \<and> sz \<le> 100000"
      unfolding Let_def r fst_conv by (cases "fractional d") simp_all
  qed
qed (use generated_prices_range [OF assms(2,3)] generated_ids_distinct [OF assms(4)] in blast)+

corollary generated_numbers_in_range_sample:
  "unat (fst (generate_random_size \<lparr>fractional = True, frac_val = 3, whole_val = 40\<rparr> new_generator)) = 750 \<and>
   100 \<le> unat (hd (generate_prices [\<lparr>cluster = True, offset_val = - 300, wide_val = 10000, round_price = True\<rparr>] new_generator)) \<and>
   distinct (generate_ids 100 new_generator)"
proof -
  have s: "\<forall>d \<in> set [\<lparr>fractional = True, frac_val = 3, whole_val = 40\<rparr>]. size_draws_ok d"
    by (simp add: size_draws_ok_def)
  have p: "\<forall>d \<in> set [\<lparr>cluster = True, offset_val = - 300, wide_val = 10000, round_price = True\<rparr>]. price_draws_ok d"
    by (simp add: price_draws_ok_def)
  have len: "length [\<lparr>cluster = True, offset_val = - 300, wide_val = 10000, round_price = True\<rparr>] \<le> 2 ^ 50"
    "(100 :: nat) < 2 ^ 64" by simp_all
  note r = generated_numbers_in_range [OF s p len, of new_generator]
  have "unat (fst (generate_random_size \<lparr>fractional = True, frac_val = 3, whole_val = 40\<rparr> new_generator)) = 750"
    by (simp add: generate_random_size_def)
  moreover have "100 \<le> unat (hd (generate_prices [\<lparr>cluster = True, offset_val = - 300, wide_val = 10000, round_price = True\<rparr>] new_generator))"
    using r [THEN conjunct2, THEN conjunct1] by (simp split: prod.splits)
  ultimately show ?thesis using r by blast
qed

end
