(* ===== verification/Driver.thy ===== *)
theory Driver
  imports Book_Wear Book_Depth Order_Generator
begin

text \<open>
  \<open>project/entrypoint.cpp\<close>: the simulation. Each of its 100 iterations adds a generated order,
  tracks the pointer if the order has a size left, sometimes cancels one of the tracked orders, and
  drops the pointers whose order has size 0. The draws of the iteration are parameters, with the
  documented ranges of the distributions as hypotheses.
\<close>

section \<open>The program\<close>

record draws =
  d_client :: u64
  d_size :: size_draws
  d_price :: price_draws
  d_side :: bool
  d_limit :: bool
  d_cancel :: bool
  d_index :: "nat \<Rightarrow> nat"

definition draws_ok :: "draws \<Rightarrow> bool" where
  "draws_ok d \<longleftrightarrow> size_draws_ok (d_size d) \<and> price_draws_ok (d_price d) \<and> (\<forall>n. d_index d n \<le> n)"

record driver =
  drv_book :: order_book
  drv_gen :: generator
  drv_orders :: "ptr list"

text \<open>\<open>std::remove_if\<close> with the predicate \<open>o->size == 0\<close>, followed by \<open>erase\<close>.\<close>

fun drop_closed :: "order mem_pool \<Rightarrow> ptr list \<Rightarrow> ptr list result" where
  "drop_closed pool [] = Inr []"
| "drop_closed pool (p # ps) =
     rbind (read_order pool p) (\<lambda>ord.
     rbind (drop_closed pool ps) (\<lambda>rest.
       Inr (if order_size ord = 0 then rest else p # rest)))"

text \<open>The new pointer is tracked when \<open>order && order->size > 0\<close>.\<close>

definition track_order :: "order mem_pool \<Rightarrow> ptr \<Rightarrow> ptr list \<Rightarrow> ptr list result" where
  "track_order pool p orders =
     (if p = None then Inr orders
      else rbind (read_order pool p) (\<lambda>ord. Inr (if order_size ord > 0 then orders @ [p] else orders)))"

definition random_cancel :: "draws \<Rightarrow> order_book \<Rightarrow> ptr list \<Rightarrow> (order_book \<times> ptr list) result" where
  "random_cancel d b orders =
     (if orders \<noteq> [] \<and> d_cancel d then
        let index_to_cancel = d_index d (length orders - 1) in
        if index_to_cancel < length orders then
          let order_to_cancel = orders ! index_to_cancel;
              remaining = take index_to_cancel orders @ drop (Suc index_to_cancel) orders
          in rbind (read_order (order_pool b) order_to_cancel) (\<lambda>ord.
               if order_size ord > 0 then rbind (cancel_order order_to_cancel b) (\<lambda>b'. Inr (b', remaining))
               else Inr (b, remaining))
        else Inl OutOfRange
      else Inr (b, orders))"

definition driver_step :: "draws \<Rightarrow> driver \<Rightarrow> driver result" where
  "driver_step d s =
     (let (order_id, g1) = get_next_order_id (drv_gen s);
          (client_id, g2) = generate_uuid_v4_as_uint64 (d_client d) g1;
          (sz, g3) = generate_random_size (d_size d) g2;
          (pr, g4) = generate_random_price (d_price d) g3
      in rbind (add_order order_id client_id sz pr (d_side d) (if d_limit d then Limit else Market) (drv_book s)) (\<lambda>(p, b1).
         rbind (track_order (order_pool b1) p (drv_orders s)) (\<lambda>orders1.
         rbind (random_cancel d b1 orders1) (\<lambda>(b2, orders2).
         rbind (drop_closed (order_pool b2) orders2) (\<lambda>orders3.
           Inr \<lparr>drv_book = b2, drv_gen = g4, drv_orders = orders3\<rparr>)))))"

fun run_driver :: "draws list \<Rightarrow> driver \<Rightarrow> driver result" where
  "run_driver [] s = Inr s"
| "run_driver (d # ds) s = rbind (driver_step d s) (run_driver ds)"

text \<open>
  \<open>main\<close>, with the draws of its iterations: the lines that it logs, from the greeting over those of the
  book to the text of the final book.
\<close>

definition start_driver :: "driver result" where
  "start_driver = rbind (order_book_new ''AAPL'' 1024) (\<lambda>b.
     Inr \<lparr>drv_book = b, drv_gen = new_generator, drv_orders = []\<rparr>)"

definition simulation_log :: "fmt_ops \<Rightarrow> event list \<Rightarrow> string \<Rightarrow> string list" where
  "simulation_log F ev text =
     ''Initializing the Order Book'' # map (log_line F) ev @
     [''Order Book after adding and randomly cancelling orders:'' @ newline @ text]"

definition entrypoint_main :: "fmt_ops \<Rightarrow> draws list \<Rightarrow> string list result option" where
  "entrypoint_main F ds =
     orbind (Some (rbind start_driver (run_driver ds))) (\<lambda>s.
     orbind (book_to_string F (drv_book s)) (\<lambda>text.
       Some (Inr (simulation_log F (book_log (drv_book s)) text))))"

section \<open>The tracked pointers\<close>

definition sized :: "order_book \<Rightarrow> nat \<Rightarrow> bool" where
  "sized b p \<longleftrightarrow> order_size (object (store (order_pool b) ! p)) \<noteq> 0"

text \<open>
  Within an iteration the list may hold closed orders, but only ones that show size 0; between
  iterations it holds exactly the resting orders, each once.
\<close>

definition tracks :: "order_book \<Rightarrow> nat list \<Rightarrow> bool" where
  "tracks b ps \<longleftrightarrow> distinct ps \<and> book_slots (view b) \<subseteq> set ps \<and>
     (\<forall>p \<in> set ps. p < pool_cap (order_pool b) \<and> (sized b p \<longleftrightarrow> p \<in> book_slots (view b)))"

definition driver_ok :: "nat \<Rightarrow> driver \<Rightarrow> bool" where
  "driver_ok n s \<longleftrightarrow> book_good (drv_book s) \<and> n \<le> length (sb_free (view (drv_book s))) \<and>
     (\<exists>ps. drv_orders s = map Some ps \<and> distinct ps \<and> set ps = book_slots (view (drv_book s)))"

lemma read_order_cap: "p < pool_cap (order_pool b) \<Longrightarrow>
    \<exists>ord. read_order (order_pool b) (Some p) = Inr ord \<and> (order_size ord = 0 \<longleftrightarrow> \<not> sized b p)"
  by (simp add: read_order_def pool_cap_def sized_def)

lemma slots_sized: "book_inv b \<Longrightarrow> p \<in> book_slots (view b) \<Longrightarrow> sized b p"
  using linked_size linked_iff by (simp add: sized_def)

lemma slots_cap: "book_inv b \<Longrightarrow> p \<in> book_slots (view b) \<Longrightarrow> p < pool_cap (order_pool b)"
  using linked_in_use linked_iff by (simp add: in_use_def)

lemma drop_closed_tracks:
  assumes "\<forall>p \<in> set ps. p < pool_cap (order_pool b)"
  shows "drop_closed (order_pool b) (map Some ps) = Inr (map Some (filter (sized b) ps))"
  using assms
proof (induction ps)
  case (Cons p ps)
  from Cons.prems obtain ord where "read_order (order_pool b) (Some p) = Inr ord"
    "order_size ord = 0 \<longleftrightarrow> \<not> sized b p" using read_order_cap by fastforce
  with Cons show ?case by simp
qed simp

lemma track_order_tracks:
  assumes b: "book_inv b" and ps: "distinct ps" "set ps = book_slots (view b)"
    and a: "add_order oid cid sz pr buy ty b = Inr (Some f, b')" and b': "book_inv b'"
  obtains qs where "track_order (order_pool b') (Some f) (map Some ps) = Inr (map Some qs)" "tracks b' qs"
proof -
  have cap: "pool_cap (order_pool b') = pool_cap (order_pool b)" using a by (rule add_order_cap)
  note new = add_order_new_tracked [OF b a]
  have old: "p < pool_cap (order_pool b') \<and> (sized b' p \<longleftrightarrow> p \<in> book_slots (view b'))" if "p \<in> set ps" for p
  proof -
    have pb: "p \<in> book_slots (view b)" using that ps(2) by simp
    then have "linked b' p \<or> \<not> sized b' p"
      using add_order_tracked [OF b _ a, of p] linked_iff [OF b] by (simp add: sized_def)
    then show ?thesis using slots_cap [OF b pb] cap slots_sized [OF b'] linked_iff [OF b'] by auto
  qed
  have f: "f < pool_cap (order_pool b')"
    using add_order_outcome [OF b a] free_not_linked(2) [OF b, of f] cap by (metis list.set_intros(1))
  have fs: "sized b' f \<longleftrightarrow> f \<in> book_slots (view b')" using new(1) linked_iff [OF b'] by (simp add: sized_def)
  obtain ord where rd: "read_order (order_pool b') (Some f) = Inr ord" and z: "order_size ord = 0 \<longleftrightarrow> \<not> sized b' f"
    using read_order_cap [OF f] by blast
  let ?qs = "if sized b' f then ps @ [f] else ps"
  have "track_order (order_pool b') (Some f) (map Some ps) = Inr (map Some ?qs)"
    using rd z by (simp add: track_order_def word_gt_0)
  moreover have "tracks b' ?qs"
    unfolding tracks_def using ps old f fs new(3) add_order_slots(1) [OF b a] by auto
  ultimately show thesis by (rule that)
qed

lemma distinct_drop_nth:
  assumes "distinct xs" and "i < length xs"
  shows "set (take i xs @ drop (Suc i) xs) = set xs - {xs ! i}" "distinct (take i xs @ drop (Suc i) xs)"
proof -
  have xs: "xs = take i xs @ xs ! i # drop (Suc i) xs" using assms(2) by (simp add: id_take_nth_drop)
  have d: "distinct (take i xs @ xs ! i # drop (Suc i) xs)" using assms(1) xs by simp
  then show "distinct (take i xs @ drop (Suc i) xs)" by auto
  have "set xs = set (take i xs @ xs ! i # drop (Suc i) xs)" using xs by simp
  then show "set (take i xs @ drop (Suc i) xs) = set xs - {xs ! i}" using d by auto
qed

lemma random_cancel_tracks:
  assumes b: "book_good b" and t: "tracks b ps" and d: "\<forall>n. d_index d n \<le> n"
  obtains b' qs where "random_cancel d b (map Some ps) = Inr (b', map Some qs)" "book_good b'" "tracks b' qs"
    "length (sb_free (view b)) \<le> length (sb_free (view b'))"
proof (cases "ps \<noteq> [] \<and> d_cancel d")
  case False
  then show thesis using b t by (intro that [of b ps]) (auto simp: random_cancel_def)
next
  case True
  let ?i = "d_index d (length ps - 1)"
  let ?qs = "take ?i ps @ drop (Suc ?i) ps"
  have inv: "book_inv b" using b by (simp add: book_good_def)
  have "?i \<le> length ps - 1" using d by simp
  moreover have "0 < length ps" using True by simp
  ultimately have i: "?i < length ps" by linarith
  note tr = t [unfolded tracks_def]
  note dn = distinct_drop_nth [OF conjunct1 [OF tr] i]
  have pin: "ps ! ?i \<in> set ps" using i by simp
  then have pc: "ps ! ?i < pool_cap (order_pool b)" and ps: "sized b (ps ! ?i) \<longleftrightarrow> ps ! ?i \<in> book_slots (view b)"
    using tr by blast+
  obtain ord where rd: "read_order (order_pool b) (Some (ps ! ?i)) = Inr ord" and z: "order_size ord = 0 \<longleftrightarrow> \<not> sized b (ps ! ?i)"
    using read_order_cap [OF pc] by blast
  have run: "random_cancel d b (map Some ps) =
      (if sized b (ps ! ?i) then rbind (cancel_order (Some (ps ! ?i)) b) (\<lambda>b'. Inr (b', map Some ?qs)) else Inr (b, map Some ?qs))"
    using True i rd z by (simp add: random_cancel_def Let_def take_map drop_map word_gt_0)
  show thesis
  proof (cases "sized b (ps ! ?i)")
    case False
    have "tracks b ?qs" using tr dn False ps unfolding tracks_def by auto
    with run False b show thesis by (intro that [of b ?qs]) simp_all
  next
    case sz: True
    have lk: "linked b (ps ! ?i)" using sz ps linked_iff [OF inv] by simp
    have mc: "may_cancel b (ps ! ?i)" using lk linked_in_use [OF inv] by (simp add: may_cancel_def)
    obtain b' where c: "cancel_order (Some (ps ! ?i)) b = Inr b'" and g: "book_good b'"
      using b mc by (rule cancel_order_good)
    note cs = cancel_linked_slots [OF inv lk c]
    have "sized b' p = sized b p" if "p < pool_cap (order_pool b)" for p
      using cancel_order_sizes [OF c that] by (simp add: sized_def)
    then have "tracks b' ?qs"
      using tr dn cs(4) cancel_order_cap [OF c] unfolding tracks_def by auto
    moreover have "length (sb_free (view b)) \<le> length (sb_free (view b'))" unfolding cs(1) by simp
    ultimately show thesis using run sz c g by (intro that [of b' ?qs]) simp_all
  qed
qed

text \<open>
  The first half of an iteration: the order is added and tracked, or the pool is full, \<open>addOrder\<close> answers
  \<open>nullptr\<close>, and nothing is tracked.
\<close>

lemma add_and_track:
  assumes g: "book_good b" and ps: "distinct ps" "set ps = book_slots (view b)"
  obtains r b' qs where "add_order oid cid sz pr buy ty b = Inr (r, b')" "book_good b'"
    "track_order (order_pool b') r (map Some ps) = Inr (map Some qs)" "tracks b' qs"
    "length (sb_free (view b)) - 1 \<le> length (sb_free (view b'))"
proof -
  have inv: "book_inv b" using g by (simp add: book_good_def)
  obtain r b' where a: "add_order oid cid sz pr buy ty b = Inr (r, b')" and g': "book_good b'"
    using g by (rule add_order_good)
  have inv': "book_inv b'" using g' by (simp add: book_good_def)
  show thesis
  proof (cases r)
    case None
    then have b': "b' = b" using add_order_None(2) [OF inv, of oid cid sz pr buy ty b'] a by simp
    have "tracks b ps"
      using ps slots_sized [OF inv] slots_cap [OF inv] by (simp add: tracks_def)
    then show thesis
      using a g' None b' by (intro that [of r b' ps]) (simp_all add: track_order_def)
  next
    case (Some f)
    obtain qs where "track_order (order_pool b') (Some f) (map Some ps) = Inr (map Some qs)" "tracks b' qs"
      using inv ps a [unfolded Some] inv' by (rule track_order_tracks)
    with a g' Some add_order_slots(2) [OF inv a [unfolded Some]] show thesis
      by (intro that [of r b' qs]) (simp_all del: view_simps)
  qed
qed

lemma driver_step_ok:
  assumes s: "driver_ok n s" and d: "draws_ok d"
  obtains s' where "driver_step d s = Inr s'" "driver_ok (n - 1) s'"
proof -
  let ?b = "drv_book s"
  have g: "book_good ?b" and fr: "n \<le> length (sb_free (view ?b))" using s by (simp_all add: driver_ok_def)
  obtain ps where ps: "drv_orders s = map Some ps" "distinct ps" "set ps = book_slots (view ?b)"
    using s unfolding driver_ok_def by blast
  obtain oid g1 where g1: "get_next_order_id (drv_gen s) = (oid, g1)" by fastforce
  obtain cid g2 where g2: "generate_uuid_v4_as_uint64 (d_client d) g1 = (cid, g2)" by fastforce
  obtain sz g3 where g3: "generate_random_size (d_size d) g2 = (sz, g3)" by fastforce
  obtain pr g4 where g4: "generate_random_price (d_price d) g3 = (pr, g4)" by fastforce
  let ?ty = "if d_limit d then Limit else Market"
  obtain r b1 qs where a: "add_order oid cid sz pr (d_side d) ?ty ?b = Inr (r, b1)" and good1: "book_good b1"
    and tk: "track_order (order_pool b1) r (map Some ps) = Inr (map Some qs)" and t1: "tracks b1 qs"
    and fr1: "length (sb_free (view ?b)) - 1 \<le> length (sb_free (view b1))"
    using g ps(2,3) by (rule add_and_track)
  obtain b2 rs where rc: "random_cancel d b1 (map Some qs) = Inr (b2, map Some rs)" and good2: "book_good b2"
    and t2: "tracks b2 rs" and fr2: "length (sb_free (view b1)) \<le> length (sb_free (view b2))"
    by (rule random_cancel_tracks [OF good1 t1, of d]) (use d in \<open>auto simp: draws_ok_def\<close>)
  have inv2: "book_inv b2" using good2 by (simp add: book_good_def)
  have dc: "drop_closed (order_pool b2) (map Some rs) = Inr (map Some (filter (sized b2) rs))"
    using t2 by (intro drop_closed_tracks) (simp add: tracks_def)
  let ?s' = "\<lparr>drv_book = b2, drv_gen = g4, drv_orders = map Some (filter (sized b2) rs)\<rparr>"
  have "driver_step d s = Inr ?s'"
    unfolding driver_step_def g1 g2 g3 g4 Let_def prod.case
    using a tk rc dc ps(1) by simp
  moreover have "set (filter (sized b2) rs) = book_slots (view b2)"
    using t2 slots_sized [OF inv2] unfolding tracks_def by auto
  moreover have "n - 1 \<le> length (sb_free (view b2))" using fr fr1 fr2 by linarith
  ultimately have "driver_ok (n - 1) ?s'"
    using good2 t2 by (simp add: driver_ok_def tracks_def del: view_simps)
  with \<open>driver_step d s = Inr ?s'\<close> show thesis by (rule that)
qed

lemma run_driver_ok:
  "driver_ok n s \<Longrightarrow> \<forall>d \<in> set ds. draws_ok d \<Longrightarrow> \<exists>s'. run_driver ds s = Inr s' \<and> driver_ok (n - length ds) s'"
proof (induction ds arbitrary: n s)
  case (Cons d ds)
  obtain s1 where "driver_step d s = Inr s1" "driver_ok (n - 1) s1"
    by (rule driver_step_ok [of n s d]) (use Cons.prems in auto)
  with Cons.IH [of "n - 1" s1] Cons.prems(2) show ?case by simp
qed simp

lemma start_driver_ok:
  obtains s where "start_driver = Inr s" "driver_ok 1024 s"
proof -
  obtain b where b: "order_book_new ''AAPL'' 1024 = Inr b" "book_inv b" "view b = spec_new ''AAPL'' (unat (1024 :: size_t))"
    by (rule order_book_new_view [of 1024 "''AAPL''"]) simp_all
  have "book_good b" using b(2,3) by (simp add: book_good_def uncrossed_def spec_new_def)
  then have "driver_ok 1024 \<lparr>drv_book = b, drv_gen = new_generator, drv_orders = []\<rparr>"
    using b(3) by (simp add: driver_ok_def spec_new_def book_slots_def del: view_simps)
  moreover have "start_driver = Inr \<lparr>drv_book = b, drv_gen = new_generator, drv_orders = []\<rparr>"
    using b(1) by (simp add: start_driver_def)
  ultimately show thesis by (intro that)
qed

text \<open>
  C17: The simulation never goes wrong. Whatever its random draws, within the ranges that the
  distributions document, and however many iterations it makes (100 in \<open>main\<close>), it returns without a
  fault: no cancellation of a closed order, no stale pointer among the tracked ones, and a full pool
  only means that nothing is added. The final book is in order and not crossed, the tracked pointers
  are exactly the resting orders, each once, an iteration uses up at most one of the 1024 slots, and
  the log is complete, down to the text of the final book, on which \<open>toString\<close> ends.
\<close>

theorem simulation_safe:
  assumes "\<forall>d \<in> set ds. draws_ok d"
  shows "\<exists>s ps. rbind start_driver (run_driver ds) = Inr s \<and>
    book_inv (drv_book s) \<and> uncrossed (view (drv_book s)) \<and>
    drv_orders s = map Some ps \<and> distinct ps \<and> set ps = book_slots (view (drv_book s)) \<and>
    1024 - length ds \<le> length (sb_free (view (drv_book s))) \<and>
    entrypoint_main F ds = Some (Inr (simulation_log F (book_log (drv_book s)) (spec_table F (view (drv_book s)))))"
proof -
  obtain s0 where s0: "start_driver = Inr s0" "driver_ok 1024 s0" by (rule start_driver_ok)
  obtain s where s: "run_driver ds s0 = Inr s" "driver_ok (1024 - length ds) s"
    using run_driver_ok [OF s0(2) assms] by blast
  have inv: "book_inv (drv_book s)" using s(2) by (simp add: driver_ok_def book_good_def)
  have run: "rbind start_driver (run_driver ds) = Inr s"
    unfolding s0(1) rbind_Inr by (rule s(1))
  have "book_to_string F (drv_book s) = Some (Inr (spec_table F (view (drv_book s))))"
    by (rule book_to_string_spec [OF inv])
  then have "entrypoint_main F ds = Some (Inr (simulation_log F (book_log (drv_book s)) (spec_table F (view (drv_book s)))))"
    using run by (simp add: entrypoint_main_def)
  with run s(2) show ?thesis unfolding driver_ok_def book_good_def by blast
qed

definition sample_draws :: draws where
  "sample_draws = \<lparr>d_client = 5, d_size = \<lparr>fractional = False, frac_val = 1, whole_val = 3\<rparr>,
     d_price = \<lparr>cluster = True, offset_val = 10, wide_val = 15000, round_price = True\<rparr>,
     d_side = True, d_limit = True, d_cancel = True, d_index = (\<lambda>n. n)\<rparr>"

corollary simulation_safe_sample:
  "\<exists>s ps. rbind start_driver (run_driver (replicate 100 sample_draws)) = Inr s \<and> drv_orders s = map Some ps \<and>
     set ps = book_slots (view (drv_book s)) \<and> 924 \<le> length (sb_free (view (drv_book s)))"
proof -
  have "\<forall>d \<in> set (replicate 100 sample_draws). draws_ok d"
    by (simp add: sample_draws_def draws_ok_def size_draws_ok_def price_draws_ok_def)
  from simulation_safe [OF this] obtain s ps where "rbind start_driver (run_driver (replicate 100 sample_draws)) = Inr s"
    "drv_orders s = map Some ps" "set ps = book_slots (view (drv_book s))"
    "1024 - length (replicate 100 sample_draws) \<le> length (sb_free (view (drv_book s)))"
    by blast
  then show ?thesis unfolding length_replicate by (intro exI [of _ s] exI [of _ ps] conjI) simp_all
qed

end
