(* ===== verification/Mem_Pool_Separate.thy ===== *)
theory Mem_Pool_Separate
  imports Slot_Allocator
begin

text \<open>
  \<open>project/mem_pool_separate_free_structure.hpp\<close>: the variant of the pool whose blocks keep
  the link of the free list in a field of their own, beside the storage of the object.
\<close>

section \<open>Blocks and operations\<close>

record 'a block =
  storage :: 'a
  next_free :: size_t

record 'a sep_pool =
  sep_store :: "'a block list"
  sep_next_free_index :: size_t

definition sep_pool_new :: "'a \<Rightarrow> size_t \<Rightarrow> 'a sep_pool result" where
  "sep_pool_new zero num_elems =
     (if num_elems > 0 then
        Inr \<lparr>sep_store = fold (\<lambda>i st. st[i := (st ! i)\<lparr>next_free := word_of_nat i + 1\<rparr>])
                         [0..<unat num_elems]
                         (replicate (unat num_elems) \<lparr>storage = zero, next_free = 0\<rparr>),
             sep_next_free_index = 0\<rparr>
      else Inl Aborted)"

definition sep_allocate :: "'a sep_pool \<Rightarrow> 'a \<Rightarrow> ptr \<times> 'a sep_pool" where
  "sep_allocate p v =
     (if sep_next_free_index p \<ge> word_of_nat (length (sep_store p)) then (None, p)
      else
        let i = unat (sep_next_free_index p);
            block = sep_store p ! i
        in (Some i, p\<lparr>sep_next_free_index := next_free block,
                      sep_store := (sep_store p)[i := block\<lparr>storage := v\<rparr>]\<rparr>))"

definition sep_deallocate :: "ptr \<Rightarrow> 'a sep_pool \<Rightarrow> 'a sep_pool result" where
  "sep_deallocate pt p = (case pt of
     None \<Rightarrow> Inl NullDeref
   | Some i \<Rightarrow>
       if i < length (sep_store p) then
         Inr (p\<lparr>sep_store := (sep_store p)[i := (sep_store p ! i)\<lparr>next_free := sep_next_free_index p\<rparr>],
                sep_next_free_index := word_of_nat i\<rparr>)
       else Inl OutOfRange)"

section \<open>The free list and the invariant\<close>

definition sep_free_slots :: "'a sep_pool \<Rightarrow> nat list" where
  "sep_free_slots p = free_walk next_free (sep_store p) (length (sep_store p)) (sep_next_free_index p)"

definition sep_cap :: "'a sep_pool \<Rightarrow> nat" where
  "sep_cap p = length (sep_store p)"

definition sep_contents :: "'a sep_pool \<Rightarrow> nat \<Rightarrow> 'a" where
  "sep_contents p i = storage (sep_store p ! i)"

definition sep_repr :: "'a sep_pool \<Rightarrow> nat list \<Rightarrow> bool" where
  "sep_repr p fs \<longleftrightarrow> length (sep_store p) < 2 ^ 64 \<and> distinct fs \<and>
     chain next_free (sep_store p) (sep_next_free_index p) fs"

definition sep_ok :: "'a sep_pool \<Rightarrow> bool" where
  "sep_ok p \<longleftrightarrow> sep_repr p (sep_free_slots p)"

lemma sep_repr_below: "sep_repr p fs \<Longrightarrow> f \<in> set fs \<Longrightarrow> f < length (sep_store p)"
  by (auto simp: sep_repr_def dest: chain_below)

lemma sep_repr_free_slots: "sep_repr p fs \<Longrightarrow> sep_free_slots p = fs"
  unfolding sep_free_slots_def
  by (rule chain_walk) (auto simp: sep_repr_def dest: chain_below intro!: distinct_below_length)

lemma sep_repr_ok: "sep_repr p fs \<Longrightarrow> sep_ok p"
  by (simp add: sep_ok_def sep_repr_free_slots)

lemma sep_allocate_repr:
  assumes "sep_repr p (f # fs)"
  shows "fst (sep_allocate p v) = Some f"
    and "sep_store (snd (sep_allocate p v)) = (sep_store p)[f := (sep_store p ! f)\<lparr>storage := v\<rparr>]"
    and "sep_repr (snd (sep_allocate p v)) fs"
proof -
  let ?st = "sep_store p"
  from assms have f: "unat (sep_next_free_index p) = f" "f < length ?st" "length ?st < 2 ^ 64"
    and ch: "chain next_free ?st (next_free (?st ! f)) fs" and ds: "f \<notin> set fs" "distinct fs"
    by (auto simp: sep_repr_def)
  have le: "\<not> word_of_nat (length ?st) \<le> sep_next_free_index p"
    using f by (simp add: word_le_nat_alt unat_word_of_nat)
  have al: "sep_allocate p v = (Some f, p\<lparr>sep_next_free_index := next_free (?st ! f),
                      sep_store := ?st[f := (?st ! f)\<lparr>storage := v\<rparr>]\<rparr>)"
    using le by (simp add: sep_allocate_def Let_def f(1) del: not_le)
  show "fst (sep_allocate p v) = Some f"
    "sep_store (snd (sep_allocate p v)) = (sep_store p)[f := (sep_store p ! f)\<lparr>storage := v\<rparr>]"
    by (simp_all add: al)
  show "sep_repr (snd (sep_allocate p v)) fs"
    using f ch ds by (simp add: al sep_repr_def chain_update)
qed

lemma sep_deallocate_repr:
  assumes p: "sep_repr p fs" and i: "i < length (sep_store p)" "i \<notin> set fs"
  obtains p' where "sep_deallocate (Some i) p = Inr p'" "sep_repr p' (i # fs)"
    "sep_store p' = (sep_store p)[i := (sep_store p ! i)\<lparr>next_free := sep_next_free_index p\<rparr>]"
proof -
  define p' where "p' = p\<lparr>sep_store := (sep_store p)[i := (sep_store p ! i)\<lparr>next_free := sep_next_free_index p\<rparr>],
                          sep_next_free_index := word_of_nat i\<rparr>"
  have "sep_deallocate (Some i) p = Inr p'" using i by (simp add: sep_deallocate_def p'_def)
  moreover have "sep_repr p' (i # fs)"
    using p i by (simp add: p'_def sep_repr_def chain_update unat_word_of_nat)
  ultimately show thesis by (rule that) (simp add: p'_def)
qed

lemma sep_pool_new_repr:
  assumes "n > 0"
  obtains p where "sep_pool_new z n = Inr p" "sep_repr p [0..<unat n]" "sep_cap p = unat n"
proof -
  define g where "g i e = (e :: 'a block)\<lparr>next_free := word_of_nat i + 1\<rparr>" for i e
  define st where "st = map (\<lambda>i. g i (replicate (unat n) \<lparr>storage = z, next_free = 0\<rparr> ! i)) [0..<unat n]"
  have fold: "fold (\<lambda>i st. st[i := g i (st ! i)]) [0..<unat n]
      (replicate (unat n) \<lparr>storage = z, next_free = 0\<rparr>) = st"
    unfolding st_def using fold_update_all [of g "replicate (unat n) \<lparr>storage = z, next_free = 0\<rparr>"] by simp
  have new: "sep_pool_new z n = Inr \<lparr>sep_store = st, sep_next_free_index = 0\<rparr>"
    using assms fold by (simp add: sep_pool_new_def g_def)
  have len: "length st = unat n" by (simp add: st_def)
  have bound: "unat n < 2 ^ 64" using unsigned_less [of n] by simp
  have "next_free (st ! i) = word_of_nat (Suc i)" if "i < unat n" for i
    using that by (simp add: st_def g_def add.commute)
  from chain_upt [where lk = next_free, OF this len bound, of 0]
  have "sep_repr \<lparr>sep_store = st, sep_next_free_index = 0\<rparr> [0..<unat n]"
    using len bound by (simp add: sep_repr_def)
  with new len show thesis by (intro that) (auto simp: sep_cap_def)
qed

section \<open>The variant provides the allocator interface too\<close>

interpretation sp: slot_allocator sep_allocate sep_deallocate sep_free_slots sep_cap sep_contents sep_ok
proof
  fix p :: "'a sep_pool" and v f fs i
  assume "sep_ok p"
  then have r: "sep_repr p (sep_free_slots p)" by (simp add: sep_ok_def)
  show "sep_free_slots p = [] \<Longrightarrow> sep_allocate p v = (None, p)"
    using r by (auto simp: sep_repr_def sep_allocate_def word_le_nat_alt unat_word_of_nat)
  show "distinct (sep_free_slots p)" using r by (simp add: sep_repr_def)
  show "f \<in> set (sep_free_slots p) \<Longrightarrow> f < sep_cap p"
    using sep_repr_below [OF r] by (simp add: sep_cap_def)
  show "\<exists>p'. sep_allocate p v = (Some f, p') \<and> sep_ok p' \<and> sep_free_slots p' = fs \<and>
      sep_cap p' = sep_cap p \<and> sep_contents p' f = v \<and>
      (\<forall>j. j \<noteq> f \<longrightarrow> sep_contents p' j = sep_contents p j)" if "sep_free_slots p = f # fs"
  proof (intro exI conjI)
    let ?p' = "snd (sep_allocate p v)"
    note al = sep_allocate_repr [OF r [unfolded that], of v]
    show "sep_allocate p v = (Some f, ?p')" using al(1) by (simp add: prod_eq_iff)
    show "sep_ok ?p'" "sep_free_slots ?p' = fs"
      using al(3) by (simp_all add: sep_repr_ok sep_repr_free_slots)
    have "f < length (sep_store p)" using sep_repr_below [OF r] that by simp
    then show "sep_cap ?p' = sep_cap p" "sep_contents ?p' f = v"
      "\<forall>j. j \<noteq> f \<longrightarrow> sep_contents ?p' j = sep_contents p j"
      using al(2) by (simp_all add: sep_cap_def sep_contents_def)
  qed
  show "\<exists>p'. sep_deallocate (Some i) p = Inr p' \<and> sep_ok p' \<and>
      sep_free_slots p' = i # sep_free_slots p \<and> sep_cap p' = sep_cap p \<and>
      (\<forall>j. j \<noteq> i \<longrightarrow> sep_contents p' j = sep_contents p j)"
    if "i < sep_cap p" "i \<notin> set (sep_free_slots p)"
  proof -
    from that have i: "i < length (sep_store p)" "i \<notin> set (sep_free_slots p)"
      by (simp_all add: sep_cap_def)
    then obtain p' where "sep_deallocate (Some i) p = Inr p'" "sep_repr p' (i # sep_free_slots p)"
      "sep_store p' = (sep_store p)[i := (sep_store p ! i)\<lparr>next_free := sep_next_free_index p\<rparr>]"
      using sep_deallocate_repr [OF r i] by blast
    then show ?thesis
      by (intro exI [of _ p']) (auto simp: sep_cap_def sep_contents_def sep_repr_ok sep_repr_free_slots nth_list_update)
  qed
qed

text \<open>Giving a block back leaves its object intact: the link does not overlay it.\<close>

lemma sep_deallocate_contents:
  "sep_deallocate (Some i) p = Inr p' \<Longrightarrow> sep_contents p' j = sep_contents p j"
  by (auto simp: sep_deallocate_def sep_contents_def nth_list_update split: if_splits)

end
