(* ===== verification/Pool_Claims.thy ===== *)
theory Pool_Claims
  imports Mem_Pool_Separate Order_Model
begin

text \<open>
  The properties of the two memory pools, obtained from the allocator interface that both
  provide: what they answer to any well-behaved sequence of requests, that they are
  interchangeable, that live objects keep their values, and what a slot given back twice does.
\<close>

section \<open>Requests against a fresh pool\<close>

lemma mem_pool_new_ok:
  assumes "n > 0"
  obtains p where "mem_pool_new order_overlay z n = Inr p" "pool_ok order_overlay p"
    "free_slots order_overlay p = [0..<unat n]" "pool_cap p = unat n"
  using om.mem_pool_new_repr [OF assms, of z] pool_repr_ok pool_repr_free_slots by metis

lemma sep_pool_new_ok:
  assumes "n > 0"
  obtains p where "sep_pool_new z n = Inr p" "sep_ok p" "sep_free_slots p = [0..<unat n]" "sep_cap p = unat n"
  using sep_pool_new_repr [OF assms, of z] sep_repr_ok sep_repr_free_slots by metis

text \<open>
  \<open>MemPool\<close> answers every sequence of requests as a stack of free slots does. For a client that
  gives back only slots it holds, no request faults; the slots of a fresh pool come in increasing
  order, a slot given back is the next one handed out, and \<open>nullptr\<close> is the answer exactly when the
  stack is empty.
\<close>

theorem mem_pool_behaves:
  assumes "n > 0" and "valid_requests (unat n) rs [0..<unat n]"
  shows "\<exists>p p'. mem_pool_new order_overlay zero_order n = Inr p \<and>
    pool_run (allocate order_overlay) (deallocate order_overlay) rs p =
      Inr (fst (free_run rs [0..<unat n]), p') \<and>
    pool_ok order_overlay p' \<and> free_slots order_overlay p' = snd (free_run rs [0..<unat n])"
proof -
  obtain p where p: "mem_pool_new order_overlay zero_order n = Inr p" "pool_ok order_overlay p"
    "free_slots order_overlay p = [0..<unat n]" "pool_cap p = unat n"
    using assms(1) by (rule mem_pool_new_ok)
  from om.alloc.pool_run_spec [OF p(2), of rs] p assms(2) show ?thesis by auto
qed

text \<open>Take three slots, give the middle one back, take it again, and run out.\<close>

definition sample_requests :: "order request list" where
  "sample_requests = [Alloc zero_order, Alloc zero_order, Alloc zero_order, Dealloc 1, Alloc zero_order, Alloc zero_order]"

lemma sample_requests_valid: "valid_requests (unat (3 :: size_t)) sample_requests [0..<unat (3 :: size_t)]"
  "fst (free_run sample_requests [0..<unat (3 :: size_t)]) = [Some 0, Some 1, Some 2, Some 1, None]"
  by code_simp+

corollary mem_pool_behaves_sample:
  "\<exists>p p'. mem_pool_new order_overlay zero_order 3 = Inr p \<and>
    pool_run (allocate order_overlay) (deallocate order_overlay) sample_requests p =
      Inr ([Some 0, Some 1, Some 2, Some 1, None], p')"
  using mem_pool_behaves [OF _ sample_requests_valid(1)] sample_requests_valid(2) by auto

text \<open>
  C20: The two pools are interchangeable: \<open>MemPool\<close>, with its free list threaded through the storage
  of the objects, and \<open>MemPoolSeparateFreeStructure\<close>, with a separate link per block, return the same
  slots to every well-behaved sequence of requests and keep the same free list: those of a stack of free
  slots. No request faults; the slots of a fresh pool come in increasing order, a slot given back is the next
  one handed out, and \<open>nullptr\<close> is the answer exactly when the stack is empty.
\<close>

theorem pools_equivalent:
  assumes "n > 0" and "valid_requests (unat n) rs [0..<unat n]"
  shows "\<exists>p p' s s'. mem_pool_new order_overlay zero_order n = Inr p \<and> sep_pool_new zero_order n = Inr s \<and>
    pool_run (allocate order_overlay) (deallocate order_overlay) rs p = Inr (fst (free_run rs [0..<unat n]), p') \<and>
    pool_run sep_allocate sep_deallocate rs s = Inr (fst (free_run rs [0..<unat n]), s') \<and>
    free_slots order_overlay p' = snd (free_run rs [0..<unat n]) \<and> sep_free_slots s' = snd (free_run rs [0..<unat n])"
proof -
  obtain p where p: "mem_pool_new order_overlay zero_order n = Inr p" "pool_ok order_overlay p"
    "free_slots order_overlay p = [0..<unat n]" "pool_cap p = unat n"
    using assms(1) by (rule mem_pool_new_ok)
  obtain s where s: "sep_pool_new zero_order n = Inr s" "sep_ok s" "sep_free_slots s = [0..<unat n]" "sep_cap s = unat n"
    using assms(1) by (rule sep_pool_new_ok)
  from om.alloc.pool_run_spec [OF p(2), of rs] sp.pool_run_spec [OF s(2), of rs] p s assms(2)
  show ?thesis by auto
qed

corollary pools_equivalent_sample:
  "\<exists>p p' s s'. mem_pool_new order_overlay zero_order 3 = Inr p \<and> sep_pool_new zero_order 3 = Inr s \<and>
    pool_run (allocate order_overlay) (deallocate order_overlay) sample_requests p =
      Inr ([Some 0, Some 1, Some 2, Some 1, None], p') \<and>
    pool_run sep_allocate sep_deallocate sample_requests s = Inr ([Some 0, Some 1, Some 2, Some 1, None], s')"
  using pools_equivalent [OF _ sample_requests_valid(1)] sample_requests_valid(2) by auto

text \<open>
  A live object keeps its value. Whatever the client allocates and gives back, an object whose
  slot it does not give back still holds what was constructed there, links of the free list included.
\<close>

theorem live_object_kept:
  assumes "pool_ok order_overlay p" and "allocate order_overlay p v = (Some i, p1)"
    and "valid_requests (pool_cap p1) rs (free_slots order_overlay p1)" and "\<not> frees_slot i rs"
    and "pool_run (allocate order_overlay) (deallocate order_overlay) rs p1 = Inr (out, p2)"
  shows "pool_contents p2 i = v"
proof -
  note a = om.alloc.alloc_fresh [OF assms(1,2)]
  from a(3) have "i \<in> om.alloc.live p1" by simp
  from om.alloc.pool_run_contents [OF a(5) assms(3) this assms(4,5)] a(4) show ?thesis by simp
qed

definition sample_pool :: "order mem_pool" where
  "sample_pool = (case mem_pool_new order_overlay zero_order 3 of Inr p \<Rightarrow> p | Inl _ \<Rightarrow> \<lparr>store = [], next_free_index = 0\<rparr>)"

lemma sample_pool_new: "mem_pool_new order_overlay zero_order 3 = Inr sample_pool"
  by code_simp

lemma sample_pool_facts:
  "pool_ok order_overlay sample_pool" "free_slots order_overlay sample_pool = [0, 1, 2]" "pool_cap sample_pool = 3"
proof -
  obtain p where "mem_pool_new order_overlay zero_order 3 = Inr p" "pool_ok order_overlay p"
    "free_slots order_overlay p = [0..<unat (3 :: size_t)]" "pool_cap p = unat (3 :: size_t)"
    by (rule mem_pool_new_ok [of 3 zero_order]) simp_all
  then show "pool_ok order_overlay sample_pool" "free_slots order_overlay sample_pool = [0, 1, 2]" "pool_cap sample_pool = 3"
    by (simp_all add: sample_pool_new upt_conv_Cons)
qed

definition kept_order :: order where
  "kept_order = mk_order 77 5 ''XYZ'' 10 100 True Limit"

definition kept_pool :: "order mem_pool" where
  "kept_pool = snd (allocate order_overlay sample_pool kept_order)"

definition kept_requests :: "order request list" where
  "kept_requests = [Alloc zero_order, Dealloc 1, Alloc zero_order]"

lemma kept_facts:
  "allocate order_overlay sample_pool kept_order = (Some 0, kept_pool)"
  "valid_requests (pool_cap kept_pool) kept_requests (free_slots order_overlay kept_pool)"
  "\<not> frees_slot 0 kept_requests"
  by code_simp+

corollary live_object_kept_sample:
  "\<exists>out p2. pool_run (allocate order_overlay) (deallocate order_overlay) kept_requests kept_pool = Inr (out, p2) \<and>
     pool_contents p2 0 = kept_order"
proof -
  have "pool_ok order_overlay kept_pool"
    using om.alloc.alloc_fresh(5) [OF sample_pool_facts(1) kept_facts(1)] .
  then obtain out p2 where r: "pool_run (allocate order_overlay) (deallocate order_overlay) kept_requests kept_pool = Inr (out, p2)"
    using om.alloc.pool_run_spec [OF _ kept_facts(2)] by blast
  from live_object_kept [OF sample_pool_facts(1) kept_facts r] r show ?thesis by blast
qed

text \<open>
  C32: Giving the same slot back twice, which the pool does not detect, makes the next two
  allocations return the same slot: two live objects share their storage.
\<close>

theorem double_deallocate_aliases:
  assumes "pool_ok order_overlay p" and "i < pool_cap p" and "i \<notin> set (free_slots order_overlay p)"
  shows "\<exists>p1 p2 p3 p4. deallocate order_overlay (Some i) p = Inr p1 \<and> deallocate order_overlay (Some i) p1 = Inr p2 \<and>
    allocate order_overlay p2 v = (Some i, p3) \<and> allocate order_overlay p3 w = (Some i, p4)"
  by (rule om.double_deallocate [OF assms, of v w]) blast

corollary double_deallocate_aliases_sample:
  "\<exists>p1 p2 p3 p4. deallocate order_overlay (Some 0) kept_pool = Inr p1 \<and> deallocate order_overlay (Some 0) p1 = Inr p2 \<and>
    allocate order_overlay p2 kept_order = (Some 0, p3) \<and> allocate order_overlay p3 zero_order = (Some 0, p4)"
proof (rule double_deallocate_aliases)
  show "pool_ok order_overlay kept_pool"
    using om.alloc.alloc_fresh(5) [OF sample_pool_facts(1) kept_facts(1)] .
  show "0 < pool_cap kept_pool" "0 \<notin> set (free_slots order_overlay kept_pool)" by code_simp+
qed

end
