(* ===== verification/Queue_Claims.thy ===== *)
theory Queue_Claims
  imports Order_Model
begin

text \<open>
  The properties of the intrusive queue, over whole sequences of requests: the pointer code answers
  as a list does, and changes nothing of the queued objects but their links.
\<close>

section \<open>Requests\<close>

datatype queue_request = Append nat | Remove nat | Pop

fun queue_run :: "'h node_ops \<Rightarrow> queue_request list \<Rightarrow> 'h \<times> queue \<Rightarrow> (ptr list \<times> 'h \<times> queue) result" where
  "queue_run H [] hq = Inr ([], hq)"
| "queue_run H (Append x # rs) hq = rbind (q_append H (Some x) hq) (queue_run H rs)"
| "queue_run H (Remove x # rs) hq = rbind (q_remove H (Some x) hq) (queue_run H rs)"
| "queue_run H (Pop # rs) hq =
     rbind (q_pop H hq) (\<lambda>(p, hq'). rbind (queue_run H rs hq') (\<lambda>(out, hq''). Inr (p # out, hq'')))"

text \<open>The specification: a list, oldest first.\<close>

fun fifo_run :: "queue_request list \<Rightarrow> nat list \<Rightarrow> ptr list \<times> nat list" where
  "fifo_run [] xs = ([], xs)"
| "fifo_run (Append x # rs) xs = fifo_run rs (xs @ [x])"
| "fifo_run (Remove x # rs) xs = fifo_run rs (remove1 x xs)"
| "fifo_run (Pop # rs) xs = (case fifo_run rs (tl xs) of (out, ys) \<Rightarrow> (ptr_hd xs # out, ys))"

text \<open>Only objects of the heap are appended, none twice, and only queued ones are removed.\<close>

fun valid_queue_requests :: "nat \<Rightarrow> queue_request list \<Rightarrow> nat list \<Rightarrow> bool" where
  "valid_queue_requests n [] xs = True"
| "valid_queue_requests n (Append x # rs) xs \<longleftrightarrow> x < n \<and> x \<notin> set xs \<and> valid_queue_requests n rs (xs @ [x])"
| "valid_queue_requests n (Remove x # rs) xs \<longleftrightarrow> x \<in> set xs \<and> valid_queue_requests n rs (remove1 x xs)"
| "valid_queue_requests n (Pop # rs) xs = valid_queue_requests n rs (tl xs)"

context node_heap
begin

lemma q_pop_step:
  assumes "q_repr H h q (x # xs)"
  obtains h' q' where "q_pop H (h, q) = Inr (Some x, h', q')" "q_repr H h' q' xs" "payload h' = payload h"
    "\<And>b. get_node H h' b = None \<longleftrightarrow> get_node H h b = None"
proof -
  have hd: "q_head q = Some x" using assms by (simp add: q_repr_def)
  obtain h' q' where "q_remove H (Some x) (h, q) = Inr (h', q')" "q_repr H h' q' (remove1 x (x # xs))"
    "payload h' = payload h" "\<And>b. get_node H h' b = None \<longleftrightarrow> get_node H h b = None"
    by (rule q_remove_repr [OF assms, of x]) auto
  with hd show thesis by (intro that [of h' q']) (simp_all add: q_pop_def)
qed

lemma queue_run_spec:
  assumes "n < 2 ^ 64"
  shows "q_repr H h q xs \<Longrightarrow> \<forall>x. x < n \<longrightarrow> get_node H h x \<noteq> None \<Longrightarrow> \<forall>x \<in> set xs. x < n \<Longrightarrow> valid_queue_requests n rs xs \<Longrightarrow>
    \<exists>h' q'. queue_run H rs (h, q) = Inr (fst (fifo_run rs xs), h', q') \<and> q_repr H h' q' (snd (fifo_run rs xs)) \<and>
      payload h' = payload h"
proof (induction rs arbitrary: h q xs)
  case (Cons r rs)
  show ?case
  proof (cases r)
    case (Append x)
    then have x: "x < n" "x \<notin> set xs" using Cons.prems(4) by simp_all
    have "distinct (x # xs)" using Cons.prems(1) x(2) by (simp add: q_repr_def)
    then have "length (x # xs) \<le> n" by (rule distinct_below_length) (use x Cons.prems(3) in simp)
    then have len: "Suc (length xs) < 2 ^ 64" using assms by simp
    have gx: "get_node H h x \<noteq> None" using Cons.prems(2) x(1) by blast
    obtain h1 q1 where a: "q_append H (Some x) (h, q) = Inr (h1, q1)" "q_repr H h1 q1 (xs @ [x])"
      "payload h1 = payload h" "\<And>b. get_node H h1 b = None \<longleftrightarrow> get_node H h b = None"
      by (rule q_append_repr [OF Cons.prems(1) x(2) gx len]) blast
    have "\<forall>y \<in> set (xs @ [x]). y < n" using Cons.prems(3) x by simp
    from Cons.IH [OF a(2) _ this] a Cons.prems(2,4) Append show ?thesis by simp
  next
    case (Remove x)
    then have x: "x \<in> set xs" using Cons.prems(4) by simp
    obtain h1 q1 where a: "q_remove H (Some x) (h, q) = Inr (h1, q1)" "q_repr H h1 q1 (remove1 x xs)"
      "payload h1 = payload h" "\<And>b. get_node H h1 b = None \<longleftrightarrow> get_node H h b = None"
      by (rule q_remove_repr [OF Cons.prems(1) x]) auto
    have "\<forall>y \<in> set (remove1 x xs). y < n" using Cons.prems(3) set_remove1_subset by fast
    from Cons.IH [OF a(2) _ this] a Cons.prems(2,4) Remove show ?thesis by simp
  next
    case Pop
    show ?thesis
    proof (cases xs)
      case Nil
      from Cons.IH [OF Cons.prems(1,2,3)] Cons.prems(1,4) Pop Nil q_pop_empty [of h q]
      show ?thesis by (auto split: prod.splits)
    next
      case (Cons y ys)
      obtain h1 q1 where a: "q_pop H (h, q) = Inr (Some y, h1, q1)" "q_repr H h1 q1 ys" "payload h1 = payload h"
        "\<And>b. get_node H h1 b = None \<longleftrightarrow> get_node H h b = None"
        by (rule q_pop_step [OF Cons.prems(1) [unfolded Cons]]) blast
      have "\<forall>z \<in> set ys. z < n" using Cons.prems(3) Cons by simp
      from Cons.IH [OF a(2) _ this] a Cons.prems(2,4) Pop Cons show ?thesis by (auto split: prod.splits)
    qed
  qed
qed simp

end

section \<open>The queue of orders\<close>

text \<open>
  C25: The intrusive queue is a FIFO list. Any sequence of appends of unqueued orders, removals of
  queued ones (from any position) and pops runs without a fault on an empty queue; the pops
  return the oldest order still queued, \<open>nullptr\<close> when there is none; at the end \<open>head\<close>, \<open>tail\<close>, \<open>size\<close>
  and both chains of links are those of the list; and nothing of the orders but their links has changed.
\<close>

theorem queue_is_fifo:
  assumes "length st < 2 ^ 64" and "valid_queue_requests (length st) rs []"
  shows "\<exists>st' q'. queue_run order_nodes rs (st, empty_queue) = Inr (fst (fifo_run rs []), st', q') \<and>
    q_repr order_nodes st' q' (snd (fifo_run rs [])) \<and>
    q_walk order_nodes st' (unat (q_size q')) (q_head q') = snd (fifo_run rs []) \<and>
    q_tail q' = ptr_last (snd (fifo_run rs [])) \<and> store_core st' = store_core st"
proof -
  have e: "q_repr order_nodes st empty_queue []" by (simp add: q_repr_def empty_queue_def)
  obtain st' q' where r: "queue_run order_nodes rs (st, empty_queue) = Inr (fst (fifo_run rs []), st', q')"
    "q_repr order_nodes st' q' (snd (fifo_run rs []))" "store_core st' = store_core st"
    using oh.queue_run_spec [OF assms(1) e _ _ assms(2)] by auto
  have "length (snd (fifo_run rs [])) \<le> unat (q_size q')"
    using r(2) by (simp add: q_repr_def unat_word_of_nat)
  then have "q_walk order_nodes st' (unat (q_size q')) (q_head q') = snd (fifo_run rs [])"
    by (rule q_repr_walk [OF r(2)])
  with r show ?thesis by (auto simp: q_repr_def)
qed

definition sample_store :: order_store where
  "sample_store = replicate 3 \<lparr>is_free_or_in_use = False, object = zero_order\<rparr>"

definition sample_queue_requests :: "queue_request list" where
  "sample_queue_requests = [Append 2, Append 0, Append 1, Remove 0, Pop, Pop, Pop, Append 0]"

lemma sample_queue_facts:
  "valid_queue_requests (length sample_store) sample_queue_requests []" "length sample_store = 3"
  "fifo_run sample_queue_requests [] = ([Some 2, Some 1, None], [0])"
  by code_simp+

corollary queue_is_fifo_sample:
  "\<exists>st' q'. queue_run order_nodes sample_queue_requests (sample_store, empty_queue) = Inr ([Some 2, Some 1, None], st', q') \<and>
     q_tail q' = Some 0"
  using queue_is_fifo [OF _ sample_queue_facts(1)] unfolding sample_queue_facts(2,3) by auto

end
