(* ===== verification/Object_Store.thy ===== *)
theory Object_Store
  imports Mem_Pool Mem_Pool_Separate
begin

text \<open>
  What a client of an allocator may rely on, whatever the allocator: objects live at addresses from
  allocation to deallocation. The two pools provide this interface through \<open>slot_allocator\<close>; the
  system heap behind \<open>new\<close>/\<open>delete\<close> and \<open>malloc\<close>/\<open>free\<close> provides it with an address that is fresh at
  every allocation, as long as the system has memory left. The benchmarks are written, and proved,
  against it.
\<close>

section \<open>Operations\<close>

text \<open>
  An allocation answers a pointer, answers \<open>nullptr\<close> (a full pool), or ends the program (an exhausted
  system heap).
\<close>

record ('p, 'a) store_ops =
  op_alloc :: "'p \<Rightarrow> 'a \<Rightarrow> (ptr \<times> 'p) result"
  op_dealloc :: "ptr \<Rightarrow> 'p \<Rightarrow> 'p result"
  op_read :: "ptr \<Rightarrow> 'p \<Rightarrow> 'a result"

section \<open>The interface\<close>

locale object_store =
  fixes ops :: "('p, 'a) store_ops"
    and objects :: "'p \<Rightarrow> nat \<Rightarrow> 'a option"
    and room :: "'p \<Rightarrow> nat \<Rightarrow> bool"
    and inv :: "'p \<Rightarrow> bool"
  assumes alloc_room: "inv p \<Longrightarrow> room p (Suc k) \<Longrightarrow> \<exists>i p'. op_alloc ops p v = Inr (Some i, p') \<and> room p' k"
    and room_less: "inv p \<Longrightarrow> room p (Suc k) \<Longrightarrow> room p k"
    and alloc_None: "inv p \<Longrightarrow> op_alloc ops p v = Inr (None, p') \<Longrightarrow> inv p' \<and> objects p' = objects p"
    and alloc_Some: "inv p \<Longrightarrow> op_alloc ops p v = Inr (Some i, p') \<Longrightarrow>
      inv p' \<and> objects p i = None \<and> objects p' = (objects p)(i \<mapsto> v)"
    and dealloc_object: "inv p \<Longrightarrow> objects p i = Some v \<Longrightarrow>
      \<exists>p'. op_dealloc ops (Some i) p = Inr p' \<and> inv p' \<and> objects p' = (objects p)(i := None) \<and>
           (\<forall>k. room p k \<longrightarrow> room p' (Suc k))"
    and read_object: "inv p \<Longrightarrow> objects p i = Some v \<Longrightarrow> op_read ops (Some i) p = Inr v"
    and objects_finite: "inv p \<Longrightarrow> finite (dom (objects p))"

text \<open>
  A store of a fixed capacity: there is room for as many objects as the live ones leave, and an
  allocation succeeds only if there is room for one.
\<close>

locale counted_store = object_store ops objects room inv
  for ops :: "('p, 'a) store_ops" and objects room inv +
  fixes capacity :: "'p \<Rightarrow> nat"
  assumes room_iff: "inv p \<Longrightarrow> room p (Suc k) \<longleftrightarrow> card (dom (objects p)) + Suc k \<le> capacity p"
    and alloc_capacity: "inv p \<Longrightarrow> op_alloc ops p v = Inr (q, p') \<Longrightarrow> capacity p' = capacity p"
    and alloc_needs_room: "inv p \<Longrightarrow> op_alloc ops p v = Inr (Some i, p') \<Longrightarrow> room p 1"
    and dealloc_capacity: "inv p \<Longrightarrow> objects p i = Some v \<Longrightarrow> op_dealloc ops (Some i) p = Inr p' \<Longrightarrow> capacity p' = capacity p"
begin

text \<open>Whether an allocation answers a pointer is decided by the number of live objects.\<close>

lemma alloc_answer:
  assumes "inv p" and "op_alloc ops p v = Inr (q, p')"
  shows "q \<noteq> None \<longleftrightarrow> card (dom (objects p)) < capacity p"
proof (cases q)
  case None
  have "\<not> room p (Suc 0)"
  proof
    assume "room p (Suc 0)"
    from alloc_room [OF assms(1) this, of v] assms(2) None show False by auto
  qed
  with room_iff [OF assms(1), of 0] None show ?thesis by auto
next
  case (Some i)
  have "room p (Suc 0)" using alloc_needs_room [OF assms(1)] assms(2) Some by simp
  with room_iff [OF assms(1), of 0] Some show ?thesis by simp
qed

end

section \<open>Pools\<close>

text \<open>A pool whose live objects can be read through their pointers.\<close>

definition allocator_ops ::
  "('p \<Rightarrow> 'a \<Rightarrow> ptr \<times> 'p) \<Rightarrow> (ptr \<Rightarrow> 'p \<Rightarrow> 'p result) \<Rightarrow> (ptr \<Rightarrow> 'p \<Rightarrow> 'a result) \<Rightarrow> ('p, 'a) store_ops"
where
  "allocator_ops al de rd = \<lparr>op_alloc = (\<lambda>p v. Inr (al p v)), op_dealloc = de, op_read = rd\<rparr>"

definition live_in :: "('p \<Rightarrow> nat list) \<Rightarrow> ('p \<Rightarrow> nat) \<Rightarrow> ('p \<Rightarrow> nat \<Rightarrow> 'a) \<Rightarrow> 'p \<Rightarrow> nat \<Rightarrow> 'a option" where
  "live_in free cap contents p i = (if i < cap p \<and> i \<notin> set (free p) then Some (contents p i) else None)"

locale readable_allocator = slot_allocator alloc dealloc free cap contents inv
  for alloc :: "'p \<Rightarrow> 'a \<Rightarrow> ptr \<times> 'p" and dealloc free cap contents inv +
  fixes read :: "ptr \<Rightarrow> 'p \<Rightarrow> 'a result"
  assumes read_live: "inv p \<Longrightarrow> i < cap p \<Longrightarrow> read (Some i) p = Inr (contents p i)"
begin

abbreviation pool_ops :: "('p, 'a) store_ops" where
  "pool_ops \<equiv> allocator_ops alloc dealloc read"

abbreviation live_objects :: "'p \<Rightarrow> nat \<Rightarrow> 'a option" where
  "live_objects \<equiv> live_in free cap contents"

lemmas pool_ops_def = allocator_ops_def
lemmas live_objects_def = live_in_def

lemma live_objects_alloc:
  assumes "inv p" and "alloc p v = (Some i, p')"
  shows "inv p'" "live_objects p i = None" "live_objects p' = (live_objects p)(i \<mapsto> v)" "length (free p) = Suc (length (free p'))"
proof -
  from assms alloc_full [of p v] obtain f fs where f: "free p = f # fs" by (cases "free p") auto
  with alloc_free [OF assms(1) f, of v] assms(2) have i: "f = i"
    and p': "inv p'" "free p' = fs" "cap p' = cap p" "contents p' i = v" "\<forall>j. j \<noteq> i \<longrightarrow> contents p' j = contents p j"
    by auto
  have b: "i < cap p" "i \<notin> set fs" using free_below [OF assms(1)] free_distinct [OF assms(1)] f i by auto
  show "inv p'" by (rule p'(1))
  show "live_objects p i = None" using f i by (simp add: live_objects_def)
  show "live_objects p' = (live_objects p)(i \<mapsto> v)"
    using p' b f i by (auto simp: live_objects_def fun_eq_iff)
  show "length (free p) = Suc (length (free p'))" using f p' by simp
qed

lemma live_objects_dealloc:
  assumes "inv p" and "live_objects p i = Some v"
  obtains p' where "dealloc (Some i) p = Inr p'" "inv p'" "live_objects p' = (live_objects p)(i := None)"
    "length (free p') = Suc (length (free p))"
proof -
  have i: "i < cap p" "i \<notin> set (free p)" using assms(2) by (auto simp: live_objects_def split: if_splits)
  from dealloc_live [OF assms(1) i] obtain p' where p': "dealloc (Some i) p = Inr p'" "inv p'"
    "free p' = i # free p" "cap p' = cap p" "\<forall>j. j \<noteq> i \<longrightarrow> contents p' j = contents p j" by blast
  moreover have "live_objects p' = (live_objects p)(i := None)"
    using p' by (auto simp: live_objects_def fun_eq_iff)
  ultimately show thesis by (intro that [of p']) simp_all
qed

lemma pool_object_store: "object_store pool_ops live_objects (\<lambda>p k. k \<le> length (free p)) inv"
proof
  fix p p' :: 'p and v k r i
  assume inv: "inv p"
  show "finite (dom (live_objects p))"
    by (rule finite_subset [of _ "{..<cap p}"]) (auto simp: live_objects_def split: if_splits)
  show "op_read pool_ops (Some i) p = Inr v" if "live_objects p i = Some v"
    using that read_live [OF inv] by (auto simp: live_objects_def pool_ops_def split: if_splits)
  show "inv p' \<and> live_objects p' = live_objects p" if "op_alloc pool_ops p v = Inr (None, p')"
  proof (cases "free p")
    case Nil
    with that inv alloc_full [OF inv, of v] show ?thesis by (simp add: pool_ops_def)
  next
    case (Cons f fs)
    with that alloc_free [OF inv, of f fs v] show ?thesis by (auto simp: pool_ops_def)
  qed
  show "inv p' \<and> live_objects p i = None \<and> live_objects p' = (live_objects p)(i \<mapsto> v)"
    if "op_alloc pool_ops p v = Inr (Some i, p')"
    using live_objects_alloc [OF inv] that by (simp add: pool_ops_def)
  show "\<exists>i p'. op_alloc pool_ops p v = Inr (Some i, p') \<and> k \<le> length (free p')"
    if room: "Suc k \<le> length (free p)"
  proof -
    from room obtain f fs where f: "free p = f # fs" by (cases "free p") auto
    with alloc_free [OF inv f, of v] show ?thesis using room by (auto simp: pool_ops_def)
  qed
  show "k \<le> length (free p)" if "Suc k \<le> length (free p)" using that by simp
  show "\<exists>p'. op_dealloc pool_ops (Some i) p = Inr p' \<and> inv p' \<and> live_objects p' = (live_objects p)(i := None) \<and>
      (\<forall>k. k \<le> length (free p) \<longrightarrow> Suc k \<le> length (free p'))" if lo: "live_objects p i = Some v"
  proof -
    obtain q where "dealloc (Some i) p = Inr q" "inv q" "live_objects q = (live_objects p)(i := None)"
      "length (free q) = Suc (length (free p))" using inv lo by (rule live_objects_dealloc)
    then show ?thesis by (intro exI [of _ q]) (simp add: pool_ops_def)
  qed
qed

end

sublocale readable_allocator \<subseteq> objs: object_store pool_ops live_objects "\<lambda>p k. k \<le> length (free p)" inv
  by (rule pool_object_store)

context readable_allocator
begin

lemma live_objects_count: "inv p \<Longrightarrow> card (dom (live_objects p)) + length (free p) = cap p"
proof -
  assume inv: "inv p"
  have sub: "set (free p) \<subseteq> {..<cap p}" using free_below [OF inv] by auto
  have "dom (live_objects p) = {..<cap p} - set (free p)" by (auto simp: live_objects_def split: if_splits)
  moreover have "card (set (free p)) = length (free p)" using free_distinct [OF inv] by (rule distinct_card)
  moreover have "card (set (free p)) \<le> cap p" using card_mono [OF _ sub] by simp
  ultimately show ?thesis using sub by (simp add: card_Diff_subset)
qed

lemma alloc_keeps_cap:
  assumes "inv p" and "alloc p v = (q, p')"
  shows "cap p' = cap p"
proof (cases "free p")
  case Nil
  with alloc_full [OF assms(1), of v] assms(2) show ?thesis by simp
next
  case (Cons f fs)
  with alloc_free [OF assms(1), of f fs v] assms(2) show ?thesis by auto
qed

lemma dealloc_keeps_cap:
  assumes "inv p" and "live_objects p i = Some v" and "dealloc (Some i) p = Inr p'"
  shows "cap p' = cap p"
proof -
  have i: "i < cap p" "i \<notin> set (free p)" using assms(2) by (auto simp: live_objects_def split: if_splits)
  from dealloc_live [OF assms(1) i] assms(3) show ?thesis by auto
qed

lemma pool_counted_store: "counted_store pool_ops live_objects (\<lambda>p k. k \<le> length (free p)) inv cap"
proof (intro counted_store.intro pool_object_store counted_store_axioms.intro)
  fix p p' :: 'p and v k q i
  assume inv: "inv p"
  show "Suc k \<le> length (free p) \<longleftrightarrow> card (dom (live_objects p)) + Suc k \<le> cap p"
    using live_objects_count [OF inv] by auto
  show "op_alloc pool_ops p v = Inr (q, p') \<Longrightarrow> cap p' = cap p"
    using alloc_keeps_cap [OF inv] by (simp add: pool_ops_def)
  show "op_alloc pool_ops p v = Inr (Some i, p') \<Longrightarrow> 1 \<le> length (free p)"
    using live_objects_alloc(4) [OF inv] by (simp add: pool_ops_def)
  show "live_objects p i = Some v \<Longrightarrow> op_dealloc pool_ops (Some i) p = Inr p' \<Longrightarrow> cap p' = cap p"
    using dealloc_keeps_cap [OF inv] by (simp add: pool_ops_def)
qed

end

section \<open>The system heap\<close>

text \<open>
  Addresses in the order of allocation; a cell is \<open>None\<close> once its object has been deleted. Deleting
  or reading anything but a live object is an error of the client. The system has memory for
  \<open>heap_limit\<close> objects at a time.
\<close>

record 'a sys_heap =
  cells :: "'a option list"
  heap_limit :: nat

definition heap_live :: "'a sys_heap \<Rightarrow> nat" where
  "heap_live h = length (filter (\<lambda>c. c \<noteq> None) (cells h))"

definition heap_take :: "'a sys_heap \<Rightarrow> 'a \<Rightarrow> (nat \<times> 'a sys_heap) option" where
  "heap_take h v =
     (if heap_live h < heap_limit h then Some (length (cells h), h\<lparr>cells := cells h @ [Some v]\<rparr>) else None)"

text \<open>
  \<open>new\<close> throws \<open>std::bad_alloc\<close> when there is no memory; nothing in the programs catches it, so it
  ends the process.
\<close>

definition heap_new :: "'a sys_heap \<Rightarrow> 'a \<Rightarrow> (ptr \<times> 'a sys_heap) result" where
  "heap_new h v = (case heap_take h v of None \<Rightarrow> Inl Aborted | Some (i, h') \<Rightarrow> Inr (Some i, h'))"

text \<open>
  \<open>malloc\<close> answers \<open>nullptr\<close> instead, and the programs construct the object through the pointer without
  looking at it.
\<close>

definition heap_malloc :: "'a sys_heap \<Rightarrow> 'a \<Rightarrow> (ptr \<times> 'a sys_heap) result" where
  "heap_malloc h v = (case heap_take h v of None \<Rightarrow> Inl NullDeref | Some (i, h') \<Rightarrow> Inr (Some i, h'))"

definition heap_delete :: "ptr \<Rightarrow> 'a sys_heap \<Rightarrow> 'a sys_heap result" where
  "heap_delete p h = (case p of
     None \<Rightarrow> Inr h
   | Some i \<Rightarrow>
       if i < length (cells h) \<and> cells h ! i \<noteq> None then Inr (h\<lparr>cells := (cells h)[i := None]\<rparr>)
       else Inl OutOfRange)"

definition heap_read :: "ptr \<Rightarrow> 'a sys_heap \<Rightarrow> 'a result" where
  "heap_read p h = (case p of
     None \<Rightarrow> Inl NullDeref
   | Some i \<Rightarrow>
       if i < length (cells h) then (case cells h ! i of None \<Rightarrow> Inl OutOfRange | Some v \<Rightarrow> Inr v)
       else Inl OutOfRange)"

definition new_ops :: "('a sys_heap, 'a) store_ops" where
  "new_ops = \<lparr>op_alloc = heap_new, op_dealloc = heap_delete, op_read = heap_read\<rparr>"

definition malloc_ops :: "('a sys_heap, 'a) store_ops" where
  "malloc_ops = \<lparr>op_alloc = heap_malloc, op_dealloc = heap_delete, op_read = heap_read\<rparr>"

definition heap_objects :: "'a sys_heap \<Rightarrow> nat \<Rightarrow> 'a option" where
  "heap_objects h i = (if i < length (cells h) then cells h ! i else None)"

definition heap_room :: "'a sys_heap \<Rightarrow> nat \<Rightarrow> bool" where
  "heap_room h k \<longleftrightarrow> heap_live h + k \<le> heap_limit h"

lemma filter_update_length:
  "i < length xs \<Longrightarrow> P (xs ! i) \<Longrightarrow> \<not> P x \<Longrightarrow> Suc (length (filter P (xs[i := x]))) = length (filter P xs)"
proof (induction xs arbitrary: i)
  case (Cons y ys)
  then show ?case by (cases i) auto
qed simp

lemma heap_take_facts:
  assumes "heap_take h v = Some (i, h')"
  shows "heap_objects h i = None" "heap_objects h' = (heap_objects h)(i \<mapsto> v)"
    "heap_live h' = Suc (heap_live h)" "heap_limit h' = heap_limit h"
  using assms by (auto simp: heap_take_def heap_objects_def heap_live_def fun_eq_iff nth_append split: if_splits)

lemma heap_take_None: "heap_take h v = None \<longleftrightarrow> \<not> heap_room h 1"
  by (simp add: heap_take_def heap_room_def Suc_le_eq not_less)

lemma heap_take_room: "heap_room h (Suc k) \<Longrightarrow> \<exists>i h'. heap_take h v = Some (i, h') \<and> heap_room h' k"
  using heap_take_None [of h v] by (cases "heap_take h v") (auto simp: heap_room_def heap_take_facts(3,4))

lemma heap_delete_object:
  assumes "heap_objects h i = Some v"
  obtains h' where "heap_delete (Some i) h = Inr h'" "heap_objects h' = (heap_objects h)(i := None)"
    "Suc (heap_live h') = heap_live h" "heap_limit h' = heap_limit h"
proof -
  have i: "i < length (cells h)" "cells h ! i = Some v" using assms by (auto simp: heap_objects_def split: if_splits)
  let ?h = "h\<lparr>cells := (cells h)[i := None]\<rparr>"
  have "heap_delete (Some i) h = Inr ?h" using i by (simp add: heap_delete_def)
  moreover have "heap_objects ?h = (heap_objects h)(i := None)"
    by (rule ext) (simp add: heap_objects_def nth_list_update)
  moreover have "Suc (heap_live ?h) = heap_live h"
    unfolding heap_live_def using filter_update_length [of i "cells h" "\<lambda>c. c \<noteq> None" None] i by simp
  ultimately show thesis by (rule that) simp
qed

text \<open>What \<open>new\<close> and \<open>malloc\<close> have in common: any allocation that takes from the heap while there is room.\<close>

lemma heap_object_store:
  assumes "\<And>h v. op_alloc ops h v = (case heap_take h v of None \<Rightarrow> Inl e | Some (i, h') \<Rightarrow> Inr (Some i, h'))"
    and "op_dealloc ops = heap_delete" and "op_read ops = heap_read"
  shows "object_store ops heap_objects heap_room (\<lambda>h. heap_limit h = lim)"
proof
  fix h h' :: "'a sys_heap" and v k i
  assume lim: "heap_limit h = lim"
  show "finite (dom (heap_objects h))"
    by (rule finite_subset [of _ "{..<length (cells h)}"]) (auto simp: heap_objects_def split: if_splits)
  show "heap_room h (Suc k) \<Longrightarrow> \<exists>i h'. op_alloc ops h v = Inr (Some i, h') \<and> heap_room h' k"
    using heap_take_room [of h k v] by (auto simp: assms(1))
  show "heap_room h (Suc k) \<Longrightarrow> heap_room h k" by (simp add: heap_room_def)
  show "op_alloc ops h v = Inr (None, h') \<Longrightarrow> heap_limit h' = lim \<and> heap_objects h' = heap_objects h"
    by (simp add: assms(1) split: option.splits prod.splits)
  show "op_alloc ops h v = Inr (Some i, h') \<Longrightarrow>
      heap_limit h' = lim \<and> heap_objects h i = None \<and> heap_objects h' = (heap_objects h)(i \<mapsto> v)"
    using heap_take_facts [of h v i h'] lim by (simp add: assms(1) split: option.splits prod.splits)
  show "heap_objects h i = Some v \<Longrightarrow> \<exists>h'. op_dealloc ops (Some i) h = Inr h' \<and> heap_limit h' = lim \<and>
      heap_objects h' = (heap_objects h)(i := None) \<and> (\<forall>k. heap_room h k \<longrightarrow> heap_room h' (Suc k))"
    unfolding assms(2) heap_room_def using lim by (elim heap_delete_object) auto
  show "heap_objects h i = Some v \<Longrightarrow> op_read ops (Some i) h = Inr v"
    by (auto simp: assms(3) heap_read_def heap_objects_def split: if_splits)
qed

lemma heap_live_count: "card (dom (heap_objects h)) = heap_live h"
proof -
  have "dom (heap_objects h) = {i. i < length (cells h) \<and> cells h ! i \<noteq> None}"
    by (auto simp: heap_objects_def split: if_splits)
  then show ?thesis by (simp add: heap_live_def length_filter_conv_card)
qed

lemma heap_counted_store:
  assumes "\<And>h v. op_alloc ops h v = (case heap_take h v of None \<Rightarrow> Inl e | Some (i, h') \<Rightarrow> Inr (Some i, h'))"
    and "op_dealloc ops = heap_delete" and "op_read ops = heap_read"
  shows "counted_store ops heap_objects heap_room (\<lambda>h. heap_limit h = lim) heap_limit"
proof (intro counted_store.intro counted_store_axioms.intro)
  show "object_store ops heap_objects heap_room (\<lambda>h. heap_limit h = lim)"
    by (rule heap_object_store) (rule assms)+
  fix h h' :: "'a sys_heap" and v k q i
  assume inv: "heap_limit h = lim"
  then show "heap_room h (Suc k) \<longleftrightarrow> card (dom (heap_objects h)) + Suc k \<le> heap_limit h"
    by (auto simp: heap_room_def heap_live_count)
  show "op_alloc ops h v = Inr (q, h') \<Longrightarrow> heap_limit h' = heap_limit h"
    by (auto simp: assms(1) heap_take_facts(4) split: option.splits prod.splits)
  show "op_alloc ops h v = Inr (Some i, h') \<Longrightarrow> heap_room h 1"
    using heap_take_None [of h v] by (cases "heap_take h v") (auto simp: assms(1))
  show "heap_objects h i = Some v \<Longrightarrow> op_dealloc ops (Some i) h = Inr h' \<Longrightarrow> heap_limit h' = heap_limit h"
    unfolding assms(2) by (elim heap_delete_object) auto
qed

lemma new_counted_store: "counted_store new_ops heap_objects heap_room (\<lambda>h. heap_limit h = lim) heap_limit"
  by (rule heap_counted_store) (simp_all add: new_ops_def heap_new_def)

lemma malloc_counted_store: "counted_store malloc_ops heap_objects heap_room (\<lambda>h. heap_limit h = lim) heap_limit"
  by (rule heap_counted_store) (simp_all add: malloc_ops_def heap_malloc_def)

text \<open>A heap without objects has room for as many as it has memory for.\<close>

lemma heap_empty_room:
  assumes "heap_objects h = Map.empty" shows "heap_room h k \<longleftrightarrow> k \<le> heap_limit h"
proof -
  have "\<forall>i < length (cells h). cells h ! i = None" using assms by (metis heap_objects_def)
  then have "filter (\<lambda>c. c \<noteq> None) (cells h) = []" by (auto simp: filter_empty_conv in_set_conv_nth)
  then show ?thesis by (simp add: heap_room_def heap_live_def)
qed

section \<open>The two pools, as object stores\<close>

definition pool_read :: "ptr \<Rightarrow> 'a mem_pool \<Rightarrow> 'a result" where
  "pool_read p pool = (case p of
     None \<Rightarrow> Inl NullDeref
   | Some i \<Rightarrow> if i < length (store pool) then Inr (object (store pool ! i)) else Inl OutOfRange)"

definition sep_read :: "ptr \<Rightarrow> 'a sep_pool \<Rightarrow> 'a result" where
  "sep_read p pool = (case p of
     None \<Rightarrow> Inl NullDeref
   | Some i \<Rightarrow> if i < length (sep_store pool) then Inr (storage (sep_store pool ! i)) else Inl OutOfRange)"

sublocale storage_overlay \<subseteq> readable: readable_allocator "allocate ov" "deallocate ov" "free_slots ov"
  pool_cap pool_contents "pool_ok ov" pool_read
  by unfold_locales (simp add: pool_read_def pool_cap_def pool_contents_def)

interpretation spr: readable_allocator sep_allocate sep_deallocate sep_free_slots sep_cap sep_contents sep_ok sep_read
  by unfold_locales (simp add: sep_read_def sep_cap_def sep_contents_def)

end
