(* ===== verification/Pool_Bench.thy ===== *)
theory Pool_Bench
  imports Object_Store
begin

text \<open>
  \<open>project/mem_pool_benchmark.cpp\<close> and \<open>project/mem_pool_separate_free_structure_benchmark.cpp\<close>: the
  allocation benchmarks. Each phase of the two files exists once for a pool, once for \<open>new\<close> and
  \<open>delete\<close> and once for \<open>malloc\<close> and \<open>free\<close>; the model has each phase once, over the operations of an
  allocator, and instances of it for each allocator. The time stamp counter is a stream of values
  and the draws of the random engine are parameters.
\<close>

section \<open>State\<close>

text \<open>\<open>struct Order\<close> of the benchmarks.\<close>

record bench_order =
  b_order_id :: u64
  b_price :: u64
  b_qty :: u64
  b_side :: u64

definition bench_order_of :: "nat \<Rightarrow> bench_order" where
  "bench_order_of i =
     (let w = word_of_nat i :: u64
      in \<lparr>b_order_id = w, b_price = w * 100, b_qty = w * 10, b_side = and w 1\<rparr>)"

text \<open>The first eight bytes, which the link of \<open>MemPool\<close> overlays, are \<open>order_id\<close>.\<close>

definition bench_overlay :: "bench_order overlay" where
  "bench_overlay = \<lparr>get_idx = b_order_id, set_idx = (\<lambda>w ord. ord\<lparr>b_order_id := w\<rparr>)\<rparr>"

interpretation bo: storage_overlay bench_overlay
  by unfold_locales (simp add: bench_overlay_def)

text \<open>\<open>Common::rdtsc\<close> on x86-64: the two halves that the instruction leaves in the registers.\<close>

definition rdtsc :: "u32 \<Rightarrow> u32 \<Rightarrow> u64" where
  "rdtsc hi lo = or (push_bit 32 (ucast hi)) (ucast lo)"

text \<open>The allocator, the volatile \<open>sink\<close> and the number of time stamps read so far.\<close>

record 'p bench =
  bn_pool :: 'p
  bn_sink :: u64
  bn_time :: nat

type_synonym clock = "nat \<Rightarrow> u64"

definition tick :: "clock \<Rightarrow> 'p bench \<Rightarrow> u64 \<times> 'p bench" where
  "tick tsc s = (tsc (bn_time s), s\<lparr>bn_time := Suc (bn_time s)\<rparr>)"

section \<open>Allocating and deallocating\<close>

fun alloc_loop ::
  "('p, bench_order) store_ops \<Rightarrow> nat list \<Rightarrow> ptr list \<Rightarrow> 'p bench \<Rightarrow> (ptr list \<times> 'p bench) result"
where
  "alloc_loop A [] ptrs s = Inr (ptrs, s)"
| "alloc_loop A (i # is) ptrs s =
     (if i < length ptrs then
        rbind (op_alloc A (bn_pool s) (bench_order_of i)) (\<lambda>(p, pool).
          alloc_loop A is (ptrs[i := p]) (s\<lparr>bn_pool := pool\<rparr>))
      else Inl OutOfRange)"

definition bench_allocate ::
  "clock \<Rightarrow> ('p, bench_order) store_ops \<Rightarrow> ptr list \<Rightarrow> nat \<Rightarrow> 'p bench \<Rightarrow> (u64 \<times> ptr list \<times> 'p bench) result"
where
  "bench_allocate tsc A ptrs n s =
     (case tick tsc s of (start, s1) \<Rightarrow>
        rbind (alloc_loop A [0..<n] ptrs s1) (\<lambda>(ptrs', s2).
          case tick tsc s2 of (stop, s3) \<Rightarrow> Inr (stop - start, ptrs', s3)))"

fun dealloc_loop ::
  "('p, bench_order) store_ops \<Rightarrow> nat list \<Rightarrow> ptr list \<Rightarrow> 'p bench \<Rightarrow> 'p bench result"
where
  "dealloc_loop A [] ptrs s = Inr s"
| "dealloc_loop A (idx # is) ptrs s =
     (if idx < length ptrs then
        rbind (op_read A (ptrs ! idx) (bn_pool s)) (\<lambda>ord.
        rbind (op_dealloc A (ptrs ! idx) (bn_pool s)) (\<lambda>pool.
          dealloc_loop A is ptrs (s\<lparr>bn_sink := bn_sink s + b_order_id ord, bn_pool := pool\<rparr>)))
      else Inl OutOfRange)"

definition bench_dealloc_random ::
  "clock \<Rightarrow> ('p, bench_order) store_ops \<Rightarrow> ptr list \<Rightarrow> nat list \<Rightarrow> 'p bench \<Rightarrow> (u64 \<times> 'p bench) result"
where
  "bench_dealloc_random tsc A ptrs order s =
     (case tick tsc s of (start, s1) \<Rightarrow>
        rbind (dealloc_loop A order ptrs s1) (\<lambda>s2.
          case tick tsc s2 of (stop, s3) \<Rightarrow> Inr (stop - start, s3)))"

definition bench_deallocate ::
  "clock \<Rightarrow> ('p, bench_order) store_ops \<Rightarrow> ptr list \<Rightarrow> nat \<Rightarrow> 'p bench \<Rightarrow> (u64 \<times> 'p bench) result"
where
  "bench_deallocate tsc A ptrs n s =
     (case tick tsc s of (start, s1) \<Rightarrow>
        rbind (dealloc_loop A [0..<n] ptrs s1) (\<lambda>s2.
          case tick tsc s2 of (stop, s3) \<Rightarrow> Inr (stop - start, s3)))"

section \<open>Churn\<close>

text \<open>
  What an iteration draws: the coin, and an index of the live elements. \<open>push\<close> is how a new pointer
  joins them: the pool benchmarks check for \<open>nullptr\<close>, the others do not.
\<close>

record churn_draw =
  coin_zero :: bool
  pick :: "nat \<Rightarrow> nat"

definition push_checked :: "ptr \<Rightarrow> ptr list \<Rightarrow> ptr list" where
  "push_checked p live = (if p \<noteq> None then live @ [p] else live)"

definition push_always :: "ptr \<Rightarrow> ptr list \<Rightarrow> ptr list" where
  "push_always p live = live @ [p]"

fun prefill :: "('p, bench_order) store_ops \<Rightarrow> nat list \<Rightarrow> ptr list \<Rightarrow> 'p bench \<Rightarrow> (ptr list \<times> 'p bench) result" where
  "prefill A [] live s = Inr (live, s)"
| "prefill A (i # is) live s =
     rbind (op_alloc A (bn_pool s) (bench_order_of i)) (\<lambda>(p, pool).
       prefill A is (live @ [p]) (s\<lparr>bn_pool := pool\<rparr>))"

text \<open>\<open>live[idx] = live.back(); live.pop_back()\<close>\<close>

definition swap_remove :: "nat \<Rightarrow> 'a list \<Rightarrow> 'a list" where
  "swap_remove idx live = butlast (live[idx := last live])"

fun churn_loop ::
  "('p, bench_order) store_ops \<Rightarrow> (ptr \<Rightarrow> ptr list \<Rightarrow> ptr list) \<Rightarrow> (nat \<times> churn_draw) list \<Rightarrow>
     ptr list \<Rightarrow> 'p bench \<Rightarrow> (ptr list \<times> 'p bench) result"
where
  "churn_loop A push [] live s = Inr (live, s)"
| "churn_loop A push ((i, d) # ds) live s =
     (if coin_zero d \<and> live \<noteq> [] then
        (let idx = pick d (length live - 1) in
         if idx < length live then
           rbind (op_read A (live ! idx) (bn_pool s)) (\<lambda>ord.
           rbind (op_dealloc A (live ! idx) (bn_pool s)) (\<lambda>pool.
             churn_loop A push ds (swap_remove idx live)
               (s\<lparr>bn_sink := bn_sink s + b_order_id ord, bn_pool := pool\<rparr>)))
         else Inl OutOfRange)
      else
        rbind (op_alloc A (bn_pool s) (bench_order_of i)) (\<lambda>(p, pool).
          churn_loop A push ds (push p live) (s\<lparr>bn_pool := pool\<rparr>)))"

fun release_all :: "('p, bench_order) store_ops \<Rightarrow> ptr list \<Rightarrow> 'p bench \<Rightarrow> 'p bench result" where
  "release_all A [] s = Inr s"
| "release_all A (p # ps) s = rbind (op_dealloc A p (bn_pool s)) (\<lambda>pool. release_all A ps (s\<lparr>bn_pool := pool\<rparr>))"

definition bench_churn ::
  "clock \<Rightarrow> ('p, bench_order) store_ops \<Rightarrow> (ptr \<Rightarrow> ptr list \<Rightarrow> ptr list) \<Rightarrow> churn_draw list \<Rightarrow> 'p bench \<Rightarrow>
     (u64 \<times> 'p bench) result"
where
  "bench_churn tsc A push ds s =
     (let n_ops = length ds
      in rbind (prefill A [0..<n_ops div 2] [] s) (\<lambda>(live, s1).
           case tick tsc s1 of (start, s2) \<Rightarrow>
             rbind (churn_loop A push (zip [0..<n_ops] ds) live s2) (\<lambda>(live', s3).
               case tick tsc s3 of (stop, s4) \<Rightarrow>
                 rbind (release_all A live' s4) (\<lambda>s5. Inr (stop - start, s5)))))"

section \<open>Cold allocations\<close>

definition evict_cache :: "8 word list \<Rightarrow> 'p bench \<Rightarrow> 'p bench" where
  "evict_cache buf s =
     (let total = sum_list (map (\<lambda>k. buf ! (128 * k)) [0..<(length buf + 127) div 128])
      in s\<lparr>bn_sink := bn_sink s + scast total\<rparr>)"

lemma evict_zeros:
  assumes "\<And>k. k < length buf \<Longrightarrow> buf ! k = 0" shows "evict_cache buf s = s"
proof -
  have "map (\<lambda>k. buf ! (128 * k)) [0..<(length buf + 127) div 128] = map (\<lambda>k. 0) [0..<(length buf + 127) div 128]"
    using assms by (intro map_cong) simp_all
  then have "sum_list (map (\<lambda>k. buf ! (128 * k)) [0..<(length buf + 127) div 128]) = 0"
    by (simp only: sum_list_0)
  then show ?thesis by (simp add: evict_cache_def Let_def)
qed

definition cold_samples :: nat where
  "cold_samples = 256"

fun cold_loop ::
  "clock \<Rightarrow> 8 word list \<Rightarrow> ('p, bench_order) store_ops \<Rightarrow> nat list \<Rightarrow> u64 \<Rightarrow> ptr list \<Rightarrow> 'p bench \<Rightarrow>
     (u64 \<times> ptr list \<times> 'p bench) result"
where
  "cold_loop tsc buf A [] cycles ptrs s = Inr (cycles, ptrs, s)"
| "cold_loop tsc buf A (i # is) cycles ptrs s =
     (case tick tsc (evict_cache buf s) of (start, s1) \<Rightarrow>
        rbind (op_alloc A (bn_pool s1) (bench_order_of i)) (\<lambda>(p, pool).
          case tick tsc (s1\<lparr>bn_pool := pool\<rparr>) of (stop, s2) \<Rightarrow>
            cold_loop tsc buf A is (cycles + (stop - start)) (ptrs[i := p]) s2))"

text \<open>The average divides by the number of samples; a division by 0 ends the process.\<close>

definition bench_allocate_cold ::
  "clock \<Rightarrow> 8 word list \<Rightarrow> ('p, bench_order) store_ops \<Rightarrow> ptr list \<Rightarrow> 'p bench \<Rightarrow> (u64 \<times> ptr list \<times> 'p bench) result"
where
  "bench_allocate_cold tsc buf A ptrs s =
     (let count = min (length ptrs) cold_samples
      in rbind (cold_loop tsc buf A [0..<count] 0 ptrs s) (\<lambda>(cycles, ptrs', s').
           if count = 0 then Inl Aborted else Inr (cycles div word_of_nat count, ptrs', s')))"

section \<open>One run\<close>

text \<open>
  The phases of \<open>run_benchmark\<close> for one allocator. The first group fills and drains it twice, the
  second time in the shuffled order.
\<close>

record bench_times =
  t_alloc :: u64
  t_dealloc :: u64
  t_dealloc_rand :: u64
  t_churn :: u64
  t_cold :: u64

definition fill_phases ::
  "clock \<Rightarrow> ('p, bench_order) store_ops \<Rightarrow> nat list \<Rightarrow> nat \<Rightarrow> 'p bench \<Rightarrow> (u64 \<times> u64 \<times> u64 \<times> 'p bench) result"
where
  "fill_phases tsc A random_order n s =
     rbind (bench_allocate tsc A (replicate n None) n s) (\<lambda>(alloc, ptrs1, s1).
     rbind (bench_deallocate tsc A ptrs1 n s1) (\<lambda>(dealloc, s2).
     rbind (bench_allocate tsc A ptrs1 n s2) (\<lambda>(_, ptrs2, s3).
     rbind (bench_dealloc_random tsc A ptrs2 random_order s3) (\<lambda>(dealloc_rand, s4).
       Inr (alloc, dealloc, dealloc_rand, s4)))))"

definition cold_phase ::
  "clock \<Rightarrow> 8 word list \<Rightarrow> ('p, bench_order) store_ops \<Rightarrow> nat \<Rightarrow> 'p bench \<Rightarrow> (u64 \<times> 'p bench) result"
where
  "cold_phase tsc buf A n s =
     rbind (bench_allocate_cold tsc buf A (replicate (min n cold_samples) None) s) (\<lambda>(cold, cold_ptrs, s1).
     rbind (release_all A cold_ptrs s1) (\<lambda>s2. Inr (cold, s2)))"

text \<open>
  A pool: the three groups have a pool each, \<open>pool\<close>, \<open>pool2\<close> and \<open>pool3\<close>, which live to the end of
  the run. The result holds all three as their groups leave them.
\<close>

definition pool_phases ::
  "clock \<Rightarrow> 8 word list \<Rightarrow> ('p, bench_order) store_ops \<Rightarrow> (size_t \<Rightarrow> 'p result) \<Rightarrow> nat list \<Rightarrow> churn_draw list \<Rightarrow>
     size_t \<Rightarrow> u64 \<Rightarrow> nat \<Rightarrow> (bench_times \<times> 'p \<times> 'p \<times> 'p bench) result"
where
  "pool_phases tsc buf A new_pool random_order ds n sink time =
     rbind (new_pool n) (\<lambda>pool.
     rbind (fill_phases tsc A random_order (unat n) \<lparr>bn_pool = pool, bn_sink = sink, bn_time = time\<rparr>)
       (\<lambda>(alloc, dealloc, dealloc_rand, s1).
     rbind (new_pool n) (\<lambda>pool2.
     rbind (bench_churn tsc A push_checked ds (s1\<lparr>bn_pool := pool2\<rparr>)) (\<lambda>(churn, s2).
     rbind (new_pool n) (\<lambda>pool3.
     rbind (cold_phase tsc buf A (unat n) (s2\<lparr>bn_pool := pool3\<rparr>)) (\<lambda>(cold, s3).
       Inr (\<lparr>t_alloc = alloc, t_dealloc = dealloc, t_dealloc_rand = dealloc_rand, t_churn = churn, t_cold = cold\<rparr>,
            bn_pool s1, bn_pool s2, s3)))))))"

text \<open>The system heap: each group goes on with the heap as the group before leaves it.\<close>

definition heap_phases ::
  "clock \<Rightarrow> 8 word list \<Rightarrow> ('p, bench_order) store_ops \<Rightarrow> nat list \<Rightarrow> churn_draw list \<Rightarrow> nat \<Rightarrow> 'p bench \<Rightarrow>
     (bench_times \<times> 'p bench) result"
where
  "heap_phases tsc buf A random_order ds n s =
     rbind (fill_phases tsc A random_order n s) (\<lambda>(alloc, dealloc, dealloc_rand, s1).
     rbind (bench_churn tsc A push_always ds s1) (\<lambda>(churn, s2).
     rbind (cold_phase tsc buf A n s2) (\<lambda>(cold, s3).
       Inr (\<lparr>t_alloc = alloc, t_dealloc = dealloc, t_dealloc_rand = dealloc_rand, t_churn = churn, t_cold = cold\<rparr>, s3))))"

text \<open>
  \<open>run_benchmark\<close>: the pool, then \<open>new\<close>/\<open>delete\<close>, then \<open>malloc\<close>/\<open>free\<close>, and the rows of the table. The
  shuffled order, the draws of the three churn phases and \<open>lim\<close>, the number of orders that the system
  heap has memory for, are parameters. The result has the rows, the three pools and the heap at the end.
\<close>

definition result_rows :: "bench_times \<Rightarrow> bench_times \<Rightarrow> bench_times \<Rightarrow> (string \<times> u64 \<times> u64 \<times> u64) list" where
  "result_rows p h m =
     [(''Allocate N (total)'', t_alloc p, t_alloc h, t_alloc m),
      (''Deallocate N (total)'', t_dealloc p, t_dealloc h, t_dealloc m),
      (''Dealloc random order (total)'', t_dealloc_rand p, t_dealloc_rand h, t_dealloc_rand m),
      (''Alloc cold (avg cycles/op)'', t_cold p, t_cold h, t_cold m),
      (''Churn N ops (total)'', t_churn p, t_churn h, t_churn m)]"

definition run_benchmark ::
  "clock \<Rightarrow> 8 word list \<Rightarrow> nat \<Rightarrow> ('p, bench_order) store_ops \<Rightarrow> (size_t \<Rightarrow> 'p result) \<Rightarrow> nat list \<Rightarrow>
     churn_draw list \<Rightarrow> churn_draw list \<Rightarrow> churn_draw list \<Rightarrow> size_t \<Rightarrow> u64 \<Rightarrow> nat \<Rightarrow>
     ((string \<times> u64 \<times> u64 \<times> u64) list \<times> ('p \<times> 'p \<times> 'p) \<times> bench_order sys_heap bench) result"
where
  "run_benchmark tsc buf lim A new_pool random_order ds_pool ds_new ds_malloc n sink time =
     rbind (pool_phases tsc buf A new_pool random_order ds_pool n sink time) (\<lambda>(pool_times, pool, pool2, s1).
     rbind (heap_phases tsc buf new_ops random_order ds_new (unat n)
              \<lparr>bn_pool = \<lparr>cells = [], heap_limit = lim\<rparr>, bn_sink = bn_sink s1, bn_time = bn_time s1\<rparr>) (\<lambda>(new_times, s2).
     rbind (heap_phases tsc buf malloc_ops random_order ds_malloc (unat n) s2) (\<lambda>(malloc_times, s3).
       Inr (result_rows pool_times new_times malloc_times, (pool, pool2, bn_pool s1), s3))))"

section \<open>The two programs\<close>

definition zero_bench_order :: bench_order where
  "zero_bench_order = \<lparr>b_order_id = 0, b_price = 0, b_qty = 0, b_side = 0\<rparr>"

definition mem_pool_ops :: "(bench_order mem_pool, bench_order) store_ops" where
  "mem_pool_ops = allocator_ops (allocate bench_overlay) (deallocate bench_overlay) pool_read"

definition sep_pool_ops :: "(bench_order sep_pool, bench_order) store_ops" where
  "sep_pool_ops = allocator_ops sep_allocate sep_deallocate sep_read"

definition mem_pool_run_benchmark where
  "mem_pool_run_benchmark tsc buf lim =
     run_benchmark tsc buf lim mem_pool_ops (mem_pool_new bench_overlay zero_bench_order)"

definition sep_pool_run_benchmark where
  "sep_pool_run_benchmark tsc buf lim = run_benchmark tsc buf lim sep_pool_ops (sep_pool_new zero_bench_order)"

end
