(* ===== verification/Pool_Bench_Correct.thy ===== *)
theory Pool_Bench_Correct
  imports Pool_Bench "HOL-Library.Multiset"
begin

text \<open>
  The benchmarks use their allocators as they must: they read and give back only objects that are
  live, each once, and leave nothing behind; and what they measure and count is determined: the cycles
  between the right pairs of time stamps, and the sum of the identifiers that are read. It is proved
  once for any allocator that provides the interface \<open>counted_store\<close>, and then for the two pools and
  the system heap.
\<close>

section \<open>Swap and remove\<close>

lemma mset_swap_remove:
  assumes "idx < length live"
  shows "mset (swap_remove idx live) = mset live - {#live ! idx#}"
proof -
  from assms obtain xs x where live: "live = xs @ [x]" by (cases live rule: rev_cases) auto
  show ?thesis
  proof (cases "idx = length xs")
    case True
    then show ?thesis by (simp add: live swap_remove_def)
  next
    case False
    with assms have i: "idx < length xs" by (simp add: live)
    then have "swap_remove idx live = xs[idx := x]" by (simp add: live swap_remove_def list_update_append butlast_append)
    with i show ?thesis by (simp add: live nth_append mset_update)
  qed
qed

lemma swap_remove_distinct:
  assumes "distinct live" and "idx < length live"
  shows "distinct (swap_remove idx live)" "set (swap_remove idx live) = set live - {live ! idx}"
proof -
  note m = mset_swap_remove [OF assms(2)]
  have d: "mset live = mset (live ! idx # remove1 (live ! idx) live)" using assms(2) by simp
  have "mset (swap_remove idx live) = mset (remove1 (live ! idx) live)" using m by simp
  then show "distinct (swap_remove idx live)" "set (swap_remove idx live) = set live - {live ! idx}"
    using assms(1) mset_eq_imp_distinct_iff mset_eq_setD distinct_remove1 set_remove1_eq by metis+
qed

lemma swap_remove_map: "live \<noteq> [] \<Longrightarrow> swap_remove idx (map f live) = map f (swap_remove idx live)"
  by (simp add: swap_remove_def map_butlast map_update last_map)

section \<open>What a run measures and counts\<close>

text \<open>The cycles between the time stamp number \<open>t\<close> and the next one.\<close>

definition cycles :: "clock \<Rightarrow> nat \<Rightarrow> u64" where
  "cycles tsc t = tsc (Suc t) - tsc t"

text \<open>
  The churn on identifiers alone: the sum of those that are read before they are given back. A new one
  joins as long as fewer than \<open>cap\<close> are live.
\<close>

fun churn_reads :: "nat \<Rightarrow> (nat \<times> churn_draw) list \<Rightarrow> nat list \<Rightarrow> nat" where
  "churn_reads cap [] ids = 0"
| "churn_reads cap ((i, d) # ds) ids =
     (if coin_zero d \<and> ids \<noteq> [] then
        (let idx = pick d (length ids - 1) in ids ! idx + churn_reads cap ds (swap_remove idx ids))
      else churn_reads cap ds (if length ids < cap then ids @ [i] else ids))"

definition churn_total :: "nat \<Rightarrow> churn_draw list \<Rightarrow> nat" where
  "churn_total cap ds = churn_reads cap (zip [0..<length ds] ds) [0..<length ds div 2]"

text \<open>A capacity that is never reached makes no difference.\<close>

lemma length_swap_remove [simp]: "length (swap_remove idx live) = length live - 1"
  by (simp add: swap_remove_def)

lemma churn_reads_cap:
  "length ids + length ds \<le> cap \<Longrightarrow> length ids + length ds \<le> cap' \<Longrightarrow> churn_reads cap ds ids = churn_reads cap' ds ids"
proof (induction ds arbitrary: ids)
  case (Cons x ds)
  obtain i d where x: "x = (i, d)" by fastforce
  have lt: "length ids < cap" "length ids < cap'" using Cons.prems by simp_all
  from Cons.prems have "churn_reads cap ds (swap_remove idx ids) = churn_reads cap' ds (swap_remove idx ids)" for idx
    by (intro Cons.IH) simp_all
  moreover from Cons.prems have "churn_reads cap ds (ids @ [i]) = churn_reads cap' ds (ids @ [i])"
    by (intro Cons.IH) simp_all
  ultimately show ?case using lt by (simp add: x Let_def)
qed simp

lemma churn_total_cap:
  assumes "length ds div 2 + length ds \<le> cap" and "length ds div 2 + length ds \<le> cap'"
  shows "churn_total cap ds = churn_total cap' ds"
  unfolding churn_total_def by (rule churn_reads_cap) (use assms in simp_all)

text \<open>What an eviction adds to \<open>sink\<close>.\<close>

definition evict_sum :: "8 word list \<Rightarrow> u64" where
  "evict_sum buf = scast (sum_list (map (\<lambda>k. buf ! (128 * k)) [0..<(length buf + 127) div 128]))"

lemma evict_cache_sum: "evict_cache buf s = s\<lparr>bn_sink := bn_sink s + evict_sum buf\<rparr>"
  by (simp add: evict_cache_def evict_sum_def Let_def)

definition cold_cycles :: "clock \<Rightarrow> nat \<Rightarrow> nat \<Rightarrow> u64" where
  "cold_cycles tsc m t = (\<Sum>i<m. cycles tsc (t + 2 * i)) div word_of_nat m"

text \<open>The times of one allocator whose phases start at the time stamp number \<open>t\<close>, and how many it takes.\<close>

definition expected_times :: "clock \<Rightarrow> nat \<Rightarrow> nat \<Rightarrow> bench_times" where
  "expected_times tsc n t =
     \<lparr>t_alloc = cycles tsc t, t_dealloc = cycles tsc (t + 2), t_dealloc_rand = cycles tsc (t + 6),
      t_churn = cycles tsc (t + 8), t_cold = cold_cycles tsc (min n cold_samples) (t + 10)\<rparr>"

definition phase_ticks :: "nat \<Rightarrow> nat" where
  "phase_ticks n = 10 + 2 * min n cold_samples"

text \<open>
  What they add to \<open>sink\<close>: both drains read every identifier once, the churn reads some, and the
  evictions read the buffer.
\<close>

definition expected_sink :: "8 word list \<Rightarrow> nat \<Rightarrow> nat \<Rightarrow> churn_draw list \<Rightarrow> u64" where
  "expected_sink buf cap n ds =
     word_of_nat (2 * (\<Sum>i<n. i) + churn_total cap ds) + word_of_nat (min n cold_samples) * evict_sum buf"

text \<open>A whole run: the rows of the table, and the sum in \<open>sink\<close>.\<close>

definition expected_rows :: "clock \<Rightarrow> nat \<Rightarrow> nat \<Rightarrow> (string \<times> u64 \<times> u64 \<times> u64) list" where
  "expected_rows tsc n t =
     (let p = expected_times tsc n t;
          h = expected_times tsc n (t + phase_ticks n);
          m = expected_times tsc n (t + 2 * phase_ticks n)
      in [(''Allocate N (total)'', t_alloc p, t_alloc h, t_alloc m),
          (''Deallocate N (total)'', t_dealloc p, t_dealloc h, t_dealloc m),
          (''Dealloc random order (total)'', t_dealloc_rand p, t_dealloc_rand h, t_dealloc_rand m),
          (''Alloc cold (avg cycles/op)'', t_cold p, t_cold h, t_cold m),
          (''Churn N ops (total)'', t_churn p, t_churn h, t_churn m)])"

definition expected_run_sink :: "8 word list \<Rightarrow> nat \<Rightarrow> churn_draw list \<Rightarrow> churn_draw list \<Rightarrow> churn_draw list \<Rightarrow> u64" where
  "expected_run_sink buf n dsp dsn dsm =
     expected_sink buf n n dsp + expected_sink buf (n + n div 2) n dsn + expected_sink buf (n + n div 2) n dsm"

lemma bench_order_id [simp]: "b_order_id (bench_order_of i) = word_of_nat i"
  by (simp add: bench_order_of_def Let_def)

section \<open>Any allocator\<close>

locale bench_store = counted_store ops objects room inv capacity
  for ops :: "('p, bench_order) store_ops" and objects room inv capacity
begin

text \<open>The slots \<open>S\<close> of the vector of pointers hold the orders they were filled with, and nothing else is live.\<close>

definition holding :: "'p \<Rightarrow> ptr list \<Rightarrow> nat set \<Rightarrow> bool" where
  "holding p ptrs S \<longleftrightarrow> inv p \<and> S \<subseteq> {..<length ptrs} \<and>
     (\<exists>addr. inj_on addr S \<and> dom (objects p) = addr ` S \<and>
        (\<forall>i \<in> S. ptrs ! i = Some (addr i) \<and> objects p (addr i) = Some (bench_order_of i)))"

lemma holding_empty: "inv p \<Longrightarrow> objects p = Map.empty \<Longrightarrow> holding p ptrs {}"
  by (simp add: holding_def)

lemma holding_empty_objects: "holding p ptrs {} \<Longrightarrow> inv p \<and> objects p = Map.empty"
  by (simp add: holding_def)

lemma holding_alloc:
  assumes h: "holding p ptrs S" and i: "i < length ptrs" "i \<notin> S" and r: "room p (Suc k)"
  obtains q p' where "op_alloc ops p (bench_order_of i) = Inr (q, p')"
    "holding p' (ptrs[i := q]) (insert i S)" "room p' k"
proof -
  have inv: "inv p" using h by (simp add: holding_def)
  obtain x q p' where q: "q = Some x" and a: "op_alloc ops p (bench_order_of i) = Inr (q, p')" and rm: "room p' k"
    using alloc_room [OF inv r, of "bench_order_of i"] by blast
  note al = alloc_Some [OF inv a [unfolded q]]
  obtain addr where ad: "inj_on addr S" "dom (objects p) = addr ` S"
    "\<forall>j \<in> S. ptrs ! j = Some (addr j) \<and> objects p (addr j) = Some (bench_order_of j)"
    and S: "S \<subseteq> {..<length ptrs}"
    using h unfolding holding_def by blast
  have x: "x \<notin> addr ` S" using al ad(2) by auto
  have upd: "(addr(i := x)) ` S = addr ` S" using i(2) by auto
  have "inj_on (addr(i := x)) (insert i S)"
    using ad(1) i(2) x by (auto simp: inj_on_def)
  moreover have "dom (objects p') = (addr(i := x)) ` insert i S"
    using al ad(2) upd by auto
  moreover have "ptrs[i := q] ! j = Some ((addr(i := x)) j) \<and> objects p' ((addr(i := x)) j) = Some (bench_order_of j)"
    if "j \<in> insert i S" for j
    using that i ad(3) S al q x by (cases "j = i") auto
  ultimately have "holding p' (ptrs[i := q]) (insert i S)" using al i S unfolding holding_def
    by (intro conjI exI [of _ "addr(i := x)"]) auto
  with a rm show thesis by (intro that)
qed

lemma holding_dealloc:
  assumes h: "holding p ptrs S" and i: "i \<in> S"
  obtains p' where "op_read ops (ptrs ! i) p = Inr (bench_order_of i)" "op_dealloc ops (ptrs ! i) p = Inr p'"
    "holding p' ptrs (S - {i})" "\<And>k. room p k \<Longrightarrow> room p' (Suc k)" "i < length ptrs"
proof -
  have inv: "inv p" using h by (simp add: holding_def)
  obtain addr where ad: "inj_on addr S" "dom (objects p) = addr ` S"
    "\<forall>j \<in> S. ptrs ! j = Some (addr j) \<and> objects p (addr j) = Some (bench_order_of j)"
    and S: "S \<subseteq> {..<length ptrs}"
    using h unfolding holding_def by blast
  have oi: "objects p (addr i) = Some (bench_order_of i)" and pi: "ptrs ! i = Some (addr i)" using ad(3) i by auto
  obtain p' where p': "op_dealloc ops (Some (addr i)) p = Inr p'" "inv p'" "objects p' = (objects p)(addr i := None)"
    and rm: "\<forall>k. room p k \<longrightarrow> room p' (Suc k)"
    using dealloc_object [OF inv oi] by blast
  have im: "addr ` (S - {i}) = addr ` S - {addr i}" using ad(1) i by (auto simp: inj_on_def)
  have "holding p' ptrs (S - {i})"
    unfolding holding_def
  proof (intro conjI exI [of _ addr])
    show "inj_on addr (S - {i})" using ad(1) by (rule inj_on_subset) auto
    show "dom (objects p') = addr ` (S - {i})" unfolding im using p'(3) ad(2) by auto
    show "\<forall>j \<in> S - {i}. ptrs ! j = Some (addr j) \<and> objects p' (addr j) = Some (bench_order_of j)"
      using ad(1,3) i p'(3) by (auto simp: inj_on_def)
  qed (use p'(2) S in auto)
  then show thesis using read_object [OF inv oi] p'(1) rm i S pi by (intro that) auto
qed

lemma alloc_loop_holding:
  "holding (bn_pool s) ptrs S \<Longrightarrow> distinct is \<Longrightarrow> set is \<inter> S = {} \<Longrightarrow> set is \<subseteq> {..<length ptrs} \<Longrightarrow>
     room (bn_pool s) (length is + k) \<Longrightarrow>
     \<exists>ptrs' s'. alloc_loop ops is ptrs s = Inr (ptrs', s') \<and> holding (bn_pool s') ptrs' (S \<union> set is) \<and>
       length ptrs' = length ptrs \<and> bn_sink s' = bn_sink s \<and> bn_time s' = bn_time s \<and> room (bn_pool s') k"
proof (induction "is" arbitrary: ptrs s S)
  case (Cons i "is")
  obtain q p' where a: "op_alloc ops (bn_pool s) (bench_order_of i) = Inr (q, p')"
    "holding p' (ptrs[i := q]) (insert i S)" "room p' (length is + k)"
    by (rule holding_alloc [of "bn_pool s" ptrs S i "length is + k"]) (use Cons.prems in auto)
  with Cons.prems Cons.IH [of "s\<lparr>bn_pool := p'\<rparr>" "ptrs[i := q]" "insert i S"] a show ?case by fastforce
qed auto

lemma dealloc_loop_holding:
  "holding (bn_pool s) ptrs S \<Longrightarrow> distinct is \<Longrightarrow> set is \<subseteq> S \<Longrightarrow> room (bn_pool s) k \<Longrightarrow>
     \<exists>s'. dealloc_loop ops is ptrs s = Inr s' \<and> holding (bn_pool s') ptrs (S - set is) \<and>
       bn_sink s' = bn_sink s + word_of_nat (sum_list is) \<and> bn_time s' = bn_time s \<and> room (bn_pool s') (k + length is)"
proof (induction "is" arbitrary: s S k)
  case (Cons i "is")
  have i: "i \<in> S" using Cons.prems(3) by simp
  obtain p' where d: "op_read ops (ptrs ! i) (bn_pool s) = Inr (bench_order_of i)"
    "op_dealloc ops (ptrs ! i) (bn_pool s) = Inr p'" "holding p' ptrs (S - {i})" "i < length ptrs"
    and rm: "\<And>k. room (bn_pool s) k \<Longrightarrow> room p' (Suc k)"
    using holding_dealloc [OF Cons.prems(1) i] by blast
  let ?s1 = "s\<lparr>bn_sink := bn_sink s + word_of_nat i, bn_pool := p'\<rparr>"
  have run: "dealloc_loop ops (i # is) ptrs s = dealloc_loop ops is ptrs ?s1" using d by simp
  have "S - {i} - set is = S - set (i # is)" by auto
  moreover have "set is \<subseteq> S - {i}" using Cons.prems(2,3) by auto
  ultimately show ?case
    unfolding run using Cons.IH [of ?s1 "S - {i}" "Suc k"] d(3) rm Cons.prems(2,4) by (auto simp: add.assoc)
qed auto

text \<open>
  The list of live pointers of the churn phase: every live object once, and nothing else; \<open>ids\<close> are the
  identifiers of the orders.
\<close>

definition owned :: "'p \<Rightarrow> ptr list \<Rightarrow> nat list \<Rightarrow> bool" where
  "owned p live ids \<longleftrightarrow> inv p \<and> (\<exists>as. live = map Some as \<and> distinct as \<and> set as = dom (objects p) \<and>
     map (objects p) as = map (\<lambda>i. Some (bench_order_of i)) ids)"

lemma ownedE:
  assumes "owned p live ids"
  obtains as where "inv p" "live = map Some as" "distinct as" "set as = dom (objects p)"
    "map (objects p) as = map (\<lambda>i. Some (bench_order_of i)) ids"
  using assms unfolding owned_def by blast

lemma owned_inv: "owned p live ids \<Longrightarrow> inv p"
  by (simp add: owned_def)

lemma owned_card:
  assumes "owned p live ids"
  shows "length live = length ids" "card (dom (objects p)) = length ids"
proof -
  obtain as where as: "live = map Some as" "distinct as" "set as = dom (objects p)"
    "map (objects p) as = map (\<lambda>i. Some (bench_order_of i)) ids" using assms by (rule ownedE)
  have "length as = length ids" using arg_cong [OF as(4), of length] by simp
  with as show "length live = length ids" "card (dom (objects p)) = length ids"
    using distinct_card [OF as(2)] by simp_all
qed

lemma owned_empty: "inv p \<Longrightarrow> objects p = Map.empty \<Longrightarrow> owned p [] []"
  by (simp add: owned_def)

lemma owned_alloc:
  assumes o: "owned p live ids" and a: "op_alloc ops p (bench_order_of i) = Inr (Some x, p')"
  shows "owned p' (live @ [Some x]) (ids @ [i])"
proof -
  obtain as where as: "inv p" "live = map Some as" "distinct as" "set as = dom (objects p)"
    "map (objects p) as = map (\<lambda>i. Some (bench_order_of i)) ids"
    using o by (rule ownedE)
  note al = alloc_Some [OF as(1) a]
  have x: "x \<notin> set as" using al as(4) by auto
  then have "map (objects p') as = map (objects p) as" using al by auto
  with al as x show ?thesis unfolding owned_def by (intro conjI exI [of _ "as @ [x]"]) auto
qed

lemma owned_push:
  assumes o: "owned p live ids" and a: "op_alloc ops p (bench_order_of i) = Inr (q, p')"
    and push: "\<forall>x live. push (Some x) live = live @ [Some x]"
    and full: "q = None \<Longrightarrow> push None live = live"
  shows "owned p' (push q live) (if length ids < capacity p then ids @ [i] else ids)"
proof -
  have q: "q \<noteq> None \<longleftrightarrow> length ids < capacity p"
    using alloc_answer [OF owned_inv [OF o] a] owned_card(2) [OF o] by simp
  show ?thesis
  proof (cases q)
    case None
    from alloc_None [OF owned_inv [OF o] a [unfolded None]] full [OF None] o None q show ?thesis by (simp add: owned_def)
  next
    case (Some x)
    with owned_alloc [OF o a [unfolded Some]] push q show ?thesis by simp
  qed
qed

lemma owned_dealloc:
  assumes o: "owned p live ids" and i: "idx < length live"
  obtains p' where "op_read ops (live ! idx) p = Inr (bench_order_of (ids ! idx))" "op_dealloc ops (live ! idx) p = Inr p'"
    "owned p' (swap_remove idx live) (swap_remove idx ids)" "\<forall>k. room p k \<longrightarrow> room p' (Suc k)" "capacity p' = capacity p"
proof -
  obtain as where as: "inv p" "live = map Some as" "distinct as" "set as = dom (objects p)"
    "map (objects p) as = map (\<lambda>i. Some (bench_order_of i)) ids"
    using o by (rule ownedE)
  have ia: "idx < length as" using i as(2) by simp
  moreover have "length as = length ids" using owned_card(1) [OF o] as(2) by simp
  ultimately have v: "objects p (as ! idx) = Some (bench_order_of (ids ! idx))" "as \<noteq> []" "ids \<noteq> []"
    using arg_cong [OF as(5), of "\<lambda>xs. xs ! idx"] by auto
  obtain p' where p': "op_dealloc ops (Some (as ! idx)) p = Inr p'" "inv p'" "objects p' = (objects p)(as ! idx := None)"
    and rm: "\<forall>k. room p k \<longrightarrow> room p' (Suc k)"
    using dealloc_object [OF as(1) v(1)] by blast
  note sr = swap_remove_distinct [OF as(3) ia]
  have "map (objects p') (swap_remove idx as) = map (objects p) (swap_remove idx as)"
    using sr(2) p'(3) by auto
  also have "\<dots> = swap_remove idx (map (objects p) as)" by (rule swap_remove_map [OF v(2), symmetric])
  also have "\<dots> = map (\<lambda>i. Some (bench_order_of i)) (swap_remove idx ids)"
    unfolding as(5) using v(3) by (rule swap_remove_map)
  finally have "owned p' (swap_remove idx live) (swap_remove idx ids)"
    unfolding owned_def as(2) swap_remove_map [OF v(2)]
    using sr p'(2,3) as(4) by (intro conjI exI [of _ "swap_remove idx as"]) auto
  with read_object [OF as(1) v(1)] p'(1) ia as(2) rm dealloc_capacity [OF as(1) v(1) p'(1)] show thesis
    by (intro that [of p']) simp_all
qed

lemma prefill_owned:
  "owned (bn_pool s) live ids \<Longrightarrow> room (bn_pool s) (length is + k) \<Longrightarrow>
     \<exists>live' s'. prefill ops is live s = Inr (live', s') \<and> owned (bn_pool s') live' (ids @ is) \<and> room (bn_pool s') k \<and>
       capacity (bn_pool s') = capacity (bn_pool s) \<and> bn_sink s' = bn_sink s \<and> bn_time s' = bn_time s"
proof (induction "is" arbitrary: live ids s)
  case (Cons i "is")
  have inv: "inv (bn_pool s)" using Cons.prems(1) by (rule owned_inv)
  obtain x p' where a: "op_alloc ops (bn_pool s) (bench_order_of i) = Inr (Some x, p')" "room p' (length is + k)"
    using alloc_room [OF inv, of "length is + k" "bench_order_of i"] Cons.prems(2) by auto
  from Cons.IH [of "s\<lparr>bn_pool := p'\<rparr>" "live @ [Some x]" "ids @ [i]"] owned_alloc [OF Cons.prems(1) a(1)]
    alloc_capacity [OF inv a(1)] a show ?case by simp
qed simp

text \<open>
  An allocator lasts for the churn of \<open>k\<close> operations if it never ends the program (a pool answers
  \<open>nullptr\<close> when it is full), or if all of them could allocate.
\<close>

definition lasts :: "'p \<Rightarrow> nat \<Rightarrow> bool" where
  "lasts p k \<longleftrightarrow> (\<forall>p v e. inv p \<longrightarrow> op_alloc ops p v \<noteq> Inl e) \<or> room p k"

lemma lasts_alloc:
  assumes "inv p" and "lasts p (Suc k)"
  obtains q p' where "op_alloc ops p v = Inr (q, p')" "lasts p' k"
proof (cases "room p (Suc k)")
  case True
  then show thesis using alloc_room [OF assms(1), of k v] that unfolding lasts_def by blast
next
  case False
  with assms have all: "\<forall>p v e. inv p \<longrightarrow> op_alloc ops p v \<noteq> Inl e" by (simp add: lasts_def)
  with assms(1) have "\<exists>r. op_alloc ops p v = Inr r" by (cases "op_alloc ops p v") auto
  with that all show thesis unfolding lasts_def by fastforce
qed

lemma lasts_less: "inv p \<Longrightarrow> lasts p (Suc k) \<Longrightarrow> lasts p k"
  using room_less by (auto simp: lasts_def)

lemma churn_loop_owned:
  assumes push: "\<forall>x live. push (Some x) live = live @ [Some x]"
    and full: "\<forall>p v p' live. inv p \<and> op_alloc ops p v = Inr (None, p') \<longrightarrow> push None live = live"
  shows "owned (bn_pool s) live ids \<Longrightarrow> \<forall>(i, d) \<in> set ds. \<forall>n. pick d n \<le> n \<Longrightarrow> lasts (bn_pool s) (length ds) \<Longrightarrow>
    \<exists>live' ids' s'. churn_loop ops push ds live s = Inr (live', s') \<and> owned (bn_pool s') live' ids' \<and>
      bn_sink s' = bn_sink s + word_of_nat (churn_reads (capacity (bn_pool s)) ds ids) \<and> bn_time s' = bn_time s"
proof (induction ds arbitrary: live ids s)
  case (Cons x ds)
  obtain i d where x: "x = (i, d)" by fastforce
  have inv: "inv (bn_pool s)" using Cons.prems(1) by (rule owned_inv)
  have la: "lasts (bn_pool s) (Suc (length ds))" using Cons.prems(3) by simp
  have len: "length live = length ids" "live \<noteq> [] \<longleftrightarrow> ids \<noteq> []" using owned_card(1) [OF Cons.prems(1)] by auto
  show ?case
  proof (cases "coin_zero d \<and> live \<noteq> []")
    case True
    let ?idx = "pick d (length live - 1)"
    have "?idx \<le> length live - 1" using Cons.prems(2) x by auto
    moreover have "0 < length live" using True by simp
    ultimately have i: "?idx < length live" by linarith
    obtain p' where d: "op_read ops (live ! ?idx) (bn_pool s) = Inr (bench_order_of (ids ! ?idx))"
        "op_dealloc ops (live ! ?idx) (bn_pool s) = Inr p'"
      and o: "owned p' (swap_remove ?idx live) (swap_remove ?idx ids)"
      and rm: "\<forall>k. room (bn_pool s) k \<longrightarrow> room p' (Suc k)" and cap: "capacity p' = capacity (bn_pool s)"
      using Cons.prems(1) i by (rule owned_dealloc)
    have "inv p'" using o by (rule owned_inv)
    moreover have "lasts p' (Suc (length ds))" using lasts_less [OF inv la] rm by (auto simp: lasts_def)
    ultimately have la': "lasts p' (length ds)" by (rule lasts_less)
    let ?s1 = "s\<lparr>bn_sink := bn_sink s + word_of_nat (ids ! ?idx), bn_pool := p'\<rparr>"
    have run: "churn_loop ops push (x # ds) live s = churn_loop ops push ds (swap_remove ?idx live) ?s1"
      using True i d x by (simp add: Let_def)
    have reads: "churn_reads cap (x # ds) ids = ids ! ?idx + churn_reads cap ds (swap_remove ?idx ids)" for cap
      using True len by (simp add: x Let_def)
    from Cons.IH [of ?s1 "swap_remove ?idx live" "swap_remove ?idx ids"] o la' Cons.prems(2)
    show ?thesis unfolding run reads by (simp add: cap add.assoc)
  next
    case False
    obtain q p' where a: "op_alloc ops (bn_pool s) (bench_order_of i) = Inr (q, p')" and la': "lasts p' (length ds)"
      using inv la by (rule lasts_alloc)
    let ?ids = "if length ids < capacity (bn_pool s) then ids @ [i] else ids"
    have o: "owned p' (push q live) ?ids"
      by (rule owned_push [OF Cons.prems(1) a push]) (use full inv a in blast)
    have run: "churn_loop ops push (x # ds) live s = churn_loop ops push ds (push q live) (s\<lparr>bn_pool := p'\<rparr>)"
      unfolding x churn_loop.simps using False a by (simp only: if_False rbind_Inr prod.case)
    have reads: "churn_reads (capacity (bn_pool s)) (x # ds) ids = churn_reads (capacity p') ds ?ids"
      unfolding x churn_reads.simps alloc_capacity [OF inv a] using False len(2) by (simp only: if_False)
    from Cons.IH [of "s\<lparr>bn_pool := p'\<rparr>" "push q live" ?ids] o la' Cons.prems(2)
    show ?thesis unfolding run reads by simp
  qed
qed auto

lemma release_all_owned:
  "owned (bn_pool s) live ids \<Longrightarrow> \<exists>s'. release_all ops live s = Inr s' \<and> inv (bn_pool s') \<and> objects (bn_pool s') = Map.empty \<and>
     bn_sink s' = bn_sink s \<and> bn_time s' = bn_time s"
proof (induction live arbitrary: ids s)
  case Nil
  then show ?case by (auto simp: owned_def)
next
  case (Cons q live)
  obtain as where as: "inv (bn_pool s)" "q # live = map Some as" "distinct as" "set as = dom (objects (bn_pool s))"
    "map (objects (bn_pool s)) as = map (\<lambda>i. Some (bench_order_of i)) ids"
    using Cons.prems by (rule ownedE)
  then obtain x xs where x: "as = x # xs" "q = Some x" "live = map Some xs" by (cases as) auto
  obtain i js where ids: "ids = i # js" using as(5) x(1) by (cases ids) auto
  have v: "objects (bn_pool s) x = Some (bench_order_of i)" using as(5) x(1) ids by simp
  obtain p' where p': "op_dealloc ops (Some x) (bn_pool s) = Inr p'" "inv p'" "objects p' = (objects (bn_pool s))(x := None)"
    using dealloc_object [OF as(1) v] by blast
  have "owned p' live js" unfolding owned_def using p' as x ids by (intro conjI exI [of _ xs]) auto
  with Cons.IH [of "s\<lparr>bn_pool := p'\<rparr>" js] p'(1) x(2) show ?case by simp
qed

definition churn_room :: "'p \<Rightarrow> nat \<Rightarrow> bool" where
  "churn_room p n \<longleftrightarrow> room p (n div 2) \<and> ((\<forall>p v e. inv p \<longrightarrow> op_alloc ops p v \<noteq> Inl e) \<or> room p (n div 2 + n))"

lemma prefill_lasts:
  assumes e: "inv (bn_pool s)" "objects (bn_pool s) = Map.empty" and "churn_room (bn_pool s) n"
  obtains live s' where "prefill ops [0..<n div 2] [] s = Inr (live, s')" "owned (bn_pool s') live [0..<n div 2]"
    "lasts (bn_pool s') n" "capacity (bn_pool s') = capacity (bn_pool s)" "bn_sink s' = bn_sink s" "bn_time s' = bn_time s"
proof (cases "room (bn_pool s) (n div 2 + n)")
  case True
  with prefill_owned [OF owned_empty [OF e], of "[0..<n div 2]" n] that show thesis by (auto simp: lasts_def)
next
  case False
  with assms(3) prefill_owned [OF owned_empty [OF e], of "[0..<n div 2]" 0] that show thesis
    by (auto simp: lasts_def churn_room_def)
qed

lemma bench_churn_safe:
  assumes e: "inv (bn_pool s)" "objects (bn_pool s) = Map.empty" and r: "churn_room (bn_pool s) (length ds)"
    and ds: "\<forall>d \<in> set ds. \<forall>n. pick d n \<le> n"
    and push: "\<forall>x live. push (Some x) live = live @ [Some x]"
    and full: "\<forall>p v p' live. inv p \<and> op_alloc ops p v = Inr (None, p') \<longrightarrow> push None live = live"
  obtains s' where "bench_churn tsc ops push ds s = Inr (cycles tsc (bn_time s), s')"
    "inv (bn_pool s')" "objects (bn_pool s') = Map.empty" "bn_time s' = bn_time s + 2"
    "bn_sink s' = bn_sink s + word_of_nat (churn_total (capacity (bn_pool s)) ds)"
proof -
  obtain live s1 where pf: "prefill ops [0..<length ds div 2] [] s = Inr (live, s1)"
    "owned (bn_pool s1) live [0..<length ds div 2]" "lasts (bn_pool s1) (length ds)"
    "capacity (bn_pool s1) = capacity (bn_pool s)" "bn_sink s1 = bn_sink s" "bn_time s1 = bn_time s"
    using e r by (rule prefill_lasts)
  let ?s2 = "snd (tick tsc s1)"
  have o2: "owned (bn_pool ?s2) live [0..<length ds div 2]" using pf(2) by (simp add: tick_def)
  have ds': "\<forall>(i, d) \<in> set (zip [0..<length ds] ds). \<forall>n. pick d n \<le> n"
    using ds by (auto dest: set_zip_rightD)
  have la: "lasts (bn_pool ?s2) (length (zip [0..<length ds] ds))" using pf(3) by (simp add: tick_def)
  obtain live' ids' s3 where ch: "churn_loop ops push (zip [0..<length ds] ds) live ?s2 = Inr (live', s3)"
    and o3: "owned (bn_pool s3) live' ids'"
    and s3: "bn_sink s3 = bn_sink s + word_of_nat (churn_total (capacity (bn_pool s)) ds)" "bn_time s3 = Suc (bn_time s)"
    using churn_loop_owned [of push, OF push full o2 ds' la] pf(4,5,6) by (auto simp: tick_def churn_total_def)
  have "owned (bn_pool (snd (tick tsc s3))) live' ids'" using o3 by (simp add: tick_def)
  from release_all_owned [OF this] obtain s5 where s5: "release_all ops live' (snd (tick tsc s3)) = Inr s5"
    "inv (bn_pool s5)" "objects (bn_pool s5) = Map.empty" "bn_sink s5 = bn_sink s3" "bn_time s5 = Suc (bn_time s3)"
    by (auto simp: tick_def)
  show thesis
    by (rule that [OF _ s5(2,3)]) (use pf(1,6) ch s3 s5(1,4,5) in \<open>simp_all add: bench_churn_def Let_def tick_def cycles_def\<close>)
qed

text \<open>The timed phases.\<close>

lemma bench_allocate_safe:
  assumes e: "inv (bn_pool s)" "objects (bn_pool s) = Map.empty" and n: "length ptrs = n" and r: "room (bn_pool s) (n + k)"
  obtains ptrs' s' where
    "bench_allocate tsc ops ptrs n s = Inr (tsc (Suc (bn_time s)) - tsc (bn_time s), ptrs', s')"
    "holding (bn_pool s') ptrs' {..<n}" "length ptrs' = n" "bn_sink s' = bn_sink s"
    "bn_time s' = bn_time s + 2" "room (bn_pool s') k"
proof -
  let ?s1 = "snd (tick tsc s)"
  have h: "holding (bn_pool ?s1) ptrs {}" using e by (simp add: tick_def holding_empty)
  obtain ptrs' s2 where l: "alloc_loop ops [0..<n] ptrs ?s1 = Inr (ptrs', s2)" "holding (bn_pool s2) ptrs' {..<n}"
    "length ptrs' = length ptrs" "bn_sink s2 = bn_sink ?s1" "bn_time s2 = bn_time ?s1" "room (bn_pool s2) k"
    using alloc_loop_holding [OF h, of "[0..<n]" k] n r by (auto simp: tick_def lessThan_atLeast0)
  let ?s3 = "snd (tick tsc s2)"
  show thesis
    by (rule that [of ptrs' ?s3]) (use l n in \<open>simp_all add: bench_allocate_def tick_def\<close>)
qed

lemma dealloc_all:
  assumes h: "holding (bn_pool s) ptrs {..<n}" and perm: "mset order = mset [0..<n]" and r: "room (bn_pool s) k"
  shows "\<exists>s'. dealloc_loop ops order ptrs s = Inr s' \<and> inv (bn_pool s') \<and> objects (bn_pool s') = Map.empty \<and>
     bn_sink s' = bn_sink s + word_of_nat (\<Sum>i<n. i) \<and> bn_time s' = bn_time s \<and> room (bn_pool s') (k + n)"
proof -
  have "set order = {..<n}" using mset_eq_setD [OF perm] by (simp only: set_upt lessThan_atLeast0)
  moreover have "distinct order" using mset_eq_imp_distinct_iff [OF perm] by (simp only: distinct_upt simp_thms)
  moreover have "length order = n" using mset_eq_length [OF perm] by simp
  ultimately have o: "set order = {..<n}" "distinct order" "length order = n" .
  have "sum_list order = sum_list [0..<n]"
    using arg_cong [OF perm, of sum_mset] by (simp only: sum_mset_sum_list)
  also have "\<dots> = (\<Sum>i<n. i)" by (simp add: interv_sum_list_conv_sum_set_nat lessThan_atLeast0)
  finally have sum: "sum_list order = (\<Sum>i<n. i)" .
  have sub: "set order \<subseteq> {..<n}" using o(1) by simp
  from dealloc_loop_holding [OF h o(2) sub r] obtain s' where d: "dealloc_loop ops order ptrs s = Inr s'"
    "holding (bn_pool s') ptrs ({..<n} - set order)" "bn_sink s' = bn_sink s + word_of_nat (sum_list order)"
    "bn_time s' = bn_time s" "room (bn_pool s') (k + length order)" by blast
  have "inv (bn_pool s') \<and> objects (bn_pool s') = Map.empty"
    by (rule holding_empty_objects [of _ ptrs]) (use d(2) o(1) in simp)
  with d show ?thesis unfolding sum o(3) by blast
qed

lemma bench_dealloc_random_safe:
  assumes h: "holding (bn_pool s) ptrs {..<n}" and perm: "mset order = mset [0..<n]" and r: "room (bn_pool s) k"
  obtains s' where "bench_dealloc_random tsc ops ptrs order s = Inr (tsc (Suc (bn_time s)) - tsc (bn_time s), s')"
    "inv (bn_pool s')" "objects (bn_pool s') = Map.empty" "bn_sink s' = bn_sink s + word_of_nat (\<Sum>i<n. i)"
    "bn_time s' = bn_time s + 2" "room (bn_pool s') (k + n)"
proof -
  let ?s1 = "snd (tick tsc s)"
  have "holding (bn_pool ?s1) ptrs {..<n}" "room (bn_pool ?s1) k" using h r by (simp_all add: tick_def)
  from dealloc_all [OF this(1) perm this(2)] obtain s2 where l: "dealloc_loop ops order ptrs ?s1 = Inr s2"
    "inv (bn_pool s2)" "objects (bn_pool s2) = Map.empty" "bn_sink s2 = bn_sink ?s1 + word_of_nat (\<Sum>i<n. i)"
    "bn_time s2 = bn_time ?s1" "room (bn_pool s2) (k + n)" by blast
  show thesis
    by (rule that [of "snd (tick tsc s2)"]) (use l in \<open>simp_all add: bench_dealloc_random_def tick_def\<close>)
qed

lemma bench_deallocate_eq: "bench_deallocate tsc ops ptrs n s = bench_dealloc_random tsc ops ptrs [0..<n] s"
  by (simp add: bench_deallocate_def bench_dealloc_random_def)

lemma cold_loop_holding:
  "holding (bn_pool s) ptrs S \<Longrightarrow> distinct is \<Longrightarrow> set is \<inter> S = {} \<Longrightarrow> set is \<subseteq> {..<length ptrs} \<Longrightarrow>
     room (bn_pool s) (length is) \<Longrightarrow>
     \<exists>ptrs' s'. cold_loop tsc buf ops is c ptrs s =
         Inr (c + (\<Sum>j<length is. cycles tsc (bn_time s + 2 * j)), ptrs', s') \<and>
       holding (bn_pool s') ptrs' (S \<union> set is) \<and> length ptrs' = length ptrs \<and>
       bn_time s' = bn_time s + 2 * length is \<and> bn_sink s' = bn_sink s + word_of_nat (length is) * evict_sum buf"
proof (induction "is" arbitrary: ptrs s S c)
  case (Cons i "is")
  let ?s1 = "snd (tick tsc (evict_cache buf s))"
  have p1: "bn_pool ?s1 = bn_pool s" "bn_time ?s1 = Suc (bn_time s)" "bn_sink ?s1 = bn_sink s + evict_sum buf"
    by (simp_all add: tick_def evict_cache_sum)
  obtain q p' where a: "op_alloc ops (bn_pool s) (bench_order_of i) = Inr (q, p')"
    "holding p' (ptrs[i := q]) (insert i S)" "room p' (length is)"
    by (rule holding_alloc [of "bn_pool s" ptrs S i "length is"]) (use Cons.prems in auto)
  let ?s2 = "snd (tick tsc (?s1\<lparr>bn_pool := p'\<rparr>))"
  have p2: "bn_pool ?s2 = p'" "bn_time ?s2 = bn_time s + 2" "bn_sink ?s2 = bn_sink s + evict_sum buf"
    using p1 by (simp_all add: tick_def)
  have "fst (tick tsc (?s1\<lparr>bn_pool := p'\<rparr>)) - fst (tick tsc (evict_cache buf s)) = cycles tsc (bn_time s)"
    using p1(2) by (simp add: tick_def evict_cache_sum cycles_def)
  then have run: "cold_loop tsc buf ops (i # is) c ptrs s =
      cold_loop tsc buf ops is (c + cycles tsc (bn_time s)) (ptrs[i := q]) ?s2"
    using a(1) p1(1) by (simp add: case_prod_beta)
  have sets: "set is \<inter> insert i S = {}" "insert i S \<union> set is = S \<union> set (i # is)" using Cons.prems(2,3) by auto
  have sum: "(\<Sum>j<length (i # is). cycles tsc (bn_time s + 2 * j)) =
      cycles tsc (bn_time s) + (\<Sum>j<length is. cycles tsc (bn_time s + 2 + 2 * j))"
    by (simp add: sum.lessThan_Suc_shift del: sum.lessThan_Suc)
  show ?case
    unfolding run sum using Cons.IH [of ?s2 "ptrs[i := q]" "insert i S" "c + cycles tsc (bn_time s)"] Cons.prems a p2 sets
    by (simp add: algebra_simps)
qed auto

lemma holding_owned: "holding p ptrs {..<length ptrs} \<Longrightarrow> owned p ptrs [0..<length ptrs]"
proof -
  assume h: "holding p ptrs {..<length ptrs}"
  then obtain addr where ad: "inj_on addr {..<length ptrs}" "dom (objects p) = addr ` {..<length ptrs}"
    "\<forall>i \<in> {..<length ptrs}. ptrs ! i = Some (addr i) \<and> objects p (addr i) = Some (bench_order_of i)" and inv: "inv p"
    unfolding holding_def by blast
  have "ptrs = map Some (map addr [0..<length ptrs])"
    by (rule nth_equalityI) (use ad(3) in auto)
  moreover have "distinct (map addr [0..<length ptrs])" using ad(1) by (simp add: distinct_map lessThan_atLeast0)
  moreover have "map (objects p) (map addr [0..<length ptrs]) = map (\<lambda>i. Some (bench_order_of i)) [0..<length ptrs]"
    using ad(3) by auto
  ultimately show ?thesis unfolding owned_def using inv ad(2)
    by (intro conjI exI [of _ "map addr [0..<length ptrs]"]) (auto simp: lessThan_atLeast0)
qed

lemma cold_phase_safe:
  assumes e: "inv (bn_pool s)" "objects (bn_pool s) = Map.empty" and n: "0 < n" and r: "room (bn_pool s) (min n cold_samples)"
  obtains s' where "cold_phase tsc buf ops n s = Inr (cold_cycles tsc (min n cold_samples) (bn_time s), s')"
    "inv (bn_pool s')" "objects (bn_pool s') = Map.empty" "bn_time s' = bn_time s + 2 * min n cold_samples"
    "bn_sink s' = bn_sink s + word_of_nat (min n cold_samples) * evict_sum buf"
proof -
  let ?m = "min n cold_samples" and ?ptrs = "replicate (min n cold_samples) (None :: ptr)"
  have m: "?m \<noteq> 0" "min (length ?ptrs) cold_samples = ?m" using n by (simp_all add: cold_samples_def)
  have "\<exists>ptrs' s'. cold_loop tsc buf ops [0..<?m] 0 ?ptrs s =
        Inr (0 + (\<Sum>j<length [0..<?m]. cycles tsc (bn_time s + 2 * j)), ptrs', s') \<and>
      holding (bn_pool s') ptrs' ({} \<union> set [0..<?m]) \<and> length ptrs' = length ?ptrs \<and>
      bn_time s' = bn_time s + 2 * length [0..<?m] \<and> bn_sink s' = bn_sink s + word_of_nat (length [0..<?m]) * evict_sum buf"
    by (rule cold_loop_holding) (use e r in \<open>auto simp: holding_empty\<close>)
  then obtain ptrs' s1 where c: "cold_loop tsc buf ops [0..<?m] 0 ?ptrs s =
        Inr (\<Sum>j<?m. cycles tsc (bn_time s + 2 * j), ptrs', s1)"
    and h: "holding (bn_pool s1) ptrs' {..<length ptrs'}"
    and s1: "bn_time s1 = bn_time s + 2 * ?m" "bn_sink s1 = bn_sink s + word_of_nat ?m * evict_sum buf"
    by (auto simp: lessThan_atLeast0)
  from release_all_owned [OF holding_owned [OF h]] obtain s' where s': "release_all ops ptrs' s1 = Inr s'"
    "inv (bn_pool s')" "objects (bn_pool s') = Map.empty" "bn_sink s' = bn_sink s1" "bn_time s' = bn_time s1" by blast
  have "bench_allocate_cold tsc buf ops ?ptrs s = Inr (cold_cycles tsc ?m (bn_time s), ptrs', s1)"
    unfolding bench_allocate_cold_def Let_def m(2) c using m(1) by (simp add: cold_cycles_def)
  with s' s1 show thesis by (intro that [of s']) (simp_all add: cold_phase_def)
qed

text \<open>The first group of phases.\<close>

lemma fill_phases_safe:
  assumes e: "inv (bn_pool s)" "objects (bn_pool s) = Map.empty" and r: "room (bn_pool s) n"
    and perm: "mset order = mset [0..<n]"
  obtains s' where
    "fill_phases tsc ops order n s = Inr (cycles tsc (bn_time s), cycles tsc (bn_time s + 2), cycles tsc (bn_time s + 6), s')"
    "inv (bn_pool s')" "objects (bn_pool s') = Map.empty" "bn_time s' = bn_time s + 8"
    "bn_sink s' = bn_sink s + word_of_nat (2 * (\<Sum>i<n. i))"
proof -
  let ?sum = "word_of_nat (\<Sum>i<n. i)"
  obtain ptrs1 s1 where p1: "bench_allocate tsc ops (replicate n None) n s = Inr (tsc (Suc (bn_time s)) - tsc (bn_time s), ptrs1, s1)"
    "holding (bn_pool s1) ptrs1 {..<n}" "length ptrs1 = n" "bn_sink s1 = bn_sink s" "bn_time s1 = bn_time s + 2" "room (bn_pool s1) 0"
    by (rule bench_allocate_safe [OF e, of "replicate n None" n 0 tsc]) (use r in simp_all)
  obtain s2 where p2: "bench_deallocate tsc ops ptrs1 n s1 = Inr (tsc (Suc (bn_time s1)) - tsc (bn_time s1), s2)"
    "inv (bn_pool s2)" "objects (bn_pool s2) = Map.empty" "bn_sink s2 = bn_sink s1 + ?sum" "bn_time s2 = bn_time s1 + 2"
    "room (bn_pool s2) (0 + n)"
    by (rule bench_dealloc_random_safe [OF p1(2) refl p1(6), of tsc]) (auto simp: bench_deallocate_eq)
  obtain ptrs2 s3 where p3: "bench_allocate tsc ops ptrs1 n s2 = Inr (tsc (Suc (bn_time s2)) - tsc (bn_time s2), ptrs2, s3)"
    "holding (bn_pool s3) ptrs2 {..<n}" "length ptrs2 = n" "bn_sink s3 = bn_sink s2" "bn_time s3 = bn_time s2 + 2" "room (bn_pool s3) 0"
    by (rule bench_allocate_safe [OF p2(2,3) p1(3), of 0 tsc]) (use p2(6) in simp_all)
  obtain s4 where p4: "bench_dealloc_random tsc ops ptrs2 order s3 = Inr (tsc (Suc (bn_time s3)) - tsc (bn_time s3), s4)"
    "inv (bn_pool s4)" "objects (bn_pool s4) = Map.empty" "bn_sink s4 = bn_sink s3 + ?sum" "bn_time s4 = bn_time s3 + 2"
    by (rule bench_dealloc_random_safe [OF p3(2) perm p3(6), of tsc]) blast
  note t = p1(5) p2(5) p3(5) p4(5) and k = p1(4) p2(4) p3(4) p4(4)
  show thesis
  proof (rule that [OF _ p4(2,3)])
    show "fill_phases tsc ops order n s =
        Inr (cycles tsc (bn_time s), cycles tsc (bn_time s + 2), cycles tsc (bn_time s + 6), s4)"
      by (simp add: fill_phases_def p1(1) p2(1) p3(1) p4(1) t cycles_def eval_nat_numeral)
    show "bn_time s4 = bn_time s + 8" by (simp add: t)
    show "bn_sink s4 = bn_sink s + word_of_nat (2 * (\<Sum>i<n. i))" by (simp add: k)
  qed
qed

end

section \<open>The three allocators\<close>

interpretation mpb: bench_store "allocator_ops (allocate bench_overlay) (deallocate bench_overlay) pool_read"
  "live_in (free_slots bench_overlay) pool_cap pool_contents" "\<lambda>p k. k \<le> length (free_slots bench_overlay p)" "pool_ok bench_overlay" pool_cap
  unfolding bench_store_def by (rule bo.readable.pool_counted_store)

interpretation spb: bench_store "allocator_ops sep_allocate sep_deallocate sep_read"
  "live_in sep_free_slots sep_cap sep_contents" "\<lambda>p k. k \<le> length (sep_free_slots p)" sep_ok sep_cap
  unfolding bench_store_def by (rule spr.pool_counted_store)

interpretation shn: bench_store new_ops heap_objects heap_room "\<lambda>h. heap_limit h = lim" heap_limit for lim
  unfolding bench_store_def by (rule new_counted_store)

interpretation shm: bench_store malloc_ops heap_objects heap_room "\<lambda>h. heap_limit h = lim" heap_limit for lim
  unfolding bench_store_def by (rule malloc_counted_store)

lemma push_checked_simps: "\<forall>x live. push_checked (Some x) live = live @ [Some x]" "push_checked None live = live"
  by (simp_all add: push_checked_def)

lemma push_always_simps: "\<forall>x live. push_always (Some x) live = live @ [Some x]"
  by (simp add: push_always_def)

lemma live_in_all_free: "free p = [0..<cap p] \<Longrightarrow> live_in free cap contents p = Map.empty"
  by (auto simp: live_in_def)

definition churn_draws_ok :: "nat \<Rightarrow> churn_draw list \<Rightarrow> bool" where
  "churn_draws_ok n ds \<longleftrightarrow> length ds = n \<and> (\<forall>d \<in> set ds. \<forall>k. pick d k \<le> k)"

text \<open>
  A heap with memory for one and a half times \<open>n\<close> orders is enough: a churn starts with half of them
  and could allocate in each of its operations.
\<close>

lemma heap_phases_safe:
  assumes st: "bench_store ops heap_objects heap_room (\<lambda>h. heap_limit h = lim) heap_limit"
    and al: "\<And>h v h'. op_alloc ops h v \<noteq> Inr (None, h')" and lim: "n + n div 2 \<le> lim"
    and n: "0 < n" and perm: "mset order = mset [0..<n]" and ds: "churn_draws_ok n ds"
    and s: "heap_limit (bn_pool s) = lim" "heap_objects (bn_pool s) = Map.empty"
  obtains s' where "heap_phases tsc buf ops order ds n s = Inr (expected_times tsc n (bn_time s), s')"
    "heap_limit (bn_pool s') = lim" "heap_objects (bn_pool s') = Map.empty" "bn_time s' = bn_time s + phase_ticks n"
    "bn_sink s' = bn_sink s + expected_sink buf (n + n div 2) n ds"
proof -
  have full: "\<forall>p v p' live. heap_limit p = lim \<and> op_alloc ops p v = Inr (None, p') \<longrightarrow> push_always None live = live"
    using al by blast
  have room: "heap_room h k" if "heap_limit h = lim" "heap_objects h = Map.empty" "k \<le> n + n div 2"
    for h :: "bench_order sys_heap" and k
    using that lim by (simp add: heap_empty_room)
  have cr: "bench_store.churn_room ops heap_room (\<lambda>h. heap_limit h = lim) h n"
    if "heap_limit h = lim" "heap_objects h = Map.empty" for h :: "bench_order sys_heap"
    unfolding bench_store.churn_room_def [OF st] using room [OF that] by simp
  have ds': "length ds = n" "\<forall>d \<in> set ds. \<forall>n. pick d n \<le> n" using ds by (simp_all add: churn_draws_ok_def)
  have cap: "churn_total lim ds = churn_total (n + n div 2) ds" by (rule churn_total_cap) (use ds'(1) lim in simp_all)
  obtain s1 where p1: "fill_phases tsc ops order n s =
      Inr (cycles tsc (bn_time s), cycles tsc (bn_time s + 2), cycles tsc (bn_time s + 6), s1)"
    "heap_limit (bn_pool s1) = lim" "heap_objects (bn_pool s1) = Map.empty" "bn_time s1 = bn_time s + 8"
    "bn_sink s1 = bn_sink s + word_of_nat (2 * (\<Sum>i<n. i))"
    by (rule bench_store.fill_phases_safe [OF st s room [OF s] perm, of tsc]) simp_all
  obtain s2 where p2: "bench_churn tsc ops push_always ds s1 = Inr (cycles tsc (bn_time s1), s2)"
    "heap_limit (bn_pool s2) = lim" "heap_objects (bn_pool s2) = Map.empty" "bn_time s2 = bn_time s1 + 2"
    "bn_sink s2 = bn_sink s1 + word_of_nat (churn_total lim ds)"
    using bench_store.bench_churn_safe [OF st p1(2,3) _ ds'(2) push_always_simps full, of tsc] cr [OF p1(2,3)] ds'(1) p1(2)
    by auto
  obtain s3 where p3: "cold_phase tsc buf ops n s2 = Inr (cold_cycles tsc (min n cold_samples) (bn_time s2), s3)"
    "heap_limit (bn_pool s3) = lim" "heap_objects (bn_pool s3) = Map.empty" "bn_time s3 = bn_time s2 + 2 * min n cold_samples"
    "bn_sink s3 = bn_sink s2 + word_of_nat (min n cold_samples) * evict_sum buf"
    by (rule bench_store.cold_phase_safe [OF st p2(2,3) n, of tsc buf]) (use room [OF p2(2,3)] in simp_all)
  have t: "bn_time s1 = bn_time s + 8" "bn_time s2 = bn_time s + 10" "bn_time s3 = bn_time s + (10 + 2 * min n cold_samples)"
    using p1(4) p2(4) p3(4) by simp_all
  note k = p1(5) p2(5) p3(5)
  show thesis
    by (rule that [OF _ p3(2,3)]) (simp_all add: heap_phases_def p1(1) p2(1) p3(1) t k cap
        expected_times_def phase_ticks_def expected_sink_def)
qed

lemma heap_ops_no_null:
  "op_alloc new_ops h v \<noteq> Inr (None, h')" "op_alloc malloc_ops h v \<noteq> Inr (None, h')"
  by (simp_all add: new_ops_def heap_new_def malloc_ops_def heap_malloc_def split: option.splits prod.splits)

lemma heap_empty_objects: "heap_objects \<lparr>cells = [], heap_limit = lim\<rparr> = Map.empty"
  by (rule ext) (simp add: heap_objects_def)

context bench_store
begin

lemma pool_phases_safe:
  assumes p: "inv p" "objects p = Map.empty" "\<forall>k \<le> unat n. room p k" "capacity p = unat n"
    and last: "\<forall>p v e. inv p \<longrightarrow> op_alloc ops p v \<noteq> Inl e"
    and n: "n > 0" and new: "new_pool n = Inr p" and perm: "mset order = mset [0..<unat n]" and ds: "churn_draws_ok (unat n) ds"
  obtains pool pool2 s where
    "pool_phases tsc buf ops new_pool order ds n sk tm = Inr (expected_times tsc (unat n) tm, pool, pool2, s)"
    "\<forall>p \<in> {pool, pool2, bn_pool s}. inv p \<and> objects p = Map.empty"
    "bn_time s = tm + phase_ticks (unat n)" "bn_sink s = sk + expected_sink buf (unat n) (unat n) ds"
proof -
  let ?s0 = "\<lparr>bn_pool = p, bn_sink = sk, bn_time = tm\<rparr>" and ?n = "unat n"
  have n0: "0 < ?n" using n by (simp add: unat_gt_0)
  have cr: "churn_room p ?n" using p(3) last by (simp add: churn_room_def)
  have ds': "length ds = ?n" "\<forall>d \<in> set ds. \<forall>n. pick d n \<le> n" using ds by (simp_all add: churn_draws_ok_def)
  have full: "\<forall>p v p' live. inv p \<and> op_alloc ops p v = Inr (None, p') \<longrightarrow> push_checked None live = live"
    by (simp add: push_checked_simps)
  obtain s1 where p1: "fill_phases tsc ops order ?n ?s0 = Inr (cycles tsc tm, cycles tsc (tm + 2), cycles tsc (tm + 6), s1)"
    "inv (bn_pool s1)" "objects (bn_pool s1) = Map.empty" "bn_time s1 = tm + 8" "bn_sink s1 = sk + word_of_nat (2 * (\<Sum>i<?n. i))"
    using fill_phases_safe [of ?s0, OF _ _ _ perm, of tsc] p by auto
  obtain s2 where p2: "bench_churn tsc ops push_checked ds (s1\<lparr>bn_pool := p\<rparr>) = Inr (cycles tsc (bn_time s1), s2)"
    "inv (bn_pool s2)" "objects (bn_pool s2) = Map.empty" "bn_time s2 = bn_time s1 + 2"
    "bn_sink s2 = bn_sink s1 + word_of_nat (churn_total ?n ds)"
    using bench_churn_safe [of "s1\<lparr>bn_pool := p\<rparr>", OF _ _ _ ds'(2) push_checked_simps(1) full, of tsc] p(1,2,4) cr ds'(1)
    by auto
  obtain s3 where p3: "cold_phase tsc buf ops ?n (s2\<lparr>bn_pool := p\<rparr>) = Inr (cold_cycles tsc (min ?n cold_samples) (bn_time s2), s3)"
    "inv (bn_pool s3)" "objects (bn_pool s3) = Map.empty" "bn_time s3 = bn_time s2 + 2 * min ?n cold_samples"
    "bn_sink s3 = bn_sink s2 + word_of_nat (min ?n cold_samples) * evict_sum buf"
    using cold_phase_safe [of "s2\<lparr>bn_pool := p\<rparr>", OF _ _ n0, of tsc buf] p by auto
  have t: "bn_time s1 = tm + 8" "bn_time s2 = tm + 10" "bn_time s3 = tm + (10 + 2 * min ?n cold_samples)"
    using p1(4) p2(4) p3(4) by simp_all
  note k = p1(5) p2(5) p3(5)
  show thesis
    by (rule that [of "bn_pool s1" "bn_pool s2" s3])
      (use p1(2,3) p2(2,3) p3(2,3) in \<open>simp_all add: pool_phases_def new p1(1) p2(1) p3(1) t k
        expected_times_def phase_ticks_def expected_sink_def\<close>)
qed

lemma run_benchmark_safe:
  assumes p: "inv p" "objects p = Map.empty" "\<forall>k \<le> unat n. room p k" "capacity p = unat n"
    and last: "\<forall>p v e. inv p \<longrightarrow> op_alloc ops p v \<noteq> Inl e"
    and n: "n > 0" and lim: "unat n + unat n div 2 \<le> lim" and new: "new_pool n = Inr p" and perm: "mset order = mset [0..<unat n]"
    and ds: "churn_draws_ok (unat n) dsp" "churn_draws_ok (unat n) dsn" "churn_draws_ok (unat n) dsm"
  obtains pool pool2 pool3 h where
    "run_benchmark tsc buf lim ops new_pool order dsp dsn dsm n sk tm =
       Inr (expected_rows tsc (unat n) tm, (pool, pool2, pool3), h)"
    "\<forall>p \<in> {pool, pool2, pool3}. inv p \<and> objects p = Map.empty" "heap_objects (bn_pool h) = Map.empty"
    "bn_time h = tm + 3 * phase_ticks (unat n)" "bn_sink h = sk + expected_run_sink buf (unat n) dsp dsn dsm"
proof -
  let ?n = "unat n"
  have n0: "0 < ?n" using n by (simp add: unat_gt_0)
  obtain pool pool2 s1 where p1: "pool_phases tsc buf ops new_pool order dsp n sk tm = Inr (expected_times tsc ?n tm, pool, pool2, s1)"
    "\<forall>p \<in> {pool, pool2, bn_pool s1}. inv p \<and> objects p = Map.empty"
    "bn_time s1 = tm + phase_ticks ?n" "bn_sink s1 = sk + expected_sink buf ?n ?n dsp"
    using p last n new perm ds(1) by (rule pool_phases_safe)
  let ?s1 = "\<lparr>bn_pool = \<lparr>cells = [], heap_limit = lim\<rparr>, bn_sink = bn_sink s1, bn_time = bn_time s1\<rparr>"
  have h0: "heap_limit (bn_pool ?s1) = lim" "heap_objects (bn_pool ?s1) = Map.empty" by (simp_all add: heap_empty_objects)
  obtain s2 where p2: "heap_phases tsc buf new_ops order dsn ?n ?s1 = Inr (expected_times tsc ?n (bn_time s1), s2)"
    "heap_limit (bn_pool s2) = lim" "heap_objects (bn_pool s2) = Map.empty" "bn_time s2 = bn_time s1 + phase_ticks ?n"
    "bn_sink s2 = bn_sink s1 + expected_sink buf (?n + ?n div 2) ?n dsn"
    by (rule heap_phases_safe [OF shn.bench_store_axioms heap_ops_no_null(1) lim n0 perm ds(2) h0, of tsc buf]) (rule that, simp_all)
  obtain s3 where p3: "heap_phases tsc buf malloc_ops order dsm ?n s2 = Inr (expected_times tsc ?n (bn_time s2), s3)"
    "heap_limit (bn_pool s3) = lim" "heap_objects (bn_pool s3) = Map.empty" "bn_time s3 = bn_time s2 + phase_ticks ?n"
    "bn_sink s3 = bn_sink s2 + expected_sink buf (?n + ?n div 2) ?n dsm"
    by (rule heap_phases_safe [OF shm.bench_store_axioms heap_ops_no_null(2) lim n0 perm ds(3) p2(2,3), of tsc buf]) (rule that, simp_all)
  have run: "run_benchmark tsc buf lim ops new_pool order dsp dsn dsm n sk tm =
      Inr (result_rows (expected_times tsc ?n tm) (expected_times tsc ?n (bn_time s1)) (expected_times tsc ?n (bn_time s2)),
           (pool, pool2, bn_pool s1), s3)"
    by (simp add: run_benchmark_def p1(1) p2(1) p3(1))
  have t: "bn_time s1 = tm + phase_ticks ?n" "bn_time s2 = tm + 2 * phase_ticks ?n" "bn_time s3 = tm + 3 * phase_ticks ?n"
    using p1(3) p2(4) p3(4) by simp_all
  note k = p1(4) p2(5) p3(5)
  show thesis
    by (rule that [OF _ p1(2) p3(3)])
      (simp_all add: run t k expected_rows_def result_rows_def Let_def expected_run_sink_def add.assoc)
qed

text \<open>
  With memory for fewer than \<open>n\<close> orders the phases of the pool still run, and what follows them is the
  end of the program.
\<close>

lemma run_benchmark_stops:
  assumes p: "inv p" "objects p = Map.empty" "\<forall>k \<le> unat n. room p k" "capacity p = unat n"
    and last: "\<forall>p v e. inv p \<longrightarrow> op_alloc ops p v \<noteq> Inl e"
    and n: "n > 0" and new: "new_pool n = Inr p" and perm: "mset order = mset [0..<unat n]" and ds: "churn_draws_ok (unat n) dsp"
    and stop: "\<And>s. bn_pool s = \<lparr>cells = [], heap_limit = lim\<rparr> \<Longrightarrow>
      heap_phases tsc buf new_ops order dsn (unat n) s = Inl e"
  shows "run_benchmark tsc buf lim ops new_pool order dsp dsn dsm n sk tm = Inl e"
proof -
  obtain pool pool2 s1 where p1: "pool_phases tsc buf ops new_pool order dsp n sk tm =
      Inr (expected_times tsc (unat n) tm, pool, pool2, s1)"
    using p last n new perm ds by (rule pool_phases_safe)
  then show ?thesis by (simp add: run_benchmark_def stop)
qed

end

section \<open>A heap without memory\<close>

text \<open>Filling a heap that has no room for all of it ends as the allocation ends.\<close>

lemma alloc_loop_exhausted:
  assumes al: "\<And>h v. op_alloc ops h v = (case heap_take h v of None \<Rightarrow> Inl e | Some (i, h') \<Rightarrow> Inr (Some i, h'))"
  shows "\<not> heap_room (bn_pool s) (length is) \<Longrightarrow> set is \<subseteq> {..<length ptrs} \<Longrightarrow> heap_live (bn_pool s) \<le> heap_limit (bn_pool s) \<Longrightarrow>
    alloc_loop ops is ptrs s = Inl e"
proof (induction "is" arbitrary: ptrs s)
  case Nil
  then show ?case by (simp add: heap_room_def)
next
  case (Cons i "is")
  show ?case
  proof (cases "heap_take (bn_pool s) (bench_order_of i)")
    case None
    with Cons.prems(2) show ?thesis by (simp add: al)
  next
    case (Some t)
    obtain x h' where t: "heap_take (bn_pool s) (bench_order_of i) = Some (x, h')" using Some by (cases t) auto
    have "heap_live (bn_pool s) < heap_limit (bn_pool s)" using t by (simp add: heap_take_def split: if_splits)
    with Cons.prems t show ?thesis
      by (simp add: al) (intro Cons.IH; simp add: heap_room_def heap_take_facts(3,4) [OF t])
  qed
qed

lemma bench_allocate_exhausted:
  assumes al: "\<And>h v. op_alloc ops h v = (case heap_take h v of None \<Rightarrow> Inl e | Some (i, h') \<Rightarrow> Inr (Some i, h'))"
    and "heap_live (bn_pool s) \<le> heap_limit (bn_pool s)" and "heap_limit (bn_pool s) < heap_live (bn_pool s) + n"
    and "n \<le> length ptrs"
  shows "bench_allocate tsc ops ptrs n s = Inl e"
proof -
  have "alloc_loop ops [0..<n] ptrs (snd (tick tsc s)) = Inl e"
    by (rule alloc_loop_exhausted [OF al]) (use assms(2-4) in \<open>auto simp: tick_def heap_room_def\<close>)
  then show ?thesis by (simp add: bench_allocate_def case_prod_beta)
qed

section \<open>The properties\<close>

lemma bench_pool_new:
  assumes "n > 0"
  obtains p where "mem_pool_new bench_overlay z n = Inr p" "pool_ok bench_overlay p"
    "free_slots bench_overlay p = [0..<unat n]" "pool_cap p = unat n"
  using bo.mem_pool_new_repr [OF assms, of z] pool_repr_ok pool_repr_free_slots by metis

lemma mem_pool_last: "\<forall>p v e. pool_ok bench_overlay p \<longrightarrow>
    op_alloc (allocator_ops (allocate bench_overlay) (deallocate bench_overlay) pool_read) p v \<noteq> Inl e"
  by (simp add: allocator_ops_def)

lemma sep_pool_last: "\<forall>p v e. sep_ok p \<longrightarrow> op_alloc (allocator_ops sep_allocate sep_deallocate sep_read) p v \<noteq> Inl e"
  by (simp add: allocator_ops_def)

text \<open>A fresh pool of either kind is an allocator with room for all of its slots.\<close>

lemma mem_pool_fresh:
  assumes "n > 0"
  obtains p where "mem_pool_new bench_overlay zero_bench_order n = Inr p" "pool_ok bench_overlay p"
    "live_in (free_slots bench_overlay) pool_cap pool_contents p = Map.empty"
    "\<forall>k \<le> unat n. k \<le> length (free_slots bench_overlay p)" "pool_cap p = unat n"
proof -
  obtain p where p: "mem_pool_new bench_overlay zero_bench_order n = Inr p" "pool_ok bench_overlay p"
    "free_slots bench_overlay p = [0..<unat n]" "pool_cap p = unat n"
    using assms by (rule bench_pool_new)
  have e: "live_in (free_slots bench_overlay) pool_cap pool_contents p = Map.empty"
    using p(3,4) by (intro live_in_all_free) simp
  show thesis by (rule that [OF p(1,2) e]) (simp_all add: p(3,4))
qed

lemma sep_pool_fresh:
  assumes "n > 0"
  obtains p where "sep_pool_new zero_bench_order n = Inr p" "sep_ok p"
    "live_in sep_free_slots sep_cap sep_contents p = Map.empty" "\<forall>k \<le> unat n. k \<le> length (sep_free_slots p)"
    "sep_cap p = unat n"
proof -
  obtain p where p: "sep_pool_new zero_bench_order n = Inr p" "sep_ok p" "sep_free_slots p = [0..<unat n]" "sep_cap p = unat n"
    using sep_pool_new_repr [OF assms, of zero_bench_order] sep_repr_ok sep_repr_free_slots by metis
  have e: "live_in sep_free_slots sep_cap sep_contents p = Map.empty"
    using p(3,4) by (intro live_in_all_free) simp
  show thesis by (rule that [OF p(1,2) e]) (simp_all add: p(3,4))
qed

lemma mem_pool_run_safe:
  assumes "n > 0" and "mset order = mset [0..<unat n]" and "unat n + unat n div 2 \<le> lim"
    and "churn_draws_ok (unat n) dsp" and "churn_draws_ok (unat n) dsn" and "churn_draws_ok (unat n) dsm"
  obtains pool pool2 pool3 h where
    "mem_pool_run_benchmark tsc buf lim order dsp dsn dsm n sk tm = Inr (expected_rows tsc (unat n) tm, (pool, pool2, pool3), h)"
    "\<forall>p \<in> {pool, pool2, pool3}. pool_ok bench_overlay p \<and> live_in (free_slots bench_overlay) pool_cap pool_contents p = Map.empty"
    "heap_objects (bn_pool h) = Map.empty" "bn_time h = tm + 3 * phase_ticks (unat n)"
    "bn_sink h = sk + expected_run_sink buf (unat n) dsp dsn dsm"
proof -
  obtain p where p: "mem_pool_new bench_overlay zero_bench_order n = Inr p" "pool_ok bench_overlay p" "live_in (free_slots bench_overlay) pool_cap pool_contents p = Map.empty"
    "\<forall>k \<le> unat n. k \<le> length (free_slots bench_overlay p)" "pool_cap p = unat n"
    using assms(1) by (rule mem_pool_fresh)
  show thesis
    by (rule mpb.run_benchmark_safe [where new_pool = "mem_pool_new bench_overlay zero_bench_order",
          OF p(2,3,4,5) mem_pool_last assms(1,3) p(1) assms(2,4,5,6), of tsc buf sk tm])
      (rule that, simp_all only: mem_pool_run_benchmark_def mem_pool_ops_def)
qed

lemma sep_pool_run_safe:
  assumes "n > 0" and "mset order = mset [0..<unat n]" and "unat n + unat n div 2 \<le> lim"
    and "churn_draws_ok (unat n) dsp" and "churn_draws_ok (unat n) dsn" and "churn_draws_ok (unat n) dsm"
  obtains pool pool2 pool3 h where
    "sep_pool_run_benchmark tsc buf lim order dsp dsn dsm n sk tm = Inr (expected_rows tsc (unat n) tm, (pool, pool2, pool3), h)"
    "\<forall>p \<in> {pool, pool2, pool3}. sep_ok p \<and> live_in sep_free_slots sep_cap sep_contents p = Map.empty"
    "heap_objects (bn_pool h) = Map.empty" "bn_time h = tm + 3 * phase_ticks (unat n)"
    "bn_sink h = sk + expected_run_sink buf (unat n) dsp dsn dsm"
proof -
  obtain p where p: "sep_pool_new zero_bench_order n = Inr p" "sep_ok p" "live_in sep_free_slots sep_cap sep_contents p = Map.empty"
    "\<forall>k \<le> unat n. k \<le> length (sep_free_slots p)" "sep_cap p = unat n"
    using assms(1) by (rule sep_pool_fresh)
  show thesis
    by (rule spb.run_benchmark_safe [where new_pool = "sep_pool_new zero_bench_order",
          OF p(2,3,4,5) sep_pool_last assms(1,3) p(1) assms(2,4,5,6), of tsc buf sk tm])
      (rule that, simp_all only: sep_pool_run_benchmark_def sep_pool_ops_def)
qed

text \<open>
  C33: Both allocation benchmarks are correct as programs. For any size, any shuffled order, any
  draws within range, and a system heap with memory for one and a half times as many orders, every
  phase of each of the three allocators returns: no null or dead pointer is read, nothing is given
  back twice, no vector is indexed out of range. At the end all objects have been given back: each of
  the three pools of a run, the one that is filled and drained, \<open>pool2\<close> of the churn and \<open>pool3\<close> of the
  cold allocations, is in order without a live object, and the heap holds no leaked object.
\<close>

theorem pool_benchmarks_safe:
  assumes "n > 0" and "mset order = mset [0..<unat n]" and "unat n + unat n div 2 \<le> lim"
    and "churn_draws_ok (unat n) dsp" and "churn_draws_ok (unat n) dsn" and "churn_draws_ok (unat n) dsm"
  shows "(\<exists>rows pool pool2 pool3 h.
      mem_pool_run_benchmark tsc buf lim order dsp dsn dsm n sk tm = Inr (rows, (pool, pool2, pool3), h) \<and>
      list_all (\<lambda>p. pool_ok bench_overlay p \<and> live_in (free_slots bench_overlay) pool_cap pool_contents p = Map.empty)
        [pool, pool2, pool3] \<and>
      heap_objects (bn_pool h) = Map.empty) \<and>
    (\<exists>rows pool pool2 pool3 h.
      sep_pool_run_benchmark tsc buf lim order dsp dsn dsm n sk tm = Inr (rows, (pool, pool2, pool3), h) \<and>
      list_all (\<lambda>p. sep_ok p \<and> live_in sep_free_slots sep_cap sep_contents p = Map.empty) [pool, pool2, pool3] \<and>
      heap_objects (bn_pool h) = Map.empty)"
proof (intro conjI)
  from assms obtain pool pool2 pool3 h where
    "mem_pool_run_benchmark tsc buf lim order dsp dsn dsm n sk tm = Inr (expected_rows tsc (unat n) tm, (pool, pool2, pool3), h)"
    "\<forall>p \<in> {pool, pool2, pool3}. pool_ok bench_overlay p \<and> live_in (free_slots bench_overlay) pool_cap pool_contents p = Map.empty"
    "heap_objects (bn_pool h) = Map.empty" by (rule mem_pool_run_safe)
  then show "\<exists>rows pool pool2 pool3 h.
      mem_pool_run_benchmark tsc buf lim order dsp dsn dsm n sk tm = Inr (rows, (pool, pool2, pool3), h) \<and>
      list_all (\<lambda>p. pool_ok bench_overlay p \<and> live_in (free_slots bench_overlay) pool_cap pool_contents p = Map.empty)
        [pool, pool2, pool3] \<and> heap_objects (bn_pool h) = Map.empty" by simp
next
  from assms obtain pool pool2 pool3 h where
    "sep_pool_run_benchmark tsc buf lim order dsp dsn dsm n sk tm = Inr (expected_rows tsc (unat n) tm, (pool, pool2, pool3), h)"
    "\<forall>p \<in> {pool, pool2, pool3}. sep_ok p \<and> live_in sep_free_slots sep_cap sep_contents p = Map.empty"
    "heap_objects (bn_pool h) = Map.empty" by (rule sep_pool_run_safe)
  then show "\<exists>rows pool pool2 pool3 h.
      sep_pool_run_benchmark tsc buf lim order dsp dsn dsm n sk tm = Inr (rows, (pool, pool2, pool3), h) \<and>
      list_all (\<lambda>p. sep_ok p \<and> live_in sep_free_slots sep_cap sep_contents p = Map.empty) [pool, pool2, pool3] \<and>
      heap_objects (bn_pool h) = Map.empty" by simp
qed

text \<open>Two slots, the order reversed, and churns that take their first draws alternately.\<close>

definition sample_churn :: "churn_draw list" where
  "sample_churn = [\<lparr>coin_zero = True, pick = (\<lambda>n. n)\<rparr>, \<lparr>coin_zero = False, pick = (\<lambda>n. 0)\<rparr>]"

lemma sample_churn_ok: "churn_draws_ok (unat (2 :: size_t)) sample_churn" "mset [1, 0] = mset [0..<unat (2 :: size_t)]"
proof -
  show "churn_draws_ok (unat (2 :: size_t)) sample_churn"
    by (simp add: churn_draws_ok_def sample_churn_def)
  have "[0..<2 :: nat] = [0, 1]" by (simp add: upt_rec)
  then show "mset [1, 0] = mset [0..<unat (2 :: size_t)]" by (simp add: add_mset_commute)
qed

corollary pool_benchmarks_safe_sample:
  "(\<exists>rows p q r h. mem_pool_run_benchmark (\<lambda>k. word_of_nat (7 * k)) [0, 0] 3 [1, 0] sample_churn sample_churn sample_churn 2 0 0 =
     Inr (rows, (p, q, r), h) \<and> pool_ok bench_overlay q \<and> heap_objects (bn_pool h) = Map.empty) \<and>
   (\<exists>rows p q r h. sep_pool_run_benchmark (\<lambda>k. word_of_nat (7 * k)) [0, 0] 3 [1, 0] sample_churn sample_churn sample_churn 2 0 0 =
     Inr (rows, (p, q, r), h) \<and> sep_ok q \<and> heap_objects (bn_pool h) = Map.empty)"
proof -
  have two: "unat (2 :: size_t) + unat (2 :: size_t) div 2 \<le> 3" by simp
  have n: "(2 :: size_t) > 0" by simp
  from pool_benchmarks_safe [OF n sample_churn_ok(2) two sample_churn_ok(1,1,1), of "\<lambda>k. word_of_nat (7 * k)" "[0, 0]" 0 0]
  show ?thesis by (simp only: list.pred_inject) blast
qed

text \<open>
  C34: Running out of memory. With memory for fewer than \<open>n\<close> orders the three allocators part: the
  pools, which have all their slots from the start, finish; \<open>new\<close> throws where nothing catches, so
  either benchmark aborts before it prints a row; and \<open>malloc\<close>, whose answer nobody looks at, has its
  \<open>nullptr\<close> dereferenced by the construction of the order.
\<close>

theorem out_of_memory:
  assumes "n > 0" and "mset order = mset [0..<unat n]" and "lim < unat n" and "churn_draws_ok (unat n) dsp"
  shows "mem_pool_run_benchmark tsc buf lim order dsp dsn dsm n sk tm = Inl Aborted \<and>
    sep_pool_run_benchmark tsc buf lim order dsp dsn dsm n sk tm = Inl Aborted \<and>
    (\<forall>s. bn_pool s = \<lparr>cells = [], heap_limit = lim\<rparr> \<longrightarrow>
      bench_allocate tsc malloc_ops (replicate (unat n) None) (unat n) s = Inl NullDeref)"
proof -
  have st: "heap_phases tsc buf new_ops order dsn (unat n) s = Inl Aborted"
    if "bn_pool s = \<lparr>cells = [], heap_limit = lim\<rparr>" for s
  proof -
    have "bench_allocate tsc new_ops (replicate (unat n) None) (unat n) s = Inl Aborted"
      by (rule bench_allocate_exhausted) (use that assms(3) in \<open>simp_all add: new_ops_def heap_new_def heap_live_def\<close>)
    then show ?thesis by (simp add: heap_phases_def fill_phases_def)
  qed
  obtain p where p: "mem_pool_new bench_overlay zero_bench_order n = Inr p" "pool_ok bench_overlay p"
    "live_in (free_slots bench_overlay) pool_cap pool_contents p = Map.empty"
    "\<forall>k \<le> unat n. k \<le> length (free_slots bench_overlay p)" "pool_cap p = unat n"
    using assms(1) by (rule mem_pool_fresh)
  obtain q where q: "sep_pool_new zero_bench_order n = Inr q" "sep_ok q"
    "live_in sep_free_slots sep_cap sep_contents q = Map.empty" "\<forall>k \<le> unat n. k \<le> length (sep_free_slots q)" "sep_cap q = unat n"
    using assms(1) by (rule sep_pool_fresh)
  have m: "bench_allocate tsc malloc_ops (replicate (unat n) None) (unat n) s = Inl NullDeref"
    if "bn_pool s = \<lparr>cells = [], heap_limit = lim\<rparr>" for s
    by (rule bench_allocate_exhausted) (use that assms(3) in \<open>simp_all add: malloc_ops_def heap_malloc_def heap_live_def\<close>)
  show ?thesis
    using mpb.run_benchmark_stops [where n = n and new_pool = "mem_pool_new bench_overlay zero_bench_order", OF p(2-5) mem_pool_last assms(1) p(1) assms(2,4) st]
      spb.run_benchmark_stops [where n = n and new_pool = "sep_pool_new zero_bench_order", OF q(2-5) sep_pool_last assms(1) q(1) assms(2,4) st] m
    unfolding mem_pool_run_benchmark_def mem_pool_ops_def sep_pool_run_benchmark_def sep_pool_ops_def by blast
qed

text \<open>Memory for one order, and two are asked for.\<close>

corollary out_of_memory_sample:
  "mem_pool_run_benchmark (\<lambda>k. word_of_nat (7 * k)) [0, 0] 1 [1, 0] sample_churn sample_churn sample_churn 2 0 0 = Inl Aborted \<and>
   bench_allocate (\<lambda>k. word_of_nat (7 * k)) malloc_ops (replicate (unat (2 :: size_t)) None) (unat (2 :: size_t))
     \<lparr>bn_pool = \<lparr>cells = [], heap_limit = 1\<rparr>, bn_sink = 0, bn_time = 0\<rparr> = Inl NullDeref"
proof -
  have n: "(2 :: size_t) > 0" "1 < unat (2 :: size_t)" by simp_all
  from out_of_memory [OF n(1) sample_churn_ok(2) n(2) sample_churn_ok(1)] show ?thesis
    by (metis (no_types, lifting) bench.select_convs(1))
qed

text \<open>
  A pass that fills the pool and a pass that drains it in any order report the cycles between
  their two time stamps, and the drain adds the sum of the identifiers to \<open>sink\<close>, whatever the order;
  afterwards the pool is as it was: every slot is free.
\<close>

theorem fill_and_drain:
  assumes "n > 0" and "mset order = mset [0..<unat n]" and "mem_pool_new bench_overlay zero_bench_order n = Inr p"
    and "bn_pool s = p"
  shows "\<exists>ptrs s1 s2.
    bench_allocate tsc mem_pool_ops (replicate (unat n) None) (unat n) s =
      Inr (tsc (Suc (bn_time s)) - tsc (bn_time s), ptrs, s1) \<and>
    bench_dealloc_random tsc mem_pool_ops ptrs order s1 = Inr (tsc (bn_time s + 3) - tsc (bn_time s + 2), s2) \<and>
    bn_sink s2 = bn_sink s + word_of_nat (\<Sum>i<unat n. i) \<and>
    length (free_slots bench_overlay (bn_pool s2)) \<ge> unat n"
proof -
  obtain q where q: "mem_pool_new bench_overlay zero_bench_order n = Inr q" "pool_ok bench_overlay q"
    "free_slots bench_overlay q = [0..<unat n]" "pool_cap q = unat n"
    using assms(1) by (rule bench_pool_new)
  have qp: "bn_pool s = q" using q(1) assms(3,4) by simp
  have ok: "pool_ok bench_overlay (bn_pool s)" using q(2) qp by simp
  have e: "live_in (free_slots bench_overlay) pool_cap pool_contents (bn_pool s) = Map.empty"
    using q(3,4) qp by (intro live_in_all_free) simp
  have r: "unat n + 0 \<le> length (free_slots bench_overlay (bn_pool s))" using q(3) qp by simp
  obtain ptrs s1 where p1: "bench_allocate tsc mem_pool_ops (replicate (unat n) None) (unat n) s =
      Inr (tsc (Suc (bn_time s)) - tsc (bn_time s), ptrs, s1)"
    "mpb.holding (bn_pool s1) ptrs {..<unat n}" "bn_sink s1 = bn_sink s" "bn_time s1 = bn_time s + 2"
    "0 \<le> length (free_slots bench_overlay (bn_pool s1))"
    unfolding mem_pool_ops_def
    by (rule mpb.bench_allocate_safe [OF ok e _ r, of "replicate (unat n) None" tsc]) simp_all
  obtain s2 where p2: "bench_dealloc_random tsc mem_pool_ops ptrs order s1 =
      Inr (tsc (Suc (bn_time s1)) - tsc (bn_time s1), s2)"
    "bn_sink s2 = bn_sink s1 + word_of_nat (\<Sum>i<unat n. i)" "0 + unat n \<le> length (free_slots bench_overlay (bn_pool s2))"
    unfolding mem_pool_ops_def
    by (rule mpb.bench_dealloc_random_safe [OF p1(2) assms(2) p1(5), of tsc]) blast
  have d: "bench_dealloc_random tsc mem_pool_ops ptrs order s1 = Inr (tsc (bn_time s + 3) - tsc (bn_time s + 2), s2)"
    using p2(1) unfolding p1(4) by (simp add: eval_nat_numeral)
  have "bn_sink s2 = bn_sink s + word_of_nat (\<Sum>i<unat n. i)" using p2(2) unfolding p1(3) .
  moreover have "unat n \<le> length (free_slots bench_overlay (bn_pool s2))" using p2(3) by simp
  ultimately show ?thesis using p1(1) d by blast
qed

corollary fill_and_drain_sample:
  "\<exists>p ptrs s1 s2. mem_pool_new bench_overlay zero_bench_order 2 = Inr p \<and>
    bench_allocate (\<lambda>k. word_of_nat (7 * k)) mem_pool_ops (replicate (unat (2 :: size_t)) None) (unat (2 :: size_t))
      \<lparr>bn_pool = p, bn_sink = 0, bn_time = 0\<rparr> = Inr (7, ptrs, s1) \<and>
    bench_dealloc_random (\<lambda>k. word_of_nat (7 * k)) mem_pool_ops ptrs [1, 0] s1 = Inr (7, s2) \<and> bn_sink s2 = 1"
proof -
  obtain p where p: "mem_pool_new bench_overlay zero_bench_order 2 = Inr p"
    using bench_pool_new [of 2 zero_bench_order] by auto
  have two: "unat (2 :: size_t) = 2" by simp
  have sum: "(\<Sum>i<unat (2 :: size_t). i) = 1" unfolding two by (simp add: eval_nat_numeral)
  from fill_and_drain [OF _ sample_churn_ok(2) p, of "\<lparr>bn_pool = p, bn_sink = 0, bn_time = 0\<rparr>" "\<lambda>k. word_of_nat (7 * k)"]
  obtain ptrs s1 s2 where "bench_allocate (\<lambda>k. word_of_nat (7 * k)) mem_pool_ops (replicate (unat (2 :: size_t)) None) (unat (2 :: size_t))
      \<lparr>bn_pool = p, bn_sink = 0, bn_time = 0\<rparr> = Inr (7, ptrs, s1)"
    "bench_dealloc_random (\<lambda>k. word_of_nat (7 * k)) mem_pool_ops ptrs [1, 0] s1 = Inr (7, s2)" "bn_sink s2 = 1"
    unfolding sum by auto
  with p show ?thesis by blast
qed

text \<open>The time stamp is assembled without loss: the two register halves are its high and low 32 bits.\<close>

lemma rdtsc_halves:
  "uint (rdtsc hi lo) = uint hi * 2 ^ 32 + uint lo"
proof -
  have b: "uint hi < 2 ^ 32" "uint lo < 2 ^ 32" "0 \<le> uint hi" "0 \<le> uint lo"
    using unsigned_less [of hi] unsigned_less [of lo] by simp_all
  have wide: "uint (ucast w :: u64) = uint w" for w :: u32
  proof -
    have "uint w < 2 ^ 32" using unsigned_less [of w] by simp
    then have "uint w < 2 ^ LENGTH(64)" by simp
    then show ?thesis unfolding unsigned_ucast_eq by (intro take_bit_int_eq_self) simp_all
  qed
  have "push_bit 32 (uint hi) = uint hi * 2 ^ 32" by (simp add: push_bit_eq_mult)
  then have h: "uint (push_bit 32 (ucast hi) :: u64) = uint hi * 2 ^ 32"
    unfolding unsigned_push_bit_eq wide using b by (simp add: take_bit_int_eq_self)
  have "and (push_bit 32 (uint hi)) (uint lo) = 0"
  proof (rule bit_eqI)
    fix m
    have "uint lo = take_bit 32 (uint lo)" using b by (simp add: take_bit_int_eq_self)
    then have "bit (uint lo) m \<Longrightarrow> m < 32" by (metis bit_take_bit_iff)
    then show "bit (and (push_bit 32 (uint hi)) (uint lo)) m = bit (0 :: int) m"
      by (auto simp: bit_and_iff bit_push_bit_iff)
  qed
  then have "and (uint hi * 2 ^ 32) (uint lo) = 0" by (simp add: push_bit_eq_mult)
  then have "or (uint hi * 2 ^ 32) (uint lo) = uint hi * 2 ^ 32 + uint lo"
    by (simp add: disjunctive_add_eq_or)
  then show ?thesis by (simp only: rdtsc_def unsigned_or_eq h wide)
qed

end
