(* ===== verification/Container_Bench.thy ===== *)
theory Container_Bench
  imports Pool_Bench Std_Map "HOL-Library.Multiset" "HOL-Library.AList"
begin

text \<open>
  \<open>examples/container_benchmark.cpp\<close>: insertion, lookup and iteration over a sorted vector with
  \<open>std::lower_bound\<close>, a \<open>std::map\<close> and a \<open>std::unordered_map\<close>. A C++ \<open>int\<close> has 32 bits: every sum and
  product of the code is checked against its range, and a result outside of it, which C++ leaves
  undefined, is a fault. Memory for the containers is taken to be there. \<open>sink\<close> is 64 bits wide, the iteration order
  of the unordered map and the shuffle are parameters. The interface \<open>lookup_table\<close> states what the
  three containers share, and gives the work that the benchmark makes each of them do.
\<close>

section \<open>Signed 32-bit integers\<close>

definition fits_int :: "int \<Rightarrow> bool" where
  "fits_int i \<longleftrightarrow> - (2 ^ 31) \<le> i \<and> i < 2 ^ 31"

text \<open>The result of an operation on two \<open>int\<close>s.\<close>

definition cpp_int :: "int \<Rightarrow> int result" where
  "cpp_int i = (if fits_int i then Inr i else Inl Int_Overflow)"

lemma cpp_int_simps [simp]: "fits_int i \<Longrightarrow> cpp_int i = Inr i" "\<not> fits_int i \<Longrightarrow> cpp_int i = Inl Int_Overflow"
  by (simp_all add: cpp_int_def)

section \<open>Keys\<close>

text \<open>\<open>std::iota\<close>: each element is written, then the value is incremented, after the last one as well.\<close>

fun iota :: "nat \<Rightarrow> int \<Rightarrow> int list result" where
  "iota 0 v = Inr []"
| "iota (Suc n) v = rbind (cpp_int (v + 1)) (\<lambda>v'. rbind (iota n v') (\<lambda>vs. Inr (v # vs)))"

definition make_keys :: "nat \<Rightarrow> int list result" where
  "make_keys n = iota n 0"

definition make_random_keys :: "(int list \<Rightarrow> int list) \<Rightarrow> int list \<Rightarrow> int list" where
  "make_random_keys shuffle keys = shuffle keys"

section \<open>The containers\<close>

text \<open>\<open>std::vector<Entry>\<close>, searched with \<open>std::lower_bound\<close>: the halving search of the standard library.\<close>

record entry =
  e_key :: int
  e_value :: int

definition vec_insert :: "entry list \<Rightarrow> int \<Rightarrow> entry list result" where
  "vec_insert vec k = rbind (cpp_int (k * 2)) (\<lambda>v. Inr (vec @ [\<lparr>e_key = k, e_value = v\<rparr>]))"

function lower_bound :: "entry list \<Rightarrow> int \<Rightarrow> nat \<Rightarrow> nat \<Rightarrow> nat" where
  "lower_bound vec k first len =
     (if len = 0 then first
      else
        let half = len div 2;
            middle = first + half
        in if e_key (vec ! middle) < k then lower_bound vec k (middle + 1) (len - half - 1)
           else lower_bound vec k first half)"
  by pat_completeness auto
termination
  by (relation "measure (\<lambda>(vec, k, first, len). len)") auto

declare lower_bound.simps [simp del]

definition vec_probe :: "entry list \<Rightarrow> int \<Rightarrow> int" where
  "vec_probe vec k =
     (let it = lower_bound vec k 0 (length vec)
      in if it \<noteq> length vec then e_value (vec ! it) else 0)"

definition vec_values :: "entry list \<Rightarrow> int list" where
  "vec_values vec = map e_value vec"

text \<open>\<open>std::map<int, int>\<close>\<close>

definition map_insert :: "(int, int) std_map \<Rightarrow> int \<Rightarrow> (int, int) std_map result" where
  "map_insert m k = rbind (cpp_int (k * 2)) (\<lambda>v. Inr (std_assign k v (std_subscript k 0 m)))"

definition map_probe :: "(int, int) std_map \<Rightarrow> int \<Rightarrow> int" where
  "map_probe m k = (case std_find m k of Some v \<Rightarrow> v | None \<Rightarrow> 0)"

definition map_values :: "(int, int) std_map \<Rightarrow> int list" where
  "map_values m = map snd m"

text \<open>\<open>std::unordered_map<int, int>\<close>, with its entries in the order in which an iteration meets them.\<close>

definition umap_insert :: "(int \<times> int) list \<Rightarrow> int \<Rightarrow> (int \<times> int) list result" where
  "umap_insert m k = rbind (cpp_int (k * 2)) (\<lambda>v. Inr (AList.update k v m))"

definition umap_probe :: "(int \<times> int) list \<Rightarrow> int \<Rightarrow> int" where
  "umap_probe m k = (case map_of m k of Some v \<Rightarrow> v | None \<Rightarrow> 0)"

definition umap_values :: "(int \<times> int) list \<Rightarrow> int list" where
  "umap_values m = map snd m"

section \<open>The timed loops\<close>

fun insert_loop :: "('t \<Rightarrow> int \<Rightarrow> 't result) \<Rightarrow> 't \<Rightarrow> int list \<Rightarrow> 't result" where
  "insert_loop ins t [] = Inr t"
| "insert_loop ins t (k # ks) = rbind (ins t k) (\<lambda>t'. insert_loop ins t' ks)"

definition bench_insert ::
  "clock \<Rightarrow> ('t \<Rightarrow> int \<Rightarrow> 't result) \<Rightarrow> int list \<Rightarrow> 't bench \<Rightarrow> (u64 \<times> 't bench) result"
where
  "bench_insert tsc ins keys s =
     (let (start, s1) = tick tsc s
      in rbind (insert_loop ins (bn_pool s1) keys) (\<lambda>t.
           let (stop, s2) = tick tsc (s1\<lparr>bn_pool := t\<rparr>)
           in Inr (stop - start, s2)))"

fun lookup_loop :: "clock \<Rightarrow> ('t bench \<Rightarrow> 't bench) \<Rightarrow> ('t \<Rightarrow> int \<Rightarrow> int) \<Rightarrow> int list \<Rightarrow> u64 \<Rightarrow> 't bench \<Rightarrow> u64 \<times> 't bench" where
  "lookup_loop tsc prepare probe [] cycles s = (cycles, s)"
| "lookup_loop tsc prepare probe (k # ks) cycles s =
     (let (start, s1) = tick tsc (prepare s);
          s2 = s1\<lparr>bn_sink := bn_sink s1 + word_of_int (probe (bn_pool s1) k)\<rparr>;
          (stop, s3) = tick tsc s2
      in lookup_loop tsc prepare probe ks (cycles + (stop - start)) s3)"

text \<open>The average divides by the number of keys; a division by 0 ends the process.\<close>

definition bench_lookup :: "clock \<Rightarrow> ('t \<Rightarrow> int \<Rightarrow> int) \<Rightarrow> int list \<Rightarrow> 't bench \<Rightarrow> (u64 \<times> 't bench) result" where
  "bench_lookup tsc probe lookup_keys s =
     (case lookup_loop tsc id probe lookup_keys 0 s of (cycles, s') \<Rightarrow>
        if lookup_keys = [] then Inl Aborted else Inr (cycles div word_of_nat (length lookup_keys), s'))"

definition bench_lookup_cold ::
  "clock \<Rightarrow> 8 word list \<Rightarrow> ('t \<Rightarrow> int \<Rightarrow> int) \<Rightarrow> int list \<Rightarrow> 't bench \<Rightarrow> (u64 \<times> 't bench) result"
where
  "bench_lookup_cold tsc buf probe lookup_keys s =
     (let count = min (length lookup_keys) cold_samples in
      case lookup_loop tsc (evict_cache buf) probe (take count lookup_keys) 0 s of (cycles, s') \<Rightarrow>
        if count = 0 then Inl Aborted else Inr (cycles div word_of_nat count, s'))"

definition bench_iterate :: "clock \<Rightarrow> ('t \<Rightarrow> int list) \<Rightarrow> 't bench \<Rightarrow> u64 \<times> 't bench" where
  "bench_iterate tsc values s =
     (let (start, s1) = tick tsc s;
          s2 = s1\<lparr>bn_sink := foldl (\<lambda>total v. total + word_of_int v) (bn_sink s1) (values (bn_pool s1))\<rparr>;
          (stop, s3) = tick tsc s2
      in (stop - start, s3))"

section \<open>The phases of a run, for each container\<close>

record container_times =
  c_insert :: u64
  c_lookup :: u64
  c_cold :: u64
  c_iterate :: u64

text \<open>\<open>finish\<close> is what happens between the insertions and the lookups: the vector is sorted.\<close>

definition container_phases ::
  "clock \<Rightarrow> 8 word list \<Rightarrow> ('t \<Rightarrow> int \<Rightarrow> 't result) \<Rightarrow> ('t \<Rightarrow> 't) \<Rightarrow> ('t \<Rightarrow> int \<Rightarrow> int) \<Rightarrow> ('t \<Rightarrow> int list) \<Rightarrow>
     int list \<Rightarrow> int list \<Rightarrow> 't bench \<Rightarrow> (container_times \<times> 't bench) result"
where
  "container_phases tsc buf ins finish probe values keys random_keys s =
     rbind (bench_insert tsc ins keys s) (\<lambda>(t_insert, s1).
     rbind (bench_lookup tsc probe random_keys (s1\<lparr>bn_pool := finish (bn_pool s1)\<rparr>)) (\<lambda>(t_lookup, s2).
     rbind (bench_lookup_cold tsc buf probe random_keys s2) (\<lambda>(t_cold, s3).
       let (t_iterate, s4) = bench_iterate tsc values s3
       in Inr (\<lparr>c_insert = t_insert, c_lookup = t_lookup, c_cold = t_cold, c_iterate = t_iterate\<rparr>, s4))))"

definition vec_phases where
  "vec_phases tsc buf = container_phases tsc buf vec_insert (sort_key e_key) vec_probe vec_values"

definition map_phases where
  "map_phases tsc buf = container_phases tsc buf map_insert id map_probe map_values"

definition umap_phases where
  "umap_phases tsc buf iteration_order = container_phases tsc buf umap_insert iteration_order umap_probe umap_values"

definition container_rows ::
  "container_times \<Rightarrow> container_times \<Rightarrow> container_times \<Rightarrow> (string \<times> u64 \<times> u64 \<times> u64) list"
where
  "container_rows v m u =
     [(''Insert (total cycles)'', c_insert v, c_insert m, c_insert u),
      (''Lookup (avg cycles/op)'', c_lookup v, c_lookup m, c_lookup u),
      (''Lookup cold (avg cycles/op)'', c_cold v, c_cold m, c_cold u),
      (''Iterate (total cycles)'', c_iterate v, c_iterate m, c_iterate u)]"

text \<open>\<open>run_benchmark\<close>: the rows of the table, \<open>sink\<close> after each of the three containers, and the clock.\<close>

definition run_container_benchmark ::
  "clock \<Rightarrow> 8 word list \<Rightarrow> (int list \<Rightarrow> int list) \<Rightarrow> ((int \<times> int) list \<Rightarrow> (int \<times> int) list) \<Rightarrow> nat \<Rightarrow> u64 \<Rightarrow> nat \<Rightarrow>
     ((string \<times> u64 \<times> u64 \<times> u64) list \<times> u64 \<times> u64 \<times> u64 \<times> nat) result"
where
  "run_container_benchmark tsc buf shuffle iteration_order n sink time =
     rbind (make_keys n) (\<lambda>keys.
       let random_keys = make_random_keys shuffle keys
       in rbind (vec_phases tsc buf keys random_keys \<lparr>bn_pool = [], bn_sink = sink, bn_time = time\<rparr>) (\<lambda>(v, s1).
         rbind (map_phases tsc buf keys random_keys \<lparr>bn_pool = [], bn_sink = bn_sink s1, bn_time = bn_time s1\<rparr>) (\<lambda>(m, s2).
         rbind (umap_phases tsc buf iteration_order keys random_keys
                  \<lparr>bn_pool = [], bn_sink = bn_sink s2, bn_time = bn_time s2\<rparr>) (\<lambda>(u, s3).
           Inr (container_rows v m u, bn_sink s1, bn_sink s2, bn_sink s3, bn_time s3)))))"

section \<open>The interface\<close>

locale lookup_table =
  fixes ins :: "'t \<Rightarrow> int \<Rightarrow> 't result" and finish :: "'t \<Rightarrow> 't" and start :: 't
    and probe :: "'t \<Rightarrow> int \<Rightarrow> int" and vals :: "'t \<Rightarrow> int list"
  assumes ins_overflow: "\<not> fits_int (k * 2) \<Longrightarrow> ins t k = Inl Int_Overflow"
    and ins_fits: "fits_int (k * 2) \<Longrightarrow> \<exists>t'. ins t k = Inr t'"
    and probe_present: "sorted keys \<Longrightarrow> distinct keys \<Longrightarrow> insert_loop ins start keys = Inr t \<Longrightarrow> k \<in> set keys \<Longrightarrow>
      probe (finish t) k = k * 2"
    and vals_all: "sorted keys \<Longrightarrow> distinct keys \<Longrightarrow> insert_loop ins start keys = Inr t \<Longrightarrow>
      mset (vals (finish t)) = mset (map (\<lambda>k. k * 2) keys)"
begin

text \<open>An insertion of many keys overflows exactly if one of their values does.\<close>

lemma insert_loop_fits: "\<forall>k \<in> set keys. fits_int (k * 2) \<Longrightarrow> \<exists>t'. insert_loop ins t keys = Inr t'"
proof (induction keys arbitrary: t)
  case (Cons k keys)
  obtain t1 where "ins t k = Inr t1" using Cons.prems ins_fits [of k t] by auto
  with Cons show ?case by simp
qed simp

lemma insert_loop_overflow: "k \<in> set keys \<Longrightarrow> \<not> fits_int (k * 2) \<Longrightarrow> insert_loop ins t keys = Inl Int_Overflow"
proof (induction keys arbitrary: t)
  case (Cons j keys)
  show ?case
  proof (cases "fits_int (j * 2)")
    case True
    then obtain t1 where "ins t j = Inr t1" using ins_fits by blast
    with Cons True show ?thesis by auto
  next
    case False
    with ins_overflow [of j t] show ?thesis by simp
  qed
qed simp

lemma container_phases_overflow:
  assumes "k \<in> set keys" and "\<not> fits_int (k * 2)"
  shows "container_phases tsc buf ins finish probe vals keys random_keys s = Inl Int_Overflow"
  by (simp add: container_phases_def bench_insert_def tick_def insert_loop_overflow [OF assms])

lemma lookup_loop_sink:
  assumes "sorted keys" "distinct keys" and t: "insert_loop ins start keys = Inr t"
    and prepare: "\<And>s. bn_sink (prepare s) = bn_sink s \<and> bn_pool (prepare s) = bn_pool s"
  shows "bn_pool s = finish t \<Longrightarrow> set ks \<subseteq> set keys \<Longrightarrow>
    \<exists>c s'. lookup_loop tsc prepare probe ks cy s = (c, s') \<and> bn_pool s' = bn_pool s \<and>
      bn_sink s' = bn_sink s + word_of_int (sum_list (map (\<lambda>k. k * 2) ks))"
proof (induction ks arbitrary: cy s)
  case (Cons k ks)
  let ?s1 = "snd (tick tsc (prepare s))"
  have s1: "bn_pool ?s1 = bn_pool s" "bn_sink ?s1 = bn_sink s" using prepare by (simp_all add: tick_def)
  let ?s2 = "?s1\<lparr>bn_sink := bn_sink ?s1 + word_of_int (probe (bn_pool ?s1) k)\<rparr>"
  let ?s3 = "snd (tick tsc ?s2)"
  have pk: "probe (bn_pool ?s1) k = k * 2"
    unfolding s1 Cons.prems(1) using assms(1,2) t Cons.prems(2) by (intro probe_present) auto
  have s3: "bn_pool ?s3 = bn_pool s" "bn_sink ?s3 = bn_sink s + word_of_int (k * 2)"
    using s1 pk by (simp_all add: tick_def)
  have run: "lookup_loop tsc prepare probe (k # ks) cy s =
      lookup_loop tsc prepare probe ks (cy + (fst (tick tsc ?s2) - fst (tick tsc (prepare s)))) ?s3"
    by (simp add: Let_def case_prod_beta)
  have "bn_pool ?s3 = finish t" using s3(1) Cons.prems(1) by simp
  moreover have "set ks \<subseteq> set keys" using Cons.prems(2) by simp
  ultimately obtain c s' where "lookup_loop tsc prepare probe ks (cy + (fst (tick tsc ?s2) - fst (tick tsc (prepare s)))) ?s3 = (c, s')"
    "bn_pool s' = bn_pool ?s3" "bn_sink s' = bn_sink ?s3 + word_of_int (sum_list (map (\<lambda>k. k * 2) ks))"
    using Cons.IH by blast
  then show ?case unfolding run s3 by (simp add: add.assoc)
qed simp

lemma foldl_sink: "foldl (\<lambda>t v. t + word_of_int v) (w :: u64) vs = w + word_of_int (sum_list vs)"
  by (induction vs arbitrary: w) (simp_all add: add.assoc)

text \<open>The work of the phases: they end, and add the same amount to \<open>sink\<close> for every container.\<close>

lemma container_phases_sink:
  assumes "sorted keys" "distinct keys" "keys \<noteq> []" and fit: "\<forall>k \<in> set keys. fits_int (k * 2)"
    and perm: "mset random_keys = mset keys" and buf: "\<forall>x \<in> set buf. x = 0" and s: "bn_pool s = start"
  obtains t s' where "container_phases tsc buf ins finish probe vals keys random_keys s = Inr (t, s')"
    "bn_sink s' = bn_sink s + word_of_int (2 * sum_list (map (\<lambda>k. k * 2) keys) +
       sum_list (map (\<lambda>k. k * 2) (take cold_samples random_keys)))"
proof -
  obtain tb where t: "insert_loop ins start keys = Inr tb" using insert_loop_fits [OF fit] by blast
  let ?T = "finish tb"
  let ?sum = "sum_list (map (\<lambda>k. k * 2) keys)"
  have evict: "evict_cache buf s = s" for s :: "'t bench"
    using buf by (intro evict_zeros) simp
  have sub: "set random_keys \<subseteq> set keys" using mset_eq_setD [OF perm] by simp
  have sum_perm: "sum_list (map (\<lambda>k. k * 2) random_keys) = ?sum"
    using perm by (metis mset_map sum_mset_sum_list)
  have ne: "random_keys \<noteq> []" using perm assms(3) by auto
  obtain t1 s1 where i1: "bench_insert tsc ins keys s = Inr (t1, s1)" "bn_pool s1 = tb" "bn_sink s1 = bn_sink s"
    using s t by (simp add: bench_insert_def tick_def Let_def)
  define s2 where "s2 = s1\<lparr>bn_pool := finish (bn_pool s1)\<rparr>"
  have s2: "bn_pool s2 = ?T" "bn_sink s2 = bn_sink s"
    using i1 by (simp_all add: s2_def)
  obtain c3 s3 where l3: "lookup_loop tsc id probe random_keys 0 s2 = (c3, s3)" "bn_pool s3 = bn_pool s2"
    "bn_sink s3 = bn_sink s2 + word_of_int ?sum"
    using lookup_loop_sink [OF assms(1,2) t, of id s2 random_keys tsc 0] s2(1) sub sum_perm by auto
  have sub': "set (take (min (length random_keys) cold_samples) random_keys) \<subseteq> set keys"
    using sub set_take_subset by fast
  obtain c4 s4 where l4: "lookup_loop tsc (evict_cache buf) probe (take (min (length random_keys) cold_samples) random_keys) 0 s3 = (c4, s4)"
    "bn_pool s4 = bn_pool s3"
    "bn_sink s4 = bn_sink s3 + word_of_int (sum_list (map (\<lambda>k. k * 2) (take (min (length random_keys) cold_samples) random_keys)))"
    using lookup_loop_sink [OF assms(1,2) t _ _ sub', of "evict_cache buf" s3 tsc 0] evict l3(2) s2(1) by auto
  have tk: "take (min (length random_keys) cold_samples) random_keys = take cold_samples random_keys"
    by (simp add: min_def)
  define s5 where "s5 = snd (bench_iterate tsc vals s4)"
  have "sum_list (vals ?T) = ?sum"
    using vals_all [OF assms(1,2) t] by (metis sum_mset_sum_list)
  then have s5: "bn_sink s5 = bn_sink s4 + word_of_int ?sum"
    using l4(2) l3(2) s2(1) by (simp add: s5_def bench_iterate_def tick_def Let_def foldl_sink)
  have run: "\<exists>t. container_phases tsc buf ins finish probe vals keys random_keys s = Inr (t, s5)"
    unfolding container_phases_def
    using i1(1) l3(1) l4(1) ne
    by (auto simp: Let_def case_prod_beta bench_lookup_def bench_lookup_cold_def s2_def [symmetric] s5_def cold_samples_def)
  have sink: "bn_sink s5 = bn_sink s + word_of_int (2 * ?sum + sum_list (map (\<lambda>k. k * 2) (take cold_samples random_keys)))"
    unfolding s5 l4(3) l3(3) s2(2) tk by (simp add: algebra_simps)
  from run obtain t where "container_phases tsc buf ins finish probe vals keys random_keys s = Inr (t, s5)" by blast
  then show thesis using sink by (rule that)
qed

end

section \<open>The vector\<close>

lemma lower_bound_spec:
  "sorted (map e_key vec) \<Longrightarrow> first + len \<le> length vec \<Longrightarrow> \<forall>i < first. e_key (vec ! i) < k \<Longrightarrow>
     \<forall>i < length vec. first + len \<le> i \<longrightarrow> k \<le> e_key (vec ! i) \<Longrightarrow>
     lower_bound vec k first len \<le> length vec \<and>
     (\<forall>i < lower_bound vec k first len. e_key (vec ! i) < k) \<and>
     (\<forall>i < length vec. lower_bound vec k first len \<le> i \<longrightarrow> k \<le> e_key (vec ! i))"
proof (induction vec k first len rule: lower_bound.induct)
  case (1 vec k first len)
  show ?case
  proof (cases "len = 0")
    case True
    then have "lower_bound vec k first len = first" by (subst lower_bound.simps) simp
    with True "1.prems" show ?thesis by simp
  next
    case False
    let ?half = "len div 2"
    let ?mid = "first + ?half"
    have mid: "?mid < length vec" using False "1.prems"(2) by linarith
    have mono: "i \<le> j \<Longrightarrow> j < length vec \<Longrightarrow> e_key (vec ! i) \<le> e_key (vec ! j)" for i j
      using sorted_nth_mono [OF "1.prems"(1), of i j] by simp
    show ?thesis
    proof (cases "e_key (vec ! ?mid) < k")
      case True
      have run: "lower_bound vec k first len = lower_bound vec k (?mid + 1) (len - ?half - 1)"
        using False True by (simp add: lower_bound.simps [of vec k first len] Let_def)
      have len: "?mid + 1 + (len - ?half - 1) = first + len" using False by linarith
      have lo: "\<forall>i < ?mid + 1. e_key (vec ! i) < k"
      proof (intro allI impI)
        fix i assume "i < ?mid + 1"
        then have "e_key (vec ! i) \<le> e_key (vec ! ?mid)" using mono mid by simp
        with True show "e_key (vec ! i) < k" by simp
      qed
      show ?thesis
        unfolding run by (rule "1.IH"(1) [OF False refl refl True "1.prems"(1)])
          (use len lo "1.prems"(2,4) in simp_all)
    next
      case nl: False
      have run: "lower_bound vec k first len = lower_bound vec k first ?half"
        using False nl by (simp add: lower_bound.simps [of vec k first len] Let_def)
      have hi: "\<forall>i < length vec. first + ?half \<le> i \<longrightarrow> k \<le> e_key (vec ! i)"
      proof (intro allI impI)
        fix i assume "i < length vec" "?mid \<le> i"
        then have "e_key (vec ! ?mid) \<le> e_key (vec ! i)" using mono by simp
        with nl show "k \<le> e_key (vec ! i)" by simp
      qed
      show ?thesis
        unfolding run by (rule "1.IH"(2) [OF False refl refl nl "1.prems"(1)])
          (use hi mid "1.prems"(3) in simp_all)
    qed
  qed
qed

lemma lower_bound_finds:
  assumes "sorted (map e_key vec)" and "distinct (map e_key vec)" and "i < length vec"
  shows "lower_bound vec (e_key (vec ! i)) 0 (length vec) = i"
proof -
  let ?r = "lower_bound vec (e_key (vec ! i)) 0 (length vec)"
  from lower_bound_spec [OF assms(1), of 0 "length vec" "e_key (vec ! i)"]
  have r: "\<forall>j < ?r. e_key (vec ! j) < e_key (vec ! i)" "\<forall>j < length vec. ?r \<le> j \<longrightarrow> e_key (vec ! i) \<le> e_key (vec ! j)"
    "?r \<le> length vec" by simp_all
  have "?r \<le> i" using r(1) by (metis less_irrefl not_le)
  then have le: "e_key (vec ! i) \<le> e_key (vec ! ?r)" and len: "?r < length vec" using r(2) assms(3) by auto
  have "e_key (vec ! ?r) \<le> e_key (vec ! i)"
    using sorted_nth_mono [OF assms(1) \<open>?r \<le> i\<close>] assms(3) len by simp
  with le have "map e_key vec ! ?r = map e_key vec ! i" using len assms(3) by simp
  moreover have "?r < length (map e_key vec)" "i < length (map e_key vec)" using len assms(3) by simp_all
  ultimately show ?thesis using nth_eq_iff_index_eq [OF assms(2)] by blast
qed

text \<open>What an insertion does, and what the whole loop leaves, if nothing overflows.\<close>

lemma vec_insert_Inr: "vec_insert vec k = Inr t \<longleftrightarrow> fits_int (k * 2) \<and> t = vec @ [\<lparr>e_key = k, e_value = k * 2\<rparr>]"
  by (cases "fits_int (k * 2)") (auto simp: vec_insert_def)

lemma vec_insert_all:
  "insert_loop vec_insert vec keys = Inr t \<Longrightarrow> t = vec @ map (\<lambda>k. \<lparr>e_key = k, e_value = k * 2\<rparr>) keys"
proof (induction keys arbitrary: vec)
  case (Cons k keys)
  from Cons.prems have "insert_loop vec_insert (vec @ [\<lparr>e_key = k, e_value = k * 2\<rparr>]) keys = Inr t"
    by (auto simp: vec_insert_Inr rbind_eq_Inr)
  from Cons.IH [OF this] show ?case by simp
qed simp

interpretation vt: lookup_table vec_insert "sort_key e_key" "[]" vec_probe vec_values
proof
  fix keys :: "int list" and k and t
  show "\<not> fits_int (k * 2) \<Longrightarrow> vec_insert t k = Inl Int_Overflow" "fits_int (k * 2) \<Longrightarrow> \<exists>t'. vec_insert t k = Inr t'"
    by (simp_all add: vec_insert_def)
  assume keys: "sorted keys" "distinct keys" and t: "insert_loop vec_insert [] keys = Inr t"
  let ?vec = "map (\<lambda>k. \<lparr>e_key = k, e_value = k * 2\<rparr>) keys"
  have k: "map e_key ?vec = keys" by (simp add: o_def)
  then have vec: "sort_key e_key t = ?vec"
    using keys(1) vec_insert_all [OF t] by (simp add: sort_key_id_if_sorted)
  show "mset (vec_values (sort_key e_key t)) = mset (map (\<lambda>k. k * 2) keys)"
    unfolding vec by (simp add: vec_values_def o_def)
  assume "k \<in> set keys"
  then obtain i where i: "i < length keys" "k = keys ! i" by (auto simp: in_set_conv_nth)
  have "lower_bound ?vec (e_key (?vec ! i)) 0 (length ?vec) = i"
    by (rule lower_bound_finds) (use keys i(1) k in simp_all)
  then show "vec_probe (sort_key e_key t) k = k * 2"
    unfolding vec using i by (simp add: vec_probe_def Let_def)
qed

section \<open>The maps\<close>

lemma map_insert_Inr:
  "map_insert m k = Inr t \<longleftrightarrow> fits_int (k * 2) \<and> t = std_assign k (k * 2) (std_subscript k 0 m)"
  by (cases "fits_int (k * 2)") (auto simp: map_insert_def)

lemma map_insert_all:
  "std_sorted m \<Longrightarrow> insert_loop map_insert m keys = Inr t \<Longrightarrow> std_sorted t \<and>
     (\<forall>j. std_find t j = (if j \<in> set keys then Some (j * 2) else std_find m j))"
proof (induction keys arbitrary: m)
  case (Cons k keys)
  let ?m = "std_assign k (k * 2) (std_subscript k 0 m)"
  have run: "insert_loop map_insert ?m keys = Inr t"
    using Cons.prems(2) by (auto simp: map_insert_Inr rbind_eq_Inr)
  have "std_sorted ?m" using Cons.prems(1) by (simp add: std_sorted_subscript)
  moreover have "std_find ?m j = (if j = k then Some (k * 2) else std_find m j)" for j
    using Cons.prems(1) by (simp add: sm.find_store)
  ultimately show ?case using Cons.IH [OF _ run] by auto
qed simp

lemma map_of_values:
  assumes d: "distinct (map fst m)" and f: "\<And>j. map_of m j = (if j \<in> set keys then Some (g j) else None)" and k: "distinct keys"
  shows "mset (map snd m) = mset (map g keys)"
proof -
  have dom: "set (map fst m) = set keys"
    using f by (metis (mono_tags) dom_map_of_conv_image_fst list.set_map domIff option.distinct(1) subsetI subset_antisym)
  have "map snd m = map g (map fst m)"
  proof -
    have "snd x = g (fst x)" if "x \<in> set m" for x
      using f [of "fst x"] d that by (cases x) (metis fst_conv map_of_eq_Some_iff option.distinct(1) option.inject snd_conv)
    then show ?thesis by simp
  qed
  moreover have "mset (map fst m) = mset keys"
    using dom d k by (metis set_eq_iff_mset_eq_distinct)
  ultimately show ?thesis by (metis mset_map)
qed

interpretation mt: lookup_table map_insert id "[]" map_probe map_values
proof
  fix keys :: "int list" and k and t
  show "\<not> fits_int (k * 2) \<Longrightarrow> map_insert t k = Inl Int_Overflow" "fits_int (k * 2) \<Longrightarrow> \<exists>t'. map_insert t k = Inr t'"
    by (simp_all add: map_insert_def)
  assume keys: "sorted keys" "distinct keys" and t: "insert_loop map_insert [] keys = Inr t"
  have all: "std_sorted t" "\<And>j. std_find t j = (if j \<in> set keys then Some (j * 2) else None)"
    using map_insert_all [of "[]", OF _ t] by simp_all
  show "k \<in> set keys \<Longrightarrow> map_probe (id t) k = k * 2"
    using all(2) by (simp add: map_probe_def)
  show "mset (map_values (id t)) = mset (map (\<lambda>k. k * 2) keys)"
    unfolding id_apply map_values_def
    by (rule map_of_values [OF std_sorted_distinct [OF all(1)] _ keys(2)]) (use all(2) in \<open>simp add: std_find_def\<close>)
qed

lemma umap_insert_Inr: "umap_insert m k = Inr t \<longleftrightarrow> fits_int (k * 2) \<and> t = AList.update k (k * 2) m"
  by (cases "fits_int (k * 2)") (auto simp: umap_insert_def)

lemma umap_insert_all:
  "distinct (map fst m) \<Longrightarrow> insert_loop umap_insert m keys = Inr t \<Longrightarrow> distinct (map fst t) \<and>
     (\<forall>j. map_of t j = (if j \<in> set keys then Some (j * 2) else map_of m j))"
proof (induction keys arbitrary: m)
  case (Cons k keys)
  have run: "insert_loop umap_insert (AList.update k (k * 2) m) keys = Inr t"
    using Cons.prems(2) by (auto simp: umap_insert_Inr rbind_eq_Inr)
  have "distinct (map fst (AList.update k (k * 2) m))" using Cons.prems(1) by (simp add: distinct_update)
  with Cons.IH [OF _ run] show ?case by (auto simp: update_conv')
qed simp

text \<open>The unordered map, for any order in which it may list its entries.\<close>

lemma umap_lookup_table:
  assumes perm: "\<And>m. mset (iteration_order m) = mset m"
  shows "lookup_table umap_insert iteration_order [] umap_probe umap_values"
proof
  fix keys :: "int list" and k and t
  show "\<not> fits_int (k * 2) \<Longrightarrow> umap_insert t k = Inl Int_Overflow" "fits_int (k * 2) \<Longrightarrow> \<exists>t'. umap_insert t k = Inr t'"
    by (simp_all add: umap_insert_def)
  assume keys: "sorted keys" "distinct keys" and t: "insert_loop umap_insert [] keys = Inr t"
  have all: "distinct (map fst t)" "\<And>j. map_of t j = (if j \<in> set keys then Some (j * 2) else None)"
    using umap_insert_all [of "[]", OF _ t] by simp_all
  have d: "distinct (map fst (iteration_order t))"
    using all(1) perm [of t] by (metis mset_eq_imp_distinct_iff mset_map)
  have f: "map_of (iteration_order t) j = (if j \<in> set keys then Some (j * 2) else None)" for j
    using all d perm [of t] by (metis map_of_inject_set mset_eq_setD)
  show "k \<in> set keys \<Longrightarrow> umap_probe (iteration_order t) k = k * 2"
    using f by (simp add: umap_probe_def)
  show "mset (umap_values (iteration_order t)) = mset (map (\<lambda>k. k * 2) keys)"
    unfolding umap_values_def using d f keys(2) by (rule map_of_values)
qed

interpretation ut: lookup_table umap_insert rev "[]" umap_probe umap_values
  by (rule umap_lookup_table) simp

section \<open>The properties\<close>

text \<open>The keys are the numbers below \<open>n\<close>, as long as the last increment of \<open>std::iota\<close> stays an \<open>int\<close>.\<close>

definition key_range :: "nat \<Rightarrow> int list" where
  "key_range n = map int [0..<n]"

lemma iota_range:
  "0 \<le> v \<Longrightarrow> v < 2 ^ 31 \<Longrightarrow> iota n v =
     (if n = 0 \<or> v + int n < 2 ^ 31 then Inr (map (\<lambda>i. v + int i) [0..<n]) else Inl Int_Overflow)"
proof (induction n arbitrary: v)
  case (Suc n)
  show ?case
  proof (cases "v + 1 < 2 ^ 31")
    case True
    then have "cpp_int (v + 1) = Inr (v + 1)" using Suc.prems(1) by (simp add: fits_int_def)
    moreover have "map (\<lambda>i. v + int i) [0..<Suc n] = v # map (\<lambda>i. v + 1 + int i) [0..<n]"
      by (simp add: upt_conv_Cons map_Suc_upt [symmetric] o_def add.assoc del: upt_Suc)
    ultimately show ?thesis using Suc.IH [of "v + 1"] Suc.prems(1) True by (auto simp: add.assoc)
  next
    case False
    then have "cpp_int (v + 1) = Inl Int_Overflow" by (simp add: fits_int_def)
    with False show ?thesis by simp
  qed
qed simp

lemma make_keys_range: "make_keys n = (if n < 2 ^ 31 then Inr (key_range n) else Inl Int_Overflow)"
  using iota_range [of 0 n] by (auto simp: make_keys_def key_range_def)

lemma key_range_ok: "sorted (key_range n)" "distinct (key_range n)" "n \<noteq> 0 \<Longrightarrow> key_range n \<noteq> []"
  by (simp_all add: key_range_def distinct_map sorted_map sorted_wrt_upt)

lemma key_range_fits: "n \<le> 2 ^ 30 \<Longrightarrow> \<forall>k \<in> set (key_range n). fits_int (k * 2)"
  by (auto simp: key_range_def fits_int_def)

text \<open>The values that each container adds to \<open>sink\<close>: all of them twice, and the cold sample once more.\<close>

definition table_work :: "(int list \<Rightarrow> int list) \<Rightarrow> nat \<Rightarrow> u64" where
  "table_work shuffle n = word_of_int (2 * sum_list (map (\<lambda>k. k * 2) (key_range n)) +
     sum_list (map (\<lambda>k. k * 2) (take cold_samples (shuffle (key_range n)))))"

lemma container_run_work:
  assumes "n \<noteq> 0" and "n \<le> 2 ^ 30" and "mset (shuffle (key_range n)) = mset (key_range n)"
    and "\<And>m. mset (iteration_order m) = mset m" and "\<forall>x \<in> set buf. x = 0"
  shows "\<exists>rows time'. run_container_benchmark tsc buf shuffle iteration_order n sink time =
    (let work = table_work shuffle n
     in Inr (rows, sink + work, sink + work + work, sink + work + work + work, time'))"
proof -
  let ?w = "table_work shuffle n"
  let ?keys = "key_range n" and ?rnd = "shuffle (key_range n)"
  note k = key_range_ok(1,2) key_range_ok(3) [OF assms(1)] key_range_fits [OF assms(2)]
  have keys: "make_keys n = Inr ?keys" using assms(2) by (simp add: make_keys_range)
  have pool: "bn_pool \<lparr>bn_pool = [], bn_sink = s, bn_time = t\<rparr> = []" for s t by simp
  obtain v s1 where v: "vec_phases tsc buf ?keys ?rnd \<lparr>bn_pool = [], bn_sink = sink, bn_time = time\<rparr> = Inr (v, s1)"
    "bn_sink s1 = sink + ?w"
    unfolding vec_phases_def table_work_def
    using vt.container_phases_sink [OF k assms(3,5) pool, of tsc sink time] by auto
  obtain m s2 where m: "map_phases tsc buf ?keys ?rnd \<lparr>bn_pool = [], bn_sink = bn_sink s1, bn_time = bn_time s1\<rparr> = Inr (m, s2)"
    "bn_sink s2 = bn_sink s1 + ?w"
    unfolding map_phases_def table_work_def
    using mt.container_phases_sink [OF k assms(3,5) pool, of tsc "bn_sink s1" "bn_time s1"] by auto
  obtain u s3 where u: "umap_phases tsc buf iteration_order ?keys ?rnd \<lparr>bn_pool = [], bn_sink = bn_sink s2, bn_time = bn_time s2\<rparr> = Inr (u, s3)"
    "bn_sink s3 = bn_sink s2 + ?w"
    unfolding umap_phases_def table_work_def
    using lookup_table.container_phases_sink [OF umap_lookup_table [OF assms(4)] k assms(3,5) pool, of tsc "bn_sink s2" "bn_time s2"]
    by auto
  show ?thesis
    using v m u by (simp add: run_container_benchmark_def keys Let_def make_random_keys_def)
qed

lemma container_run_overflow:
  assumes "2 ^ 30 < n"
  shows "run_container_benchmark tsc buf shuffle iteration_order n sink time = Inl Int_Overflow"
proof (cases "n < 2 ^ 31")
  case True
  have "int (2 ^ 30) \<in> set (key_range n)" using assms by (simp add: key_range_def)
  moreover have "\<not> fits_int (int (2 ^ 30) * 2)" by (simp add: fits_int_def)
  ultimately have "vec_phases tsc buf (key_range n) random_keys s = Inl Int_Overflow" for random_keys s
    unfolding vec_phases_def by (rule vt.container_phases_overflow)
  with True show ?thesis by (simp add: run_container_benchmark_def make_keys_range)
next
  case False
  then show ?thesis by (simp add: run_container_benchmark_def make_keys_range)
qed

lemma container_run_empty:
  assumes "mset (shuffle (key_range 0)) = mset (key_range 0)"
  shows "run_container_benchmark tsc buf shuffle iteration_order 0 sink time = Inl Aborted"
  using assms by (simp add: run_container_benchmark_def make_keys_range key_range_def make_random_keys_def vec_phases_def
      container_phases_def bench_insert_def bench_lookup_def tick_def Let_def)

text \<open>
  C37: The benchmark compares like with like, up to the size that its \<open>int\<close> values allow. For every
  size from 1 to \<open>2 ^ 30\<close>, every shuffle of the keys and every iteration order of the unordered map,
  all three containers find every key and visit every entry: each of them adds the same amount to
  \<open>sink\<close>, twice the sum of all values plus the values of the cold sample. From \<open>2 ^ 30 + 1\<close> keys on a
  key or the double of a key overflows its \<open>int\<close>, and without any key the average of a lookup divides by 0.
\<close>

theorem containers_do_equal_work:
  assumes "mset (shuffle (key_range n)) = mset (key_range n)"
    and "\<And>m. mset (iteration_order m) = mset m" and "\<forall>x \<in> set buf. x = 0"
  shows "\<exists>rows time'. run_container_benchmark tsc buf shuffle iteration_order n sink time =
    (if n = 0 then Inl Aborted
     else if 2 ^ 30 < n then Inl Int_Overflow
     else let work = word_of_int (2 * sum_list (map (\<lambda>k. k * 2) (key_range n)) +
                sum_list (map (\<lambda>k. k * 2) (take cold_samples (shuffle (key_range n)))))
          in Inr (rows, sink + work, sink + work + work, sink + work + work + work, time'))"
proof (cases "n = 0 \<or> 2 ^ 30 < n")
  case True
  with assms(1) show ?thesis using container_run_empty container_run_overflow by auto
next
  case False
  then have n: "n \<noteq> 0" "n \<le> 2 ^ 30" by simp_all
  have "\<exists>rows time'. run_container_benchmark tsc buf shuffle iteration_order n sink time =
    (let work = table_work shuffle n
     in Inr (rows, sink + work, sink + work + work, sink + work + work + work, time'))"
    by (rule container_run_work) (rule n assms)+
  with n show ?thesis by (simp add: table_work_def)
qed

corollary containers_do_equal_work_sample:
  "(\<exists>rows time'. run_container_benchmark (\<lambda>k. word_of_nat (3 * k)) [0] rev rev 3 0 0 = Inr (rows, 18, 36, 54, time')) \<and>
   run_container_benchmark (\<lambda>k. word_of_nat (3 * k)) [0] rev rev (2 ^ 30 + 1) 0 0 = Inl Int_Overflow"
proof -
  have k: "key_range 3 = [0, 1, 2]" by (simp add: key_range_def upt_rec)
  show ?thesis
    using containers_do_equal_work [of rev 3 rev "[0]" "\<lambda>k. word_of_nat (3 * k)" 0 0]
      containers_do_equal_work [of rev "2 ^ 30 + 1" rev "[0]" "\<lambda>k. word_of_nat (3 * k)" 0 0]
    by (simp add: k Let_def cold_samples_def)
qed

text \<open>
  C40: \<open>std::lower_bound\<close> as the vector lookup uses it: on a sorted vector, with or without repeated keys,
  the halving search ends at the first position whose key is not less than the probe (the end, when there
  is none), as a scan from the front would. What the lookup then counts is the value of the entry there,
  whether or not its key is the one that was asked for, and 0 at the end.
\<close>

theorem lower_bound_correct:
  assumes "sorted (map e_key vec)"
  shows "lower_bound vec k 0 (length vec) = length (takeWhile (\<lambda>e. e_key e < k) vec) \<and>
    vec_probe vec k = (case dropWhile (\<lambda>e. e_key e < k) vec of [] \<Rightarrow> 0 | e # _ \<Rightarrow> e_value e)"
proof -
  let ?r = "lower_bound vec k 0 (length vec)" and ?P = "\<lambda>e. e_key e < k"
  from lower_bound_spec [OF assms, of 0 "length vec" k]
  have r: "?r \<le> length vec" "\<forall>i < ?r. e_key (vec ! i) < k" "\<forall>i < length vec. ?r \<le> i \<longrightarrow> k \<le> e_key (vec ! i)"
    by simp_all
  have "takeWhile ?P vec = take ?r vec"
    by (rule takeWhile_eq_take_P_nth) (use r in auto)
  then have len: "?r = length (takeWhile ?P vec)" using r(1) by simp
  have rest: "dropWhile ?P vec = drop ?r vec" by (simp only: dropWhile_eq_drop len)
  have "vec_probe vec k = (case dropWhile ?P vec of [] \<Rightarrow> 0 | e # _ \<Rightarrow> e_value e)"
  proof (cases "?r = length vec")
    case True
    then show ?thesis unfolding rest by (simp add: vec_probe_def)
  next
    case False
    then have "drop ?r vec = vec ! ?r # drop (Suc ?r) vec" using r(1) by (simp add: Cons_nth_drop_Suc)
    with False show ?thesis unfolding rest by (simp add: vec_probe_def Let_def)
  qed
  with len show ?thesis ..
qed

text \<open>The probe for 3 counts the value of 4.\<close>

corollary lower_bound_correct_sample:
  "lower_bound [\<lparr>e_key = 1, e_value = 2\<rparr>, \<lparr>e_key = 4, e_value = 8\<rparr>] 3 0 2 = 1 \<and>
   vec_probe [\<lparr>e_key = 1, e_value = 2\<rparr>, \<lparr>e_key = 4, e_value = 8\<rparr>] 3 = 8"
  using lower_bound_correct [of "[\<lparr>e_key = 1, e_value = 2\<rparr>, \<lparr>e_key = 4, e_value = 8\<rparr>]" 3]
  by (simp add: numeral_2_eq_2)

end
