(* ===== verification/Bench_Programs.thy ===== *)
theory Bench_Programs
  imports Pool_Bench_Correct Container_Bench
begin

text \<open>
  The benchmark programs function by function. \<open>Pool_Bench\<close> and \<open>Container_Bench\<close> have each timed loop
  once, over the operations of an allocator or of a container; here every function of the three
  files is the instance it is, \<open>run_benchmark\<close> is shown to call them in the order of the source, and
  \<open>main\<close> runs the three tiers one after the other, with \<open>sink\<close> and the clock passed on.
\<close>

text \<open>The functions of the files, by their definitions.\<close>

named_theorems call_defs

section \<open>\<open>mem_pool_benchmark.cpp\<close>\<close>

definition bench_pool_allocate where
  [call_defs]: "bench_pool_allocate tsc = bench_allocate tsc mem_pool_ops"

definition bench_pool_deallocate where
  [call_defs]: "bench_pool_deallocate tsc = bench_deallocate tsc mem_pool_ops"

definition bench_pool_dealloc_random where
  [call_defs]: "bench_pool_dealloc_random tsc = bench_dealloc_random tsc mem_pool_ops"

definition bench_pool_churn where
  [call_defs]: "bench_pool_churn tsc = bench_churn tsc mem_pool_ops push_checked"

definition bench_pool_allocate_cold where
  [call_defs]: "bench_pool_allocate_cold tsc buf = bench_allocate_cold tsc buf mem_pool_ops"

text \<open>\<open>new\<close> and \<open>delete\<close>\<close>

definition bench_new_allocate where
  [call_defs]: "bench_new_allocate tsc = bench_allocate tsc new_ops"

definition bench_new_deallocate where
  [call_defs]: "bench_new_deallocate tsc = bench_deallocate tsc new_ops"

definition bench_new_dealloc_random where
  [call_defs]: "bench_new_dealloc_random tsc = bench_dealloc_random tsc new_ops"

definition bench_new_churn where
  [call_defs]: "bench_new_churn tsc = bench_churn tsc new_ops push_always"

definition bench_new_allocate_cold where
  [call_defs]: "bench_new_allocate_cold tsc buf = bench_allocate_cold tsc buf new_ops"

text \<open>\<open>malloc\<close> and \<open>free\<close>; the destructor of the benchmark's \<open>Order\<close> is trivial.\<close>

definition bench_malloc_allocate where
  [call_defs]: "bench_malloc_allocate tsc = bench_allocate tsc malloc_ops"

definition bench_malloc_deallocate where
  [call_defs]: "bench_malloc_deallocate tsc = bench_deallocate tsc malloc_ops"

definition bench_malloc_dealloc_random where
  [call_defs]: "bench_malloc_dealloc_random tsc = bench_dealloc_random tsc malloc_ops"

definition bench_malloc_churn where
  [call_defs]: "bench_malloc_churn tsc = bench_churn tsc malloc_ops push_always"

definition bench_malloc_allocate_cold where
  [call_defs]: "bench_malloc_allocate_cold tsc buf = bench_allocate_cold tsc buf malloc_ops"

section \<open>\<open>mem_pool_separate_free_structure_benchmark.cpp\<close>\<close>

text \<open>
  This file has functions of its own for \<open>new\<close> and \<open>malloc\<close>; they differ from those above in
  placement \<open>new\<close> and explicit calls of the trivial destructor.
\<close>

definition sep_bench_pool_allocate where
  [call_defs]: "sep_bench_pool_allocate tsc = bench_allocate tsc sep_pool_ops"

definition sep_bench_pool_deallocate where
  [call_defs]: "sep_bench_pool_deallocate tsc = bench_deallocate tsc sep_pool_ops"

definition sep_bench_pool_dealloc_random where
  [call_defs]: "sep_bench_pool_dealloc_random tsc = bench_dealloc_random tsc sep_pool_ops"

definition sep_bench_pool_churn where
  [call_defs]: "sep_bench_pool_churn tsc = bench_churn tsc sep_pool_ops push_checked"

definition sep_bench_pool_allocate_cold where
  [call_defs]: "sep_bench_pool_allocate_cold tsc buf = bench_allocate_cold tsc buf sep_pool_ops"

definition sep_bench_new_allocate where
  [call_defs]: "sep_bench_new_allocate tsc = bench_allocate tsc new_ops"

definition sep_bench_new_deallocate where
  [call_defs]: "sep_bench_new_deallocate tsc = bench_deallocate tsc new_ops"

definition sep_bench_new_dealloc_random where
  [call_defs]: "sep_bench_new_dealloc_random tsc = bench_dealloc_random tsc new_ops"

definition sep_bench_new_churn where
  [call_defs]: "sep_bench_new_churn tsc = bench_churn tsc new_ops push_always"

definition sep_bench_new_allocate_cold where
  [call_defs]: "sep_bench_new_allocate_cold tsc buf = bench_allocate_cold tsc buf new_ops"

definition sep_bench_malloc_allocate where
  [call_defs]: "sep_bench_malloc_allocate tsc = bench_allocate tsc malloc_ops"

definition sep_bench_malloc_deallocate where
  [call_defs]: "sep_bench_malloc_deallocate tsc = bench_deallocate tsc malloc_ops"

definition sep_bench_malloc_dealloc_random where
  [call_defs]: "sep_bench_malloc_dealloc_random tsc = bench_dealloc_random tsc malloc_ops"

definition sep_bench_malloc_churn where
  [call_defs]: "sep_bench_malloc_churn tsc = bench_churn tsc malloc_ops push_always"

definition sep_bench_malloc_allocate_cold where
  [call_defs]: "sep_bench_malloc_allocate_cold tsc buf = bench_allocate_cold tsc buf malloc_ops"

section \<open>\<open>run_benchmark\<close>, call by call\<close>

lemma rbind_assoc: "rbind (rbind m f) g = rbind m (\<lambda>x. rbind (f x) g)"
  by (cases m) simp_all

lemma rbind_case_prod: "rbind (case x of (a, b) \<Rightarrow> f a b) g = (case x of (a, b) \<Rightarrow> rbind (f a b) g)"
  by (cases x) simp

text \<open>
  The calls of one run, in the order of the source: each allocator fills, drains, fills again, drains
  at random, churns, and allocates cold.
\<close>

lemma mem_pool_run_benchmark_calls:
  "mem_pool_run_benchmark tsc buf lim order dsp dsn dsm n sk tm =
     rbind (mem_pool_new bench_overlay zero_bench_order n) (\<lambda>pool.
     rbind (bench_pool_allocate tsc (replicate (unat n) None) (unat n) \<lparr>bn_pool = pool, bn_sink = sk, bn_time = tm\<rparr>)
       (\<lambda>(pool_alloc, pool_ptrs, s).
     rbind (bench_pool_deallocate tsc pool_ptrs (unat n) s) (\<lambda>(pool_dealloc, s).
     rbind (bench_pool_allocate tsc pool_ptrs (unat n) s) (\<lambda>(_, pool_ptrs, s).
     rbind (bench_pool_dealloc_random tsc pool_ptrs order s) (\<lambda>(pool_dealloc_rand, p1).
     rbind (mem_pool_new bench_overlay zero_bench_order n) (\<lambda>pool2.
     rbind (bench_pool_churn tsc dsp (p1\<lparr>bn_pool := pool2\<rparr>)) (\<lambda>(pool_churn, p2).
     rbind (mem_pool_new bench_overlay zero_bench_order n) (\<lambda>pool3.
     rbind (bench_pool_allocate_cold tsc buf (replicate (min (unat n) cold_samples) None) (p2\<lparr>bn_pool := pool3\<rparr>))
       (\<lambda>(pool_alloc_cold, pool_cold_ptrs, s).
     rbind (release_all mem_pool_ops pool_cold_ptrs s) (\<lambda>p.
     rbind (bench_new_allocate tsc (replicate (unat n) None) (unat n)
              \<lparr>bn_pool = \<lparr>cells = [], heap_limit = lim\<rparr>, bn_sink = bn_sink p, bn_time = bn_time p\<rparr>) (\<lambda>(new_alloc, new_ptrs, s).
     rbind (bench_new_deallocate tsc new_ptrs (unat n) s) (\<lambda>(new_dealloc, s).
     rbind (bench_new_allocate tsc new_ptrs (unat n) s) (\<lambda>(_, new_ptrs, s).
     rbind (bench_new_dealloc_random tsc new_ptrs order s) (\<lambda>(new_dealloc_rand, s).
     rbind (bench_new_churn tsc dsn s) (\<lambda>(new_churn, s).
     rbind (bench_new_allocate_cold tsc buf (replicate (min (unat n) cold_samples) None) s)
       (\<lambda>(new_alloc_cold, new_cold_ptrs, s).
     rbind (release_all new_ops new_cold_ptrs s) (\<lambda>s.
     rbind (bench_malloc_allocate tsc (replicate (unat n) None) (unat n) s) (\<lambda>(malloc_alloc, malloc_ptrs, s).
     rbind (bench_malloc_deallocate tsc malloc_ptrs (unat n) s) (\<lambda>(malloc_dealloc, s).
     rbind (bench_malloc_allocate tsc malloc_ptrs (unat n) s) (\<lambda>(_, malloc_ptrs, s).
     rbind (bench_malloc_dealloc_random tsc malloc_ptrs order s) (\<lambda>(malloc_dealloc_rand, s).
     rbind (bench_malloc_churn tsc dsm s) (\<lambda>(malloc_churn, s).
     rbind (bench_malloc_allocate_cold tsc buf (replicate (min (unat n) cold_samples) None) s)
       (\<lambda>(malloc_alloc_cold, malloc_cold_ptrs, s).
     rbind (release_all malloc_ops malloc_cold_ptrs s) (\<lambda>s.
       Inr ([(''Allocate N (total)'', pool_alloc, new_alloc, malloc_alloc),
             (''Deallocate N (total)'', pool_dealloc, new_dealloc, malloc_dealloc),
             (''Dealloc random order (total)'', pool_dealloc_rand, new_dealloc_rand, malloc_dealloc_rand),
             (''Alloc cold (avg cycles/op)'', pool_alloc_cold, new_alloc_cold, malloc_alloc_cold),
             (''Churn N ops (total)'', pool_churn, new_churn, malloc_churn)],
            (bn_pool p1, bn_pool p2, bn_pool p), s)))))))))))))))))))))))))"
  by (simp add: mem_pool_run_benchmark_def run_benchmark_def pool_phases_def heap_phases_def fill_phases_def cold_phase_def call_defs result_rows_def
      rbind_assoc rbind_case_prod split_def)

lemma sep_pool_run_benchmark_calls:
  "sep_pool_run_benchmark tsc buf lim order dsp dsn dsm n sk tm =
     rbind (sep_pool_new zero_bench_order n) (\<lambda>pool.
     rbind (sep_bench_pool_allocate tsc (replicate (unat n) None) (unat n) \<lparr>bn_pool = pool, bn_sink = sk, bn_time = tm\<rparr>)
       (\<lambda>(pool_alloc, pool_ptrs, s).
     rbind (sep_bench_pool_deallocate tsc pool_ptrs (unat n) s) (\<lambda>(pool_dealloc, s).
     rbind (sep_bench_pool_allocate tsc pool_ptrs (unat n) s) (\<lambda>(_, pool_ptrs, s).
     rbind (sep_bench_pool_dealloc_random tsc pool_ptrs order s) (\<lambda>(pool_dealloc_rand, p1).
     rbind (sep_pool_new zero_bench_order n) (\<lambda>pool2.
     rbind (sep_bench_pool_churn tsc dsp (p1\<lparr>bn_pool := pool2\<rparr>)) (\<lambda>(pool_churn, p2).
     rbind (sep_pool_new zero_bench_order n) (\<lambda>pool3.
     rbind (sep_bench_pool_allocate_cold tsc buf (replicate (min (unat n) cold_samples) None) (p2\<lparr>bn_pool := pool3\<rparr>))
       (\<lambda>(pool_alloc_cold, pool_cold_ptrs, s).
     rbind (release_all sep_pool_ops pool_cold_ptrs s) (\<lambda>p.
     rbind (sep_bench_new_allocate tsc (replicate (unat n) None) (unat n)
              \<lparr>bn_pool = \<lparr>cells = [], heap_limit = lim\<rparr>, bn_sink = bn_sink p, bn_time = bn_time p\<rparr>) (\<lambda>(new_alloc, new_ptrs, s).
     rbind (sep_bench_new_deallocate tsc new_ptrs (unat n) s) (\<lambda>(new_dealloc, s).
     rbind (sep_bench_new_allocate tsc new_ptrs (unat n) s) (\<lambda>(_, new_ptrs, s).
     rbind (sep_bench_new_dealloc_random tsc new_ptrs order s) (\<lambda>(new_dealloc_rand, s).
     rbind (sep_bench_new_churn tsc dsn s) (\<lambda>(new_churn, s).
     rbind (sep_bench_new_allocate_cold tsc buf (replicate (min (unat n) cold_samples) None) s)
       (\<lambda>(new_alloc_cold, new_cold_ptrs, s).
     rbind (release_all new_ops new_cold_ptrs s) (\<lambda>s.
     rbind (sep_bench_malloc_allocate tsc (replicate (unat n) None) (unat n) s) (\<lambda>(malloc_alloc, malloc_ptrs, s).
     rbind (sep_bench_malloc_deallocate tsc malloc_ptrs (unat n) s) (\<lambda>(malloc_dealloc, s).
     rbind (sep_bench_malloc_allocate tsc malloc_ptrs (unat n) s) (\<lambda>(_, malloc_ptrs, s).
     rbind (sep_bench_malloc_dealloc_random tsc malloc_ptrs order s) (\<lambda>(malloc_dealloc_rand, s).
     rbind (sep_bench_malloc_churn tsc dsm s) (\<lambda>(malloc_churn, s).
     rbind (sep_bench_malloc_allocate_cold tsc buf (replicate (min (unat n) cold_samples) None) s)
       (\<lambda>(malloc_alloc_cold, malloc_cold_ptrs, s).
     rbind (release_all malloc_ops malloc_cold_ptrs s) (\<lambda>s.
       Inr ([(''Allocate N (total)'', pool_alloc, new_alloc, malloc_alloc),
             (''Deallocate N (total)'', pool_dealloc, new_dealloc, malloc_dealloc),
             (''Dealloc random order (total)'', pool_dealloc_rand, new_dealloc_rand, malloc_dealloc_rand),
             (''Alloc cold (avg cycles/op)'', pool_alloc_cold, new_alloc_cold, malloc_alloc_cold),
             (''Churn N ops (total)'', pool_churn, new_churn, malloc_churn)],
            (bn_pool p1, bn_pool p2, bn_pool p), s)))))))))))))))))))))))))"
  by (simp add: sep_pool_run_benchmark_def run_benchmark_def pool_phases_def heap_phases_def fill_phases_def cold_phase_def call_defs result_rows_def
      rbind_assoc rbind_case_prod split_def)

section \<open>The tiers of \<open>main\<close>\<close>

text \<open>What one call of \<open>run_benchmark\<close> draws: the shuffled order, and the three churn phases.\<close>

record bench_input =
  in_order :: "nat list"
  in_pool :: "churn_draw list"
  in_new :: "churn_draw list"
  in_malloc :: "churn_draw list"

definition bench_input_ok :: "size_t \<Rightarrow> bench_input \<Rightarrow> bool" where
  "bench_input_ok n i \<longleftrightarrow> n > 0 \<and> mset (in_order i) = mset [0..<unat n] \<and>
     churn_draws_ok (unat n) (in_pool i) \<and> churn_draws_ok (unat n) (in_new i) \<and> churn_draws_ok (unat n) (in_malloc i)"

type_synonym table = "(string \<times> u64 \<times> u64 \<times> u64) list"

fun run_tiers ::
  "(nat list \<Rightarrow> churn_draw list \<Rightarrow> churn_draw list \<Rightarrow> churn_draw list \<Rightarrow> size_t \<Rightarrow> u64 \<Rightarrow> nat \<Rightarrow>
      (table \<times> ('p \<times> 'p \<times> 'p) \<times> bench_order sys_heap bench) result) \<Rightarrow>
   (size_t \<times> bench_input) list \<Rightarrow> u64 \<Rightarrow> nat \<Rightarrow> (table list \<times> u64) result"
where
  "run_tiers run [] sk tm = Inr ([], sk)"
| "run_tiers run ((n, i) # is) sk tm =
     rbind (run (in_order i) (in_pool i) (in_new i) (in_malloc i) n sk tm) (\<lambda>(rows, _, h).
     rbind (run_tiers run is (bn_sink h) (bn_time h)) (\<lambda>(tables, sk').
       Inr (rows # tables, sk')))"

definition tier_sizes :: "size_t list" where
  "tier_sizes = [100, 100000, 1000000]"

text \<open>The 64 MB buffer that an eviction reads.\<close>

definition flush_buffer :: "8 word list" where
  "flush_buffer = replicate (64 * 2 ^ 20) 0"

text \<open>
  The other two files have an \<open>evict_cache\<close> of their own over a buffer of their own. The buffer holds zeros, so what
  an eviction adds to \<open>sink\<close> is 0: it leaves no trace but in the caches.
\<close>

definition sep_evict_cache :: "'p bench \<Rightarrow> 'p bench" where
  "sep_evict_cache s = evict_cache flush_buffer s"

definition container_evict_cache :: "'t bench \<Rightarrow> 't bench" where
  "container_evict_cache s = evict_cache flush_buffer s"

lemma evictions_leave_sink: "sep_evict_cache s = s" "container_evict_cache s = s"
  unfolding sep_evict_cache_def container_evict_cache_def flush_buffer_def
  by (rule evict_zeros, simp only: length_replicate nth_replicate)+

text \<open>\<open>main\<close> up to the printed notes: the three tables, and the value of \<open>sink\<close> that the notes end with.\<close>

definition mem_pool_bench_main :: "clock \<Rightarrow> nat \<Rightarrow> bench_input list \<Rightarrow> (table list \<times> u64) result" where
  "mem_pool_bench_main tsc lim inputs = run_tiers (mem_pool_run_benchmark tsc flush_buffer lim) (zip tier_sizes inputs) 0 0"

definition sep_pool_bench_main :: "clock \<Rightarrow> nat \<Rightarrow> bench_input list \<Rightarrow> (table list \<times> u64) result" where
  "sep_pool_bench_main tsc lim inputs = run_tiers (sep_pool_run_benchmark tsc flush_buffer lim) (zip tier_sizes inputs) 0 0"

text \<open>
  What the tiers print, given the number of the time stamp that the first one starts with: the tables,
  and the sum in \<open>sink\<close>.
\<close>

fun expected_tables :: "clock \<Rightarrow> (size_t \<times> bench_input) list \<Rightarrow> nat \<Rightarrow> table list" where
  "expected_tables tsc [] tm = []"
| "expected_tables tsc ((n, i) # is) tm =
     expected_rows tsc (unat n) tm # expected_tables tsc is (tm + 3 * phase_ticks (unat n))"

definition input_sink :: "size_t \<Rightarrow> bench_input \<Rightarrow> u64" where
  "input_sink n i = expected_run_sink flush_buffer (unat n) (in_pool i) (in_new i) (in_malloc i)"

lemma run_tiers_exact:
  assumes "\<And>n i sk tm. bench_input_ok n i \<Longrightarrow> unat n + unat n div 2 \<le> lim \<Longrightarrow>
      \<exists>ps h. run (in_order i) (in_pool i) (in_new i) (in_malloc i) n sk tm = Inr (expected_rows tsc (unat n) tm, ps, h) \<and>
        bn_time h = tm + 3 * phase_ticks (unat n) \<and> bn_sink h = sk + input_sink n i"
  shows "\<forall>(n, i) \<in> set is. bench_input_ok n i \<and> unat n + unat n div 2 \<le> lim \<Longrightarrow>
    run_tiers run is sk tm = Inr (expected_tables tsc is tm, sk + (\<Sum>(n, i)\<leftarrow>is. input_sink n i))"
proof (induction "is" arbitrary: sk tm)
  case (Cons ni "is")
  obtain n i where ni: "ni = (n, i)" by fastforce
  with Cons.prems have "bench_input_ok n i" "unat n + unat n div 2 \<le> lim" by simp_all
  then obtain ps h where "run (in_order i) (in_pool i) (in_new i) (in_malloc i) n sk tm = Inr (expected_rows tsc (unat n) tm, ps, h)"
    "bn_time h = tm + 3 * phase_ticks (unat n)" "bn_sink h = sk + input_sink n i" using assms by blast
  with Cons ni show ?case by (simp add: add.assoc)
qed simp

text \<open>
  Both allocation benchmarks run to the end. For all shuffles, draws and clocks, with inputs for the
  three sizes and memory for a million and a half orders, \<open>main\<close> of either program returns, with the
  cycles between the right time stamps in its three tables, and in \<open>sink\<close> the identifiers that were read.
\<close>

lemma bench_mains_exact:
  assumes "\<forall>(n, i) \<in> set (zip tier_sizes inputs). bench_input_ok n i" and "1500000 \<le> lim"
  shows "mem_pool_bench_main tsc lim inputs =
      Inr (expected_tables tsc (zip tier_sizes inputs) 0, \<Sum>(n, i)\<leftarrow>zip tier_sizes inputs. input_sink n i)"
    "sep_pool_bench_main tsc lim inputs =
      Inr (expected_tables tsc (zip tier_sizes inputs) 0, \<Sum>(n, i)\<leftarrow>zip tier_sizes inputs. input_sink n i)"
proof -
  have "\<forall>n \<in> set tier_sizes. unat n + unat n div 2 \<le> lim" using assms(2) by (simp add: tier_sizes_def)
  then have ok: "\<forall>(n, i) \<in> set (zip tier_sizes inputs). bench_input_ok n i \<and> unat n + unat n div 2 \<le> lim"
    using assms(1) by (auto dest: set_zip_leftD)
  have mem: "\<exists>ps h. mem_pool_run_benchmark tsc flush_buffer lim (in_order i) (in_pool i) (in_new i) (in_malloc i) n sk tm =
      Inr (expected_rows tsc (unat n) tm, ps, h) \<and> bn_time h = tm + 3 * phase_ticks (unat n) \<and> bn_sink h = sk + input_sink n i"
    if i: "bench_input_ok n i" "unat n + unat n div 2 \<le> lim" for n i sk tm
    using mem_pool_run_safe [of n "in_order i" lim "in_pool i" "in_new i" "in_malloc i" tsc flush_buffer sk tm] i
    unfolding bench_input_ok_def input_sink_def by metis
  have sep: "\<exists>ps h. sep_pool_run_benchmark tsc flush_buffer lim (in_order i) (in_pool i) (in_new i) (in_malloc i) n sk tm =
      Inr (expected_rows tsc (unat n) tm, ps, h) \<and> bn_time h = tm + 3 * phase_ticks (unat n) \<and> bn_sink h = sk + input_sink n i"
    if i: "bench_input_ok n i" "unat n + unat n div 2 \<le> lim" for n i sk tm
    using sep_pool_run_safe [of n "in_order i" lim "in_pool i" "in_new i" "in_malloc i" tsc flush_buffer sk tm] i
    unfolding bench_input_ok_def input_sink_def by metis
  show "mem_pool_bench_main tsc lim inputs =
      Inr (expected_tables tsc (zip tier_sizes inputs) 0, \<Sum>(n, i)\<leftarrow>zip tier_sizes inputs. input_sink n i)"
    unfolding mem_pool_bench_main_def by (subst run_tiers_exact [OF mem ok]) simp_all
  show "sep_pool_bench_main tsc lim inputs =
      Inr (expected_tables tsc (zip tier_sizes inputs) 0, \<Sum>(n, i)\<leftarrow>zip tier_sizes inputs. input_sink n i)"
    unfolding sep_pool_bench_main_def by (subst run_tiers_exact [OF sep ok]) simp_all
qed

text \<open>An eviction adds nothing.\<close>

lemma evict_sum_flush: "evict_sum flush_buffer = 0"
proof -
  have "evict_cache flush_buffer (\<lparr>bn_pool = (), bn_sink = 0, bn_time = 0\<rparr>) = \<lparr>bn_pool = (), bn_sink = 0, bn_time = 0\<rparr>"
    unfolding flush_buffer_def by (rule evict_zeros, simp only: length_replicate nth_replicate)
  then show ?thesis by (simp add: evict_cache_sum)
qed

lemma input_sink_reads:
  "input_sink n i = word_of_nat (6 * (\<Sum>k<unat n. k) + churn_total (unat n) (in_pool i) +
     churn_total (unat n + unat n div 2) (in_new i) + churn_total (unat n + unat n div 2) (in_malloc i))"
  by (simp add: input_sink_def expected_run_sink_def expected_sink_def evict_sum_flush)

text \<open>Inputs without a shuffle, where every other draw of a churn deallocates.\<close>

definition sample_input :: "size_t \<Rightarrow> bench_input" where
  "sample_input n = (let ds = map (\<lambda>k. \<lparr>coin_zero = even k, pick = (\<lambda>n. n)\<rparr>) [0..<unat n]
     in \<lparr>in_order = [0..<unat n], in_pool = ds, in_new = ds, in_malloc = ds\<rparr>)"

lemma sample_input_ok: "n > 0 \<Longrightarrow> bench_input_ok n (sample_input n)"
  by (simp add: bench_input_ok_def sample_input_def Let_def churn_draws_ok_def)

section \<open>\<open>container_benchmark.cpp\<close>\<close>

definition bench_vector_insert where
  [call_defs]: "bench_vector_insert tsc = bench_insert tsc vec_insert"

definition bench_vector_lookup where
  [call_defs]: "bench_vector_lookup tsc = bench_lookup tsc vec_probe"

definition bench_vector_iterate where
  [call_defs]: "bench_vector_iterate tsc = bench_iterate tsc vec_values"

definition bench_vector_lookup_cold where
  [call_defs]: "bench_vector_lookup_cold tsc buf = bench_lookup_cold tsc buf vec_probe"

definition bench_map_insert where
  [call_defs]: "bench_map_insert tsc = bench_insert tsc map_insert"

definition bench_map_lookup where
  [call_defs]: "bench_map_lookup tsc = bench_lookup tsc map_probe"

definition bench_map_iterate where
  [call_defs]: "bench_map_iterate tsc = bench_iterate tsc map_values"

definition bench_map_lookup_cold where
  [call_defs]: "bench_map_lookup_cold tsc buf = bench_lookup_cold tsc buf map_probe"

definition bench_umap_insert where
  [call_defs]: "bench_umap_insert tsc = bench_insert tsc umap_insert"

definition bench_umap_lookup where
  [call_defs]: "bench_umap_lookup tsc = bench_lookup tsc umap_probe"

definition bench_umap_iterate where
  [call_defs]: "bench_umap_iterate tsc = bench_iterate tsc umap_values"

definition bench_umap_lookup_cold where
  [call_defs]: "bench_umap_lookup_cold tsc buf = bench_lookup_cold tsc buf umap_probe"

lemma run_container_benchmark_calls:
  "run_container_benchmark tsc buf shuffle iteration_order n sk tm =
     rbind (make_keys n) (\<lambda>keys.
       let random_keys = make_random_keys shuffle keys
       in rbind (bench_vector_insert tsc keys \<lparr>bn_pool = [], bn_sink = sk, bn_time = tm\<rparr>) (\<lambda>(vec_insert, s).
         rbind (bench_vector_lookup tsc random_keys (s\<lparr>bn_pool := sort_key e_key (bn_pool s)\<rparr>)) (\<lambda>(vec_lookup, s).
         rbind (bench_vector_lookup_cold tsc buf random_keys s) (\<lambda>(vec_lookup_cold, s).
           let (vec_iterate, v) = bench_vector_iterate tsc s
           in rbind (bench_map_insert tsc keys \<lparr>bn_pool = [], bn_sink = bn_sink v, bn_time = bn_time v\<rparr>) (\<lambda>(map_insert, s).
              rbind (bench_map_lookup tsc random_keys s) (\<lambda>(map_lookup, s).
              rbind (bench_map_lookup_cold tsc buf random_keys s) (\<lambda>(map_lookup_cold, s).
                let (map_iterate, m) = bench_map_iterate tsc s
                in rbind (bench_umap_insert tsc keys \<lparr>bn_pool = [], bn_sink = bn_sink m, bn_time = bn_time m\<rparr>) (\<lambda>(umap_insert, s).
                   rbind (bench_umap_lookup tsc random_keys (s\<lparr>bn_pool := iteration_order (bn_pool s)\<rparr>)) (\<lambda>(umap_lookup, s).
                   rbind (bench_umap_lookup_cold tsc buf random_keys s) (\<lambda>(umap_lookup_cold, s).
                     let (umap_iterate, u) = bench_umap_iterate tsc s
                     in Inr ([(''Insert (total cycles)'', vec_insert, map_insert, umap_insert),
                              (''Lookup (avg cycles/op)'', vec_lookup, map_lookup, umap_lookup),
                              (''Lookup cold (avg cycles/op)'', vec_lookup_cold, map_lookup_cold, umap_lookup_cold),
                              (''Iterate (total cycles)'', vec_iterate, map_iterate, umap_iterate)],
                             bn_sink v, bn_sink m, bn_sink u, bn_time u)))))))))))"
  by (simp add: run_container_benchmark_def vec_phases_def map_phases_def umap_phases_def container_phases_def
      call_defs container_rows_def Let_def rbind_assoc rbind_case_prod split_def)

text \<open>\<open>main\<close>: three sizes, with \<open>sink\<close> and the clock passed on.\<close>

fun run_container_tiers ::
  "(nat \<Rightarrow> u64 \<Rightarrow> nat \<Rightarrow> (table \<times> u64 \<times> u64 \<times> u64 \<times> nat) result) \<Rightarrow> nat list \<Rightarrow> u64 \<Rightarrow> nat \<Rightarrow> (table list \<times> u64) result"
where
  "run_container_tiers run [] sk tm = Inr ([], sk)"
| "run_container_tiers run (n # ns) sk tm =
     rbind (run n sk tm) (\<lambda>(rows, _, _, sk1, tm1).
     rbind (run_container_tiers run ns sk1 tm1) (\<lambda>(tables, sk').
       Inr (rows # tables, sk')))"

definition container_sizes :: "nat list" where
  "container_sizes = [100, 100000, 10000000]"

definition container_bench_main ::
  "clock \<Rightarrow> (int list \<Rightarrow> int list) \<Rightarrow> ((int \<times> int) list \<Rightarrow> (int \<times> int) list) \<Rightarrow> (table list \<times> u64) result"
where
  "container_bench_main tsc shuffle iteration_order =
     run_container_tiers (run_container_benchmark tsc flush_buffer shuffle iteration_order) container_sizes 0 0"

definition tier_work :: "(int list \<Rightarrow> int list) \<Rightarrow> nat \<Rightarrow> u64" where
  "tier_work shuffle n = word_of_int (2 * sum_list (map (\<lambda>k. k * 2) (key_range n)) +
     sum_list (map (\<lambda>k. k * 2) (take cold_samples (shuffle (key_range n)))))"

lemma flush_buffer_zero: "\<forall>x \<in> set flush_buffer. x = 0"
  by (simp only: flush_buffer_def in_set_replicate simp_thms Ball_def imp_conjL)

lemma run_container_tiers_work:
  assumes "\<And>keys. mset (shuffle keys) = mset keys" and "\<And>m. mset (iteration_order m) = mset m"
  shows "\<forall>n \<in> set ns. n \<noteq> 0 \<and> n \<le> 2 ^ 30 \<Longrightarrow> \<exists>tables.
    run_container_tiers (run_container_benchmark tsc flush_buffer shuffle iteration_order) ns sk tm =
      Inr (tables, sk + 3 * sum_list (map (tier_work shuffle) ns)) \<and> length tables = length ns"
proof (induction ns arbitrary: sk tm)
  case (Cons n ns)
  have n: "n \<noteq> 0" "n \<le> 2 ^ 30" using Cons.prems by simp_all
  obtain rows tm1 where run: "run_container_benchmark tsc flush_buffer shuffle iteration_order n sk tm =
      (let work = tier_work shuffle n in Inr (rows, sk + work, sk + work + work, sk + work + work + work, tm1))"
    using container_run_work [of n shuffle iteration_order flush_buffer tsc sk tm, OF n assms(1) _ flush_buffer_zero] assms(2)
    unfolding tier_work_def table_work_def by blast
  have "\<forall>n \<in> set ns. n \<noteq> 0 \<and> n \<le> 2 ^ 30" using Cons.prems by simp
  from Cons.IH [OF this] obtain tables where
    "run_container_tiers (run_container_benchmark tsc flush_buffer shuffle iteration_order) ns
        (sk + tier_work shuffle n + tier_work shuffle n + tier_work shuffle n) tm1 =
      Inr (tables, sk + tier_work shuffle n + tier_work shuffle n + tier_work shuffle n +
        3 * sum_list (map (tier_work shuffle) ns))" "length tables = length ns"
    by blast
  with run show ?case by (simp add: Let_def algebra_simps)
qed simp

text \<open>
  The container benchmark runs to the end, and the \<open>sink\<close> that it prints is determined by the three
  sizes and the shuffle alone: three times the work of each tier, whatever the clock and the hash order.
\<close>

lemma container_main_sink:
  assumes "\<And>keys. mset (shuffle keys) = mset keys" and "\<And>m. mset (iteration_order m) = mset m"
  shows "\<exists>tables. container_bench_main tsc shuffle iteration_order =
    Inr (tables, 3 * (tier_work shuffle 100 + (tier_work shuffle 100000 + tier_work shuffle 10000000))) \<and> length tables = 3"
proof -
  have "sum_list (map (tier_work shuffle) container_sizes) =
      tier_work shuffle 100 + (tier_work shuffle 100000 + tier_work shuffle 10000000)"
    and len: "length container_sizes = 3" and "\<forall>n \<in> set container_sizes. n \<noteq> 0 \<and> n \<le> 2 ^ 30"
    by (simp_all add: container_sizes_def)
  with run_container_tiers_work [of shuffle iteration_order container_sizes tsc 0 0] assms
  show ?thesis unfolding container_bench_main_def by auto
qed

end
