(* ===== verification/Text_Format.thy ===== *)
theory Text_Format
  imports Prelude
begin

text \<open>
  The parts of \<open>std::ostream\<close> and \<open>printf\<close> that the programs print with: integers in decimal, the
  padding of a field to a width, and the end of a line; and \<open>std::string::find\<close>, with which the tests
  look into a text.
\<close>

section \<open>Integers\<close>

fun digits :: "nat \<Rightarrow> string" where
  "digits n = (if n < 10 then [char_of (48 + n)] else digits (n div 10) @ [char_of (48 + n mod 10)])"

declare digits.simps [simp del]

definition int_text :: "int \<Rightarrow> string" where
  "int_text k = (if k < 0 then ''-'' @ digits (nat (- k)) else digits (nat k))"

text \<open>A number below \<open>10 ^ k\<close> has at most \<open>k\<close> digits, and can be read back from them.\<close>

lemma digits_length: "n < 10 ^ k \<Longrightarrow> 0 < k \<Longrightarrow> length (digits n) \<le> k"
proof (induction n arbitrary: k rule: digits.induct)
  case (1 n)
  show ?case
  proof (cases "n < 10")
    case True
    with "1.prems" show ?thesis by (simp add: digits.simps)
  next
    case False
    obtain j where k: "k = Suc j" using "1.prems"(2) by (cases k) auto
    have "0 < j"
    proof (rule ccontr)
      assume "\<not> 0 < j"
      with "1.prems"(1) False k show False by simp
    qed
    moreover have "n div 10 < 10 ^ j" using "1.prems"(1) k by (simp add: less_mult_imp_div_less mult.commute)
    ultimately have "length (digits (n div 10)) \<le> j" using "1.IH" [OF False] by blast
    with False k show ?thesis by (simp add: digits.simps [of n])
  qed
qed

definition digits_value :: "string \<Rightarrow> nat" where
  "digits_value s = foldl (\<lambda>n c. 10 * n + (of_char c - 48)) 0 s"

lemma digit_value: "d < 10 \<Longrightarrow> of_char (char_of (48 + d :: nat)) - 48 = (d :: nat)"
  by (simp add: of_char_of take_bit_nat_eq_self)

lemma digits_round_trip: "digits_value (digits n) = n"
proof (induction n rule: digits.induct)
  case (1 n)
  show ?case
  proof (cases "n < 10")
    case True
    then show ?thesis using digit_value [of n] by (simp add: digits.simps [of n] digits_value_def)
  next
    case False
    have "digits_value (digits n) = 10 * digits_value (digits (n div 10)) + n mod 10"
      using False digit_value [of "n mod 10"] by (simp add: digits.simps [of n] digits_value_def)
    with "1.IH" [OF False] show ?thesis by simp
  qed
qed

lemma digit_chars:
  "char_of (48 :: nat) = CHR ''0''" "char_of (49 :: nat) = CHR ''1''" "char_of (50 :: nat) = CHR ''2''"
  "char_of (51 :: nat) = CHR ''3''" "char_of (52 :: nat) = CHR ''4''" "char_of (53 :: nat) = CHR ''5''"
  "char_of (54 :: nat) = CHR ''6''" "char_of (55 :: nat) = CHR ''7''" "char_of (56 :: nat) = CHR ''8''"
  "char_of (57 :: nat) = CHR ''9''"
  by (simp_all add: char_of_def bit_Suc_0_iff)

text \<open>The digits of a numeral, for \<open>simp\<close>.\<close>

lemmas digits_simps = digits.simps digit_chars

section \<open>Fields and lines\<close>

definition right_field :: "nat \<Rightarrow> string \<Rightarrow> string" where
  "right_field w s = replicate (w - length s) (CHR '' '') @ s"

definition left_field :: "nat \<Rightarrow> string \<Rightarrow> string" where
  "left_field w s = s @ replicate (w - length s) (CHR '' '')"

lemma field_length [simp]:
  "length (right_field w s) = max w (length s)" "length (left_field w s) = max w (length s)"
  by (simp_all add: right_field_def left_field_def)

definition endl :: string where
  "endl = [char_of (10::nat)]"

text \<open>The em dash of the printed notes, in UTF-8.\<close>

definition dash :: string where
  "dash = map char_of [226, 128, 148 :: nat]"

section \<open>Searching\<close>

text \<open>\<open>s.find(t)\<close>: the first position at which \<open>t\<close> stands in \<open>s\<close>; \<open>None\<close> is \<open>npos\<close>.\<close>

fun string_find :: "string \<Rightarrow> string \<Rightarrow> nat option" where
  "string_find t [] = (if t = [] then Some 0 else None)"
| "string_find t (c # s) = (if take (length t) (c # s) = t then Some 0 else map_option Suc (string_find t s))"

lemma string_find_Some: "string_find t s = Some i \<Longrightarrow> take (length t) (drop i s) = t \<and> i \<le> length s"
proof (induction t s arbitrary: i rule: string_find.induct)
  case (2 t c s)
  then show ?case by (cases "take (length t) (c # s) = t") auto
qed (auto split: if_splits)

lemma string_find_first: "string_find t s = Some i \<Longrightarrow> j < i \<Longrightarrow> take (length t) (drop j s) \<noteq> t"
proof (induction t s arbitrary: i j rule: string_find.induct)
  case (2 t c s)
  then show ?case by (cases j) (auto split: if_splits)
qed (auto split: if_splits)

lemma string_find_None: "string_find t s = None \<Longrightarrow> take (length t) (drop j s) \<noteq> t \<or> length s < j"
proof (induction t s arbitrary: j rule: string_find.induct)
  case (2 t c s)
  then show ?case by (cases j) (auto split: if_splits)
qed (auto split: if_splits)

end
