(* ===== verification/Bench_Output.thy ===== *)
theory Bench_Output
  imports Bench_Programs Text_Format
begin

text \<open>
  What the benchmark programs print: the heading and the rows of each table, in the formats of
  \<open>printf\<close>, and the notes at the end, with the value of \<open>sink\<close>. \<open>Bench_Programs\<close> computes the numbers;
  here \<open>main\<close> of each program is the text that it writes.
\<close>

section \<open>The tables of the allocation benchmarks\<close>

text \<open>The lambda \<open>row\<close>, which the two files share up to their name in the heading.\<close>

definition pool_row :: "string \<Rightarrow> u64 \<Rightarrow> u64 \<Rightarrow> u64 \<Rightarrow> string" where
  "pool_row label pool_cycles new_cycles malloc_cycles =
     ''  '' @ left_field 36 label @ ''  MemPool: '' @ right_field 10 (digits (unat pool_cycles)) @
     ''   new/delete: '' @ right_field 10 (digits (unat new_cycles)) @
     ''   malloc/free: '' @ right_field 10 (digits (unat malloc_cycles)) @ ''  cycles'' @ endl"

definition pool_rows :: "table \<Rightarrow> string" where
  "pool_rows rows = concat (map (\<lambda>(label, p, n, m). pool_row label p n m) rows)"

definition mem_pool_table :: "size_t \<Rightarrow> table \<Rightarrow> string" where
  "mem_pool_table n rows =
     endl @ ''=== MemPool Benchmark (N='' @ digits (unat n) @ '') ==='' @ endl @ endl @ pool_rows rows"

definition sep_pool_table :: "size_t \<Rightarrow> table \<Rightarrow> string" where
  "sep_pool_table n rows =
     endl @ ''=== MemPoolSeparateFreeStructure Benchmark (N='' @ digits (unat n) @ '') ==='' @ endl @ endl @ pool_rows rows"

section \<open>The table of the container benchmark\<close>

definition container_row :: "string \<Rightarrow> u64 \<Rightarrow> u64 \<Rightarrow> u64 \<Rightarrow> string" where
  "container_row label vec_cycles map_cycles umap_cycles =
     ''  '' @ left_field 28 label @ ''  vector: '' @ right_field 8 (digits (unat vec_cycles)) @
     ''   map: '' @ right_field 8 (digits (unat map_cycles)) @
     ''   unordered_map: '' @ right_field 8 (digits (unat umap_cycles)) @ ''  cycles'' @ endl"

definition container_table :: "nat \<Rightarrow> table \<Rightarrow> string" where
  "container_table n rows =
     endl @ ''=== Container Benchmark (N='' @ digits n @ '') ==='' @ endl @ endl @
     concat (map (\<lambda>(label, v, m, u). container_row label v m u) rows)"

text \<open>The columns are aligned as long as no count needs more digits than its field has.\<close>

lemma pool_row_width:
  assumes "length label \<le> 36" and "unat p < 10 ^ 10" and "unat n < 10 ^ 10" and "unat m < 10 ^ 10"
  shows "length (pool_row label p n m) = 119"
  using assms digits_length [of "unat p" 10] digits_length [of "unat n" 10] digits_length [of "unat m" 10]
  by (simp add: pool_row_def endl_def max_absorb1)

lemma container_row_width:
  assumes "length label \<le> 28" and "unat v < 10 ^ 8" and "unat m < 10 ^ 8" and "unat u < 10 ^ 8"
  shows "length (container_row label v m u) = 99"
  using assms digits_length [of "unat v" 8] digits_length [of "unat m" 8] digits_length [of "unat u" 8]
  by (simp add: container_row_def endl_def max_absorb1)

section \<open>The notes\<close>

definition sink_note :: "u64 \<Rightarrow> string" where
  "sink_note sk = ''  - sink='' @ digits (unat sk) @ '' (prevents dead-code elimination)'' @ endl @ endl"

definition mem_pool_notes :: "u64 \<Rightarrow> string" where
  "mem_pool_notes sk =
     endl @ ''Notes:'' @ endl @
     ''  - MemPool pre-allocates all slots in a contiguous vector '' @ dash @ '' zero system-allocator calls.'' @ endl @
     ''  - new/delete and malloc/free go through the system allocator on every call.'' @ endl @
     ''  - 'Alloc cold' evicts the cache (64 MB buffer scan) before each allocation;'' @ endl @
     ''    sampled over '' @ digits cold_samples @ '' operations.'' @ endl @
     ''  - 'Churn' randomly interleaves allocations and deallocations at ~50% occupancy.'' @ endl @
     ''  - Object type: Order (4 x uint64_t = 32 bytes), representative of an order book entry.'' @ endl @
     sink_note sk"

definition sep_pool_notes :: "u64 \<Rightarrow> string" where
  "sep_pool_notes sk =
     endl @ ''Notes:'' @ endl @
     ''  - MemPoolSeparateFreeStructure pre-allocates all slots in a contiguous vector '' @ dash @ endl @
     ''    zero system-allocator calls. The free-list index is stored in a separate field'' @ endl @
     ''    alongside (but outside) the object storage.'' @ endl @
     ''  - new/delete and malloc/free go through the system allocator on every call.'' @ endl @
     ''  - 'Alloc cold' evicts the cache (64 MB buffer scan) before each allocation;'' @ endl @
     ''    sampled over '' @ digits cold_samples @ '' operations.'' @ endl @
     ''  - 'Churn' randomly interleaves allocations and deallocations at ~50% occupancy.'' @ endl @
     ''  - Object type: Order (4 x uint64_t = 32 bytes), representative of an order book entry.'' @ endl @
     sink_note sk"

definition container_notes :: "u64 \<Rightarrow> string" where
  "container_notes sk =
     endl @ ''Notes:'' @ endl @
     ''  - vector lookup uses binary search (O(log N)), same asymptotic cost as map.'' @ endl @
     ''  - vector iteration is a contiguous memory scan '' @ dash @ '' maximally cache-friendly.'' @ endl @
     ''  - map nodes are heap-allocated individually; each traversal step risks a cache miss.'' @ endl @
     ''  - unordered_map is pre-sized (reserve) to avoid rehashing penalty.'' @ endl @
     ''  - 'Lookup cold' evicts the cache (64 MB buffer scan) before each probe so'' @ endl @
     ''    the lookup pays the cost of refetching from memory; sampled over '' @ digits cold_samples @ '' keys.'' @ endl @
     ''  - at small N, timings are dominated by rdtsc overhead and quantization.'' @ endl @
     sink_note sk"

section \<open>The output of \<open>main\<close>\<close>

definition mem_pool_bench_output :: "clock \<Rightarrow> nat \<Rightarrow> bench_input list \<Rightarrow> string result" where
  "mem_pool_bench_output tsc lim inputs =
     rbind (mem_pool_bench_main tsc lim inputs) (\<lambda>(tables, sk).
       Inr (concat (map2 mem_pool_table tier_sizes tables) @ mem_pool_notes sk))"

definition sep_pool_bench_output :: "clock \<Rightarrow> nat \<Rightarrow> bench_input list \<Rightarrow> string result" where
  "sep_pool_bench_output tsc lim inputs =
     rbind (sep_pool_bench_main tsc lim inputs) (\<lambda>(tables, sk).
       Inr (concat (map2 sep_pool_table tier_sizes tables) @ sep_pool_notes sk))"

definition container_bench_output ::
  "clock \<Rightarrow> (int list \<Rightarrow> int list) \<Rightarrow> ((int \<times> int) list \<Rightarrow> (int \<times> int) list) \<Rightarrow> string result"
where
  "container_bench_output tsc shuffle iteration_order =
     rbind (container_bench_main tsc shuffle iteration_order) (\<lambda>(tables, sk).
       Inr (concat (map2 container_table container_sizes tables) @ container_notes sk))"

text \<open>
  The identifiers that a run reads: each of the three allocators drains all of them twice, and its
  churn reads those that it gives back before the end.
\<close>

definition identifiers_read :: "nat \<Rightarrow> bench_input \<Rightarrow> nat" where
  "identifiers_read n i = 3 * n * (n - 1) + churn_total n (in_pool i) +
     churn_total (n + n div 2) (in_new i) + churn_total (n + n div 2) (in_malloc i)"

lemma input_sink_read: "input_sink n i = word_of_nat (identifiers_read (unat n) i)"
proof -
  have gauss: "2 * (\<Sum>k<Suc m. k) = Suc m * m" for m :: nat
    by (induction m) (simp_all add: algebra_simps)
  have "2 * (\<Sum>k<m. k) = m * (m - 1)" for m :: nat
    using gauss [of "m - 1"] by (cases m) simp_all
  from this [of "unat n"] have six: "6 * (\<Sum>k<unat n. k) = 3 * unat n * (unat n - 1)" by simp
  show ?thesis unfolding input_sink_reads identifiers_read_def six by (rule refl)
qed

lemma tiers_expected:
  "expected_tables tsc (zip tier_sizes [a, b, c]) 0 =
     [expected_rows tsc 100 0, expected_rows tsc 100000 630, expected_rows tsc 1000000 2196]"
  "(\<Sum>(n, i)\<leftarrow>zip tier_sizes [a, b, c]. input_sink n i) =
     word_of_nat (identifiers_read 100 a + identifiers_read 100000 b + identifiers_read 1000000 c)"
proof -
  show "expected_tables tsc (zip tier_sizes [a, b, c]) 0 =
      [expected_rows tsc 100 0, expected_rows tsc 100000 630, expected_rows tsc 1000000 2196]"
    by (simp add: tier_sizes_def phase_ticks_def cold_samples_def)
  have "unat (100 :: size_t) = 100" "unat (100000 :: size_t) = 100000" "unat (1000000 :: size_t) = 1000000" by simp_all
  then show "(\<Sum>(n, i)\<leftarrow>zip tier_sizes [a, b, c]. input_sink n i) =
      word_of_nat (identifiers_read 100 a + identifiers_read 100000 b + identifiers_read 1000000 c)"
    unfolding tier_sizes_def by (simp only: zip.simps list.case list.map sum_list.Cons sum_list.Nil prod.case
        zip_Cons_Cons input_sink_read of_nat_add add_0_right add.assoc)
qed

text \<open>
  C35: What both allocation benchmarks print, to the last number. For all shuffles, draws and clocks,
  with memory for a million and a half orders, \<open>main\<close> of either program returns; the tables of the three
  sizes have in each row the cycles between the time stamps that enclose that phase of that allocator
  (the runs start at the stamps number 0, 630 and 2196), and the notes end with the sum of all
  identifiers read, which the sizes and the draws of the churns determine.
\<close>

theorem bench_mains_print:
  assumes "bench_input_ok 100 a" and "bench_input_ok 100000 b" and "bench_input_ok 1000000 c" and "1500000 \<le> lim"
  shows "mem_pool_bench_output tsc lim [a, b, c] =
      Inr (mem_pool_table 100 (expected_rows tsc 100 0) @
           mem_pool_table 100000 (expected_rows tsc 100000 630) @
           mem_pool_table 1000000 (expected_rows tsc 1000000 2196) @
           mem_pool_notes (word_of_nat (identifiers_read 100 a + identifiers_read 100000 b + identifiers_read 1000000 c))) \<and>
    sep_pool_bench_output tsc lim [a, b, c] =
      Inr (sep_pool_table 100 (expected_rows tsc 100 0) @
           sep_pool_table 100000 (expected_rows tsc 100000 630) @
           sep_pool_table 1000000 (expected_rows tsc 1000000 2196) @
           sep_pool_notes (word_of_nat (identifiers_read 100 a + identifiers_read 100000 b + identifiers_read 1000000 c)))"
proof -
  have ok: "\<forall>(n, i) \<in> set (zip tier_sizes [a, b, c]). bench_input_ok n i"
    using assms(1-3) by (simp add: tier_sizes_def)
  note main = bench_mains_exact [OF ok assms(4), of tsc, unfolded tiers_expected]
  show ?thesis
    unfolding mem_pool_bench_output_def sep_pool_bench_output_def main by (simp add: tier_sizes_def)
qed

corollary bench_mains_print_sample:
  "mem_pool_bench_output (\<lambda>k. word_of_nat (7 * k)) 1500000 [sample_input 100, sample_input 100000, sample_input 1000000] =
      Inr (mem_pool_table 100 (expected_rows (\<lambda>k. word_of_nat (7 * k)) 100 0) @
           mem_pool_table 100000 (expected_rows (\<lambda>k. word_of_nat (7 * k)) 100000 630) @
           mem_pool_table 1000000 (expected_rows (\<lambda>k. word_of_nat (7 * k)) 1000000 2196) @
           mem_pool_notes (word_of_nat (identifiers_read 100 (sample_input 100) +
             identifiers_read 100000 (sample_input 100000) + identifiers_read 1000000 (sample_input 1000000))))"
proof -
  have "bench_input_ok 100 (sample_input 100)" "bench_input_ok 100000 (sample_input 100000)"
    "bench_input_ok 1000000 (sample_input 1000000)" by (simp_all add: sample_input_ok)
  from bench_mains_print [OF this order_refl, of "\<lambda>k. word_of_nat (7 * k)"] show ?thesis by (rule conjunct1)
qed

text \<open>
  C39: The container benchmark runs to the end, and all that its output owes to the hash order and to
  the clock are the cycle counts: the \<open>sink\<close> in its last line is determined by the three sizes and the
  shuffle alone, three times the work of each tier.
\<close>

theorem container_main_prints:
  assumes "\<And>keys. mset (shuffle keys) = mset keys" and "\<And>m. mset (iteration_order m) = mset m"
  shows "\<exists>a b c. container_bench_output tsc shuffle iteration_order =
    Inr (container_table 100 a @ container_table 100000 b @ container_table 10000000 c @
      container_notes (3 * (tier_work shuffle 100 + (tier_work shuffle 100000 + tier_work shuffle 10000000))))"
proof -
  obtain ts where m: "container_bench_main tsc shuffle iteration_order =
      Inr (ts, 3 * (tier_work shuffle 100 + (tier_work shuffle 100000 + tier_work shuffle 10000000)))" "length ts = 3"
    using container_main_sink [OF assms, of tsc] by blast
  obtain a b c where ts: "ts = [a, b, c]" using m(2) by (auto simp: length_Suc_conv eval_nat_numeral)
  show ?thesis unfolding container_bench_output_def m(1) ts
    by (intro exI [of _ a] exI [of _ b] exI [of _ c]) (simp add: container_sizes_def)
qed

corollary container_main_prints_sample:
  "\<exists>a b c. container_bench_output (\<lambda>k. word_of_nat (3 * k)) rev rev =
    Inr (container_table 100 a @ container_table 100000 b @ container_table 10000000 c @
      container_notes (3 * (tier_work rev 100 + (tier_work rev 100000 + tier_work rev 10000000))))"
  by (rule container_main_prints) simp_all

end
