(* ===== verification/Common_Utils.thy ===== *)
theory Common_Utils
  imports Pool_Bench_Correct
begin

text \<open>
  \<open>common/perf_utils.h\<close> and \<open>common/time_utils.h\<close>: the measuring macros around the time stamp counter,
  and the text of the current time. The text that \<open>ctime\<close> returns is a parameter; \<open>None\<close> is the null
  pointer that it may return.
\<close>

text \<open>On AArch64 the instruction returns the whole counter.\<close>

definition rdtsc_aarch64 :: "u64 \<Rightarrow> u64" where
  "rdtsc_aarch64 cnt = cnt"

text \<open>
  \<open>getCurrentTimeStr\<close> assigns the text to the caller's string and overwrites its last character, the
  newline of \<open>ctime\<close>, with a NUL character, which stays part of the string.
\<close>

definition nul :: char where
  "nul = char_of (0::nat)"

definition get_current_time_str :: "string option \<Rightarrow> string \<Rightarrow> string result" where
  "get_current_time_str ctime_text time_str = (case ctime_text of
     None \<Rightarrow> Inl NullDeref
   | Some t \<Rightarrow>
       let time_str = t in
       Inr (if time_str \<noteq> [] then time_str[length time_str - 1 := nul] else time_str))"

text \<open>The macros: \<open>START_MEASURE\<close> reads the counter, \<open>END_MEASURE\<close> logs the time and the difference.\<close>

definition start_measure :: "u32 \<Rightarrow> u32 \<Rightarrow> u64" where
  "start_measure hi lo = rdtsc hi lo"

definition end_measure :: "u32 \<Rightarrow> u32 \<Rightarrow> string option \<Rightarrow> string \<Rightarrow> u64 \<Rightarrow> (string \<times> u64) result" where
  "end_measure hi lo ctime_text time_str tag =
     (let stop = rdtsc hi lo in
      rbind (get_current_time_str ctime_text time_str) (\<lambda>t. Inr (t, stop - tag)))"

text \<open>The registers after \<open>c\<close> cycles: the counter has 64 bits, in two halves.\<close>

definition high_half :: "nat \<Rightarrow> u32" where
  "high_half c = word_of_nat (c div 2 ^ 32)"

definition low_half :: "nat \<Rightarrow> u32" where
  "low_half c = word_of_nat c"

lemma rdtsc_counter: "rdtsc (high_half c) (low_half c) = word_of_nat c"
proof -
  have "uint (rdtsc (high_half c) (low_half c)) = int (c div 2 ^ 32 mod 2 ^ 32) * 2 ^ 32 + int (c mod 2 ^ 32)"
    unfolding rdtsc_halves by (simp add: high_half_def low_half_def uint_nat unat_of_nat take_bit_eq_mod zmod_int)
  also have "\<dots> = int (c mod 2 ^ 64)"
    using mod_mult2_eq [of c "2 ^ 32" "2 ^ 32"] by (simp flip: of_nat_mult of_nat_add power_add add: mult.commute)
  also have "\<dots> = uint (word_of_nat c :: u64)" by (simp add: uint_nat unat_of_nat take_bit_eq_mod zmod_int)
  finally show ?thesis by (simp only: word_uint_eq_iff)
qed

text \<open>
  C38: A measurement reports the cycles that passed. Whatever the counter was at the start, even when
  it came round in between, the logged difference is the number of cycles between the two readings as
  long as that number fits in 64 bits; the logged time is the text of \<open>ctime\<close> with its newline
  replaced by a NUL character.
\<close>

theorem measure_reports_cycles:
  assumes "c2 - c1 < 2 ^ 64" and "c1 \<le> c2"
  shows "\<exists>d. end_measure (high_half c2) (low_half c2) (Some (t @ [nl])) s
      (start_measure (high_half c1) (low_half c1)) = Inr (t @ [nul], d) \<and> unat d = c2 - c1"
proof -
  have "(word_of_nat c2 :: u64) - word_of_nat c1 = word_of_nat (c2 - c1)"
    using assms(2) by (simp add: of_nat_diff)
  with assms(1) show ?thesis
    by (simp add: end_measure_def start_measure_def get_current_time_str_def Let_def rdtsc_counter unat_word_of_nat)
qed

text \<open>A measurement across the end of the counter's range.\<close>

corollary measure_reports_cycles_sample:
  "\<exists>d. end_measure (high_half (2 ^ 64 + 3)) (low_half (2 ^ 64 + 3)) (Some ''12:00 '') ''''
      (start_measure (high_half (2 ^ 64 - 4)) (low_half (2 ^ 64 - 4))) = Inr (''12:00'' @ [nul], d) \<and> unat d = 7"
  using measure_reports_cycles [of "2 ^ 64 + 3" "2 ^ 64 - 4" "''12:00''" "CHR '' ''" "''''"] by simp

section \<open>The tests of \<open>common\<close>\<close>

text \<open>
  \<open>common/tests\<close>, over the number of cycles that the counter has made at each of its readings. The work between
  two readings of \<open>RdtscAdvancesAcrossWork\<close> is a sum in a volatile variable; what counts is the cycles that it takes.
\<close>

definition test_RdtscReturnsNonZero :: "nat \<Rightarrow> bool" where
  "test_RdtscReturnsNonZero c \<longleftrightarrow> rdtsc (high_half c) (low_half c) > 0"

definition test_RdtscIsNonDecreasing :: "nat \<Rightarrow> nat \<Rightarrow> bool" where
  "test_RdtscIsNonDecreasing c1 c2 \<longleftrightarrow>
     (let first = rdtsc (high_half c1) (low_half c1); second = rdtsc (high_half c2) (low_half c2) in second \<ge> first)"

definition test_RdtscAdvancesAcrossWork :: "nat \<Rightarrow> nat \<Rightarrow> bool" where
  "test_RdtscAdvancesAcrossWork c1 c2 \<longleftrightarrow>
     (let start = rdtsc (high_half c1) (low_half c1); stop = rdtsc (high_half c2) (low_half c2) in stop > start)"

definition test_GetCurrentTimeStrPopulatesBuffer :: "string option \<Rightarrow> bool result" where
  "test_GetCurrentTimeStrPopulatesBuffer ctime_text =
     rbind (get_current_time_str ctime_text []) (\<lambda>time_str. Inr (time_str \<noteq> []))"

lemma unat_cycles: "unat (word_of_nat c :: u64) = c mod 2 ^ 64"
  by (simp add: unat_of_nat take_bit_eq_mod)

lemma same_round:
  assumes "c1 \<le> c2" and "c2 - c1 < (m :: nat)"
  shows "c1 mod m \<le> c2 mod m \<longleftrightarrow> c1 div m = c2 div m"
proof
  assume "c1 div m = c2 div m"
  with assms(1) div_mult_mod_eq [of c1 m] div_mult_mod_eq [of c2 m] show "c1 mod m \<le> c2 mod m"
    by (metis add_le_cancel_left)
next
  assume le: "c1 mod m \<le> c2 mod m"
  show "c1 div m = c2 div m"
  proof (rule ccontr)
    assume "c1 div m \<noteq> c2 div m"
    with div_le_mono [OF assms(1), of m] have "Suc (c1 div m) \<le> c2 div m" by simp
    then have "Suc (c1 div m) * m \<le> c2 div m * m" by (rule mult_le_mono1)
    then have "m + c1 div m * m \<le> c2 div m * m" by simp
    with le div_mult_mod_eq [of c1 m] div_mult_mod_eq [of c2 m] have "c1 + m \<le> c2" by linarith
    with assms(2) show False by simp
  qed
qed

text \<open>
  The tests of the counter pass exactly when it has not come round to 0 between its readings, and has not just done
  so at the first; that of the time passes for every text that \<open>ctime\<close> returns, and faults when it returns none.
\<close>

lemma common_tests_pass:
  assumes "c1 \<le> c2" and "c2 - c1 < 2 ^ 64"
  shows "test_RdtscReturnsNonZero c1 \<longleftrightarrow> \<not> 2 ^ 64 dvd c1"
    and "test_RdtscIsNonDecreasing c1 c2 \<longleftrightarrow> c1 div 2 ^ 64 = c2 div 2 ^ 64"
    and "test_RdtscAdvancesAcrossWork c1 c2 \<longleftrightarrow> c1 div 2 ^ 64 = c2 div 2 ^ 64 \<and> c1 < c2"
    and "t \<noteq> [] \<Longrightarrow> test_GetCurrentTimeStrPopulatesBuffer (Some t) = Inr True"
    and "test_GetCurrentTimeStrPopulatesBuffer None = Inl NullDeref"
proof -
  show "test_RdtscReturnsNonZero c1 \<longleftrightarrow> \<not> 2 ^ 64 dvd c1"
    unfolding test_RdtscReturnsNonZero_def rdtsc_counter word_less_nat_alt unat_cycles
    by (simp add: dvd_eq_mod_eq_0)
  show le: "test_RdtscIsNonDecreasing c1 c2 \<longleftrightarrow> c1 div 2 ^ 64 = c2 div 2 ^ 64"
    unfolding test_RdtscIsNonDecreasing_def rdtsc_counter word_le_nat_alt unat_cycles Let_def
    using assms by (rule same_round)
  have "c1 mod 2 ^ 64 = c2 mod 2 ^ 64 \<and> c1 div 2 ^ 64 = c2 div 2 ^ 64 \<longleftrightarrow> c1 = c2"
    by (metis div_mult_mod_eq)
  then show "test_RdtscAdvancesAcrossWork c1 c2 \<longleftrightarrow> c1 div 2 ^ 64 = c2 div 2 ^ 64 \<and> c1 < c2"
    using le assms(1)
    unfolding test_RdtscIsNonDecreasing_def test_RdtscAdvancesAcrossWork_def rdtsc_counter word_le_nat_alt
      word_less_nat_alt unat_cycles Let_def by auto
  show "t \<noteq> [] \<Longrightarrow> test_GetCurrentTimeStrPopulatesBuffer (Some t) = Inr True"
    by (simp add: test_GetCurrentTimeStrPopulatesBuffer_def get_current_time_str_def Let_def)
  show "test_GetCurrentTimeStrPopulatesBuffer None = Inl NullDeref"
    by (simp add: test_GetCurrentTimeStrPopulatesBuffer_def get_current_time_str_def)
qed

end
