(* ===== verification/Thread_Example.thy ===== *)
theory Thread_Example
  imports Text_Format
begin

text \<open>
  \<open>examples/thread_example.cpp\<close>: two threads and \<open>main\<close> write to \<open>std::cout\<close>, and \<open>main\<close> joins both
  before its last line. Concurrent writes to \<open>std::cout\<close> may interleave at any character, so a step
  of the program is the output of one character, the start of a thread, the end of a sleep, or a
  \<open>join\<close> of a thread that has ended; every interleaving of such steps is a run.
\<close>

section \<open>The program\<close>

datatype tid = T1 | T2

datatype action = Put char | Sleep | Spawn tid | Join tid

definition puts :: "string \<Rightarrow> action list" where
  "puts s = map Put s"

definition dummy_function :: "int \<Rightarrow> int \<Rightarrow> bool \<Rightarrow> action list" where
  "dummy_function a b sleep =
     puts (''dummyFunction('' @ int_text a @ '','' @ int_text b @ '')'' @ endl) @
     puts (''dummyFunction output='' @ int_text (a + b) @ endl) @
     (if sleep then puts (''dummyFunction sleeping...'' @ endl) @ [Sleep] else []) @
     puts (''dummyFunction done.'' @ endl)"

fun body :: "tid \<Rightarrow> action list" where
  "body T1 = dummy_function 12 21 False"
| "body T2 = dummy_function 15 51 True"

definition waiting :: string where
  "waiting = ''main waiting for threads to be done.'' @ endl"

definition exiting :: string where
  "exiting = ''main exiting.'' @ endl"

definition main_script :: "action list" where
  "main_script = Spawn T1 # Spawn T2 # puts waiting @ Join T1 # Join T2 # puts exiting"

section \<open>Runs\<close>

record config =
  c_main :: "action list"
  c_threads :: "tid \<Rightarrow> action list option"
  c_out :: string

definition thread_start :: config where
  "thread_start = \<lparr>c_main = main_script, c_threads = (\<lambda>_. None), c_out = []\<rparr>"

inductive thread_step :: "config \<Rightarrow> config \<Rightarrow> bool" where
  main_put: "c_main c = Put x # as \<Longrightarrow> thread_step c (c\<lparr>c_main := as, c_out := c_out c @ [x]\<rparr>)"
| main_spawn: "c_main c = Spawn t # as \<Longrightarrow> thread_step c (c\<lparr>c_main := as, c_threads := (c_threads c)(t := Some (body t))\<rparr>)"
| main_join: "c_main c = Join t # as \<Longrightarrow> c_threads c t = Some [] \<Longrightarrow> thread_step c (c\<lparr>c_main := as\<rparr>)"
| put: "c_threads c t = Some (Put x # as) \<Longrightarrow>
    thread_step c (c\<lparr>c_threads := (c_threads c)(t := Some as), c_out := c_out c @ [x]\<rparr>)"
| sleep: "c_threads c t = Some (Sleep # as) \<Longrightarrow> thread_step c (c\<lparr>c_threads := (c_threads c)(t := Some as)\<rparr>)"

inductive_cases thread_stepE: "thread_step c c'"

inductive thread_run :: "config \<Rightarrow> config \<Rightarrow> bool" where
  here: "thread_run c c"
| more: "thread_run c c' \<Longrightarrow> thread_step c' c'' \<Longrightarrow> thread_run c c''"

definition finished :: "config \<Rightarrow> bool" where
  "finished c \<longleftrightarrow> c_main c = []"

section \<open>Texts and interleavings\<close>

fun text_of :: "action list \<Rightarrow> string" where
  "text_of [] = []"
| "text_of (Put x # as) = x # text_of as"
| "text_of (_ # as) = text_of as"

lemma text_of_append [simp]: "text_of (as @ bs) = text_of as @ text_of bs"
  by (induction as rule: text_of.induct) simp_all

lemma text_of_puts [simp]: "text_of (puts s) = s"
  by (induction s) (simp_all add: puts_def)

lemma puts_simps [simp]: "puts [] = []" "puts (x # s) = Put x # puts s"
  by (simp_all add: puts_def)

lemma puts_eq_Put: "puts s = Put x # as \<longleftrightarrow> (\<exists>s'. s = x # s' \<and> as = puts s')"
  by (cases s) auto

lemma set_puts: "set (puts s) \<subseteq> range Put"
  by (auto simp: puts_def)

lemma shuffles_snoc_left: "zs \<in> shuffles xs ys \<Longrightarrow> zs @ [c] \<in> shuffles (xs @ [c]) ys"
proof (induction xs ys arbitrary: zs rule: shuffles.induct)
  case (1 ys)
  then have "zs = ys" by simp
  then show ?case by (induction ys arbitrary: zs) auto
qed auto

lemma shuffles_snoc_right: "zs \<in> shuffles xs ys \<Longrightarrow> zs @ [c] \<in> shuffles xs (ys @ [c])"
  using shuffles_snoc_left [of zs ys xs c] by (simp add: shuffles_commutes)

text \<open>The interleavings of the output of \<open>main\<close> with those of the two threads.\<close>

definition merged :: "string \<Rightarrow> (tid \<Rightarrow> string) \<Rightarrow> string set" where
  "merged m d = (\<Union>w \<in> shuffles (d T1) (d T2). shuffles m w)"

lemma merged_Nil: "[] \<in> merged [] (\<lambda>_. [])"
  by (simp add: merged_def)

lemma merged_main: "out \<in> merged m d \<Longrightarrow> out @ [x] \<in> merged (m @ [x]) d"
  by (auto simp: merged_def intro: shuffles_snoc_left)

lemma merged_thread: "out \<in> merged m d \<Longrightarrow> out @ [x] \<in> merged m (d(t := d t @ [x]))"
  by (cases t) (auto simp: merged_def intro: shuffles_snoc_left shuffles_snoc_right)

section \<open>The invariant\<close>

definition remaining :: "config \<Rightarrow> tid \<Rightarrow> action list" where
  "remaining c t = (case c_threads c t of None \<Rightarrow> body t | Some as \<Rightarrow> as)"

text \<open>Where \<open>main\<close> is, which threads have started or ended, and what \<open>main\<close> has written before the joins.\<close>

inductive main_at :: "config \<Rightarrow> string \<Rightarrow> bool" where
  at_start: "c_main c = main_script \<Longrightarrow> c_threads c = (\<lambda>_. None) \<Longrightarrow> main_at c []"
| at_second: "c_main c = tl main_script \<Longrightarrow> c_threads c T1 \<noteq> None \<Longrightarrow> c_threads c T2 = None \<Longrightarrow> main_at c []"
| at_waiting: "c_main c = puts r @ Join T1 # Join T2 # puts exiting \<Longrightarrow> m @ r = waiting \<Longrightarrow>
    \<forall>t. c_threads c t \<noteq> None \<Longrightarrow> main_at c m"
| at_join: "c_main c = Join T2 # puts exiting \<Longrightarrow> c_threads c T1 = Some [] \<Longrightarrow> c_threads c T2 \<noteq> None \<Longrightarrow> main_at c waiting"

definition before_exit :: "config \<Rightarrow> bool" where
  "before_exit c \<longleftrightarrow> (\<exists>m d. main_at c m \<and> c_out c \<in> merged m d \<and>
     (\<forall>t. d t @ text_of (remaining c t) = text_of (body t) \<and> set (remaining c t) \<subseteq> insert Sleep (range Put)))"

definition in_exit :: "config \<Rightarrow> bool" where
  "in_exit c \<longleftrightarrow> (\<exists>w e r. c_main c = puts r \<and> e @ r = exiting \<and> c_threads c = (\<lambda>_. Some []) \<and>
     c_out c = w @ e \<and> w \<in> merged waiting (text_of \<circ> body))"

lemma body_actions: "set (body t) \<subseteq> insert Sleep (range Put)"
  using set_puts by (cases t) (auto simp: dummy_function_def)

lemma before_exit_start: "before_exit thread_start"
  unfolding before_exit_def
  using body_actions merged_Nil
  by (intro exI [of _ "[]"] exI [of _ "\<lambda>_. []"])
     (auto simp: thread_start_def remaining_def main_at.simps)

lemma main_at_thread:
  assumes "main_at c m" and "c_threads c t = Some (a # as)"
  shows "main_at (c\<lparr>c_threads := (c_threads c)(t := Some as), c_out := out\<rparr>) m"
  using assms by (cases t) (auto simp: main_at.simps elim!: main_at.cases)

lemma main_at_put:
  assumes "main_at c m" and "c_main c = Put x # as"
  shows "main_at (c\<lparr>c_main := as, c_out := out\<rparr>) (m @ [x])"
  using assms
proof cases
  case (at_waiting r)
  with assms(2) obtain r' where "r = x # r'" "as = puts r' @ Join T1 # Join T2 # puts exiting"
    by (cases r) auto
  with at_waiting show ?thesis by (intro main_at.at_waiting [of _ r']) simp_all
qed (simp_all add: main_script_def)

lemma main_at_spawn:
  assumes "main_at c m" and "c_main c = Spawn t # as"
  shows "main_at (c\<lparr>c_main := as, c_threads := (c_threads c)(t := Some (body t))\<rparr>) m" "c_threads c t = None"
proof -
  have "main_at (c\<lparr>c_main := as, c_threads := (c_threads c)(t := Some (body t))\<rparr>) m \<and> c_threads c t = None"
    using assms(1)
  proof cases
    case at_start
    with assms(2) show ?thesis by (auto simp: main_script_def main_at.simps)
  next
    case at_second
    with assms(2) have t: "t = T2" "as = puts waiting @ Join T1 # Join T2 # puts exiting" by (simp_all add: main_script_def)
    have "\<forall>u. ((c_threads c)(T2 := Some (body T2))) u \<noteq> None"
    proof
      fix u show "((c_threads c)(T2 := Some (body T2))) u \<noteq> None" using at_second by (cases u) simp_all
    qed
    with t at_second show ?thesis by (auto intro!: at_waiting [of _ waiting])
  next
    case (at_waiting r)
    with assms(2) show ?thesis by (cases r) simp_all
  qed (use assms(2) in simp_all)
  then show "main_at (c\<lparr>c_main := as, c_threads := (c_threads c)(t := Some (body t))\<rparr>) m" "c_threads c t = None"
    by blast+
qed

lemma main_at_join:
  assumes "main_at c m" and "c_main c = Join t # as" and "c_threads c t = Some []"
  shows "main_at (c\<lparr>c_main := as\<rparr>) m \<or> (c_threads c = (\<lambda>_. Some []) \<and> as = puts exiting \<and> m = waiting)"
  using assms(1)
proof cases
  case (at_waiting r)
  with assms(2) have "r = []" "t = T1" "as = Join T2 # puts exiting" by (cases r; simp)+
  with at_waiting assms(3) show ?thesis by (auto intro!: main_at.at_join)
next
  case at_join
  with assms have t: "t = T2" "as = puts exiting" by simp_all
  have "c_threads c = (\<lambda>_. Some [])"
  proof
    fix u show "c_threads c u = Some []" using at_join assms(3) t by (cases u) simp_all
  qed
  with t at_join show ?thesis by simp
qed (use assms(2) in \<open>simp_all add: main_script_def\<close>)

lemma remaining_simps [simp]:
  "remaining (c\<lparr>c_main := as\<rparr>) t = remaining c t" "remaining (c\<lparr>c_out := out\<rparr>) t = remaining c t"
  "remaining (c\<lparr>c_threads := (c_threads c)(u := Some bs)\<rparr>) t = (if t = u then bs else remaining c t)"
  "remaining (c\<lparr>c_threads := (c_threads c)(u := Some bs), c_out := out\<rparr>) t = (if t = u then bs else remaining c t)"
  by (simp_all add: remaining_def)

lemma before_exit_step:
  assumes "thread_step c c'" and "before_exit c"
  shows "before_exit c' \<or> in_exit c'"
proof -
  obtain m d where at: "main_at c m" and out: "c_out c \<in> merged m d"
    and left: "\<forall>t. d t @ text_of (remaining c t) = text_of (body t) \<and> set (remaining c t) \<subseteq> insert Sleep (range Put)"
    using assms(2) unfolding before_exit_def by blast
  from assms(1) show ?thesis
  proof cases
    case (main_put x as)
    have "before_exit c'"
      unfolding before_exit_def
      using main_at_put [OF at main_put(2)] merged_main [OF out] left main_put(1)
      by (intro exI [of _ "m @ [x]"] exI [of _ d]) simp
    then show ?thesis ..
  next
    case (main_spawn t as)
    note sp = main_at_spawn [OF at main_spawn(2)]
    have "remaining c' u = remaining c u" for u
      using sp(2) main_spawn(1) by (simp add: remaining_def)
    then have "before_exit c'"
      unfolding before_exit_def using sp(1) out left main_spawn(1) by (intro exI [of _ m] exI [of _ d]) simp
    then show ?thesis ..
  next
    case (main_join t as)
    from main_at_join [OF at main_join(2,3)] show ?thesis
    proof
      assume "main_at (c\<lparr>c_main := as\<rparr>) m"
      then have "before_exit c'"
        unfolding before_exit_def using out left main_join(1) by (intro exI [of _ m] exI [of _ d]) simp
      then show ?thesis ..
    next
      assume j: "c_threads c = (\<lambda>_. Some []) \<and> as = puts exiting \<and> m = waiting"
      then have "d t = text_of (body t)" for t using spec [OF left, of t] by (simp add: remaining_def)
      then have "d = text_of \<circ> body" by auto
      with j out main_join(1) have "in_exit c'"
        unfolding in_exit_def by (intro exI [of _ "c_out c"] exI [of _ "[]"] exI [of _ exiting]) simp
      then show ?thesis ..
    qed
  next
    case (put t x as)
    have r: "remaining c t = Put x # as" using put(2) by (simp add: remaining_def)
    have "(d(t := d t @ [x])) u @ text_of (remaining c' u) = text_of (body u) \<and> set (remaining c' u) \<subseteq> insert Sleep (range Put)" for u
      using spec [OF left, of u] r put(1) by auto
    then have "before_exit c'"
      unfolding before_exit_def
      using main_at_thread [OF at put(2)] merged_thread [OF out, of x t] put(1)
      by (intro exI [of _ m] exI [of _ "d(t := d t @ [x])"]) auto
    then show ?thesis ..
  next
    case (sleep t as)
    have r: "remaining c t = Sleep # as" using sleep(2) by (simp add: remaining_def)
    have "d u @ text_of (remaining c' u) = text_of (body u) \<and> set (remaining c' u) \<subseteq> insert Sleep (range Put)" for u
      using spec [OF left, of u] r sleep(1) by auto
    moreover have "main_at c' m" using main_at_thread [OF at sleep(2), of "c_out c"] sleep(1) by simp
    ultimately have "before_exit c'"
      unfolding before_exit_def using out sleep(1) by (intro exI [of _ m] exI [of _ d]) simp
    then show ?thesis ..
  qed
qed

lemma in_exit_step:
  assumes "thread_step c c'" and "in_exit c"
  shows "in_exit c'"
proof -
  obtain w e r where c: "c_main c = puts r" "e @ r = exiting" "c_threads c = (\<lambda>_. Some [])" "c_out c = w @ e"
    "w \<in> merged waiting (text_of \<circ> body)"
    using assms(2) unfolding in_exit_def by blast
  from assms(1) show ?thesis
  proof cases
    case (main_put x as)
    with c(1) obtain r' where "r = x # r'" "as = puts r'" by (cases r) auto
    with c main_put(1) show ?thesis
      unfolding in_exit_def by (intro exI [of _ w] exI [of _ "e @ [x]"] exI [of _ r']) simp
  qed (use c in \<open>cases r; simp\<close>)+
qed

lemma thread_run_inv:
  assumes "thread_run thread_start c" shows "before_exit c \<or> in_exit c"
proof -
  have "thread_run a c \<Longrightarrow> before_exit a \<or> in_exit a \<Longrightarrow> before_exit c \<or> in_exit c" for a
    by (induction rule: thread_run.induct) (use before_exit_step in_exit_step in blast)+
  from this [OF assms] show ?thesis using before_exit_start by blast
qed

section \<open>Progress\<close>

definition work :: "config \<Rightarrow> nat" where
  "work c = length (c_main c) + length (remaining c T1) + length (remaining c T2)"

lemma work_step:
  assumes "thread_step c c'" and "before_exit c \<or> in_exit c"
  shows "work c = Suc (work c')"
  using assms(1)
proof cases
  case (main_spawn t as)
  from assms(2) have "c_threads c t = None"
  proof
    assume "before_exit c"
    then obtain m where "main_at c m" unfolding before_exit_def by blast
    with main_spawn(2) show ?thesis using main_at_spawn(2) by blast
  next
    assume "in_exit c"
    then obtain r where "c_main c = puts r" unfolding in_exit_def by blast
    with main_spawn(2) show ?thesis by (cases r) simp_all
  qed
  then have "remaining c' u = remaining c u" for u using main_spawn(1) by (simp add: remaining_def)
  with main_spawn show ?thesis by (simp add: work_def)
next
  case (put t x as)
  then show ?thesis by (cases t) (simp_all add: work_def remaining_def)
next
  case (sleep t as)
  then show ?thesis by (cases t) (simp_all add: work_def remaining_def)
qed (simp_all add: work_def)

lemma thread_can_step:
  assumes "c_threads c t = Some as" and "as \<noteq> []" and "set as \<subseteq> insert Sleep (range Put)"
  shows "\<exists>c'. thread_step c c'"
proof -
  obtain a bs where as: "as = a # bs" using assms(2) by (cases as) auto
  with assms(3) have "a = Sleep \<or> a \<in> range Put" by auto
  with assms(1) as show ?thesis using thread_step.put thread_step.sleep by blast
qed

lemma before_exit_progress:
  assumes "before_exit c"
  shows "\<exists>c'. thread_step c c'"
proof -
  obtain m where at: "main_at c m" and acts: "\<forall>t. set (remaining c t) \<subseteq> insert Sleep (range Put)"
    using assms unfolding before_exit_def by blast
  have join: "\<exists>c'. thread_step c c'" if "c_main c = Join t # as" and "c_threads c t \<noteq> None" for t as
  proof -
    obtain bs where bs: "c_threads c t = Some bs" using \<open>c_threads c t \<noteq> None\<close> by blast
    then have "set bs \<subseteq> insert Sleep (range Put)" using spec [OF acts, of t] by (simp add: remaining_def)
    with that(1) bs show ?thesis using thread_can_step [OF bs] thread_step.main_join [of c t as] by (cases "bs = []") blast+
  qed
  from at show ?thesis
  proof cases
    case (at_waiting r)
    show ?thesis
    proof (cases r)
      case Nil
      with at_waiting show ?thesis by (intro join) simp_all
    next
      case (Cons x r')
      with at_waiting(1) have "c_main c = Put x # puts r' @ Join T1 # Join T2 # puts exiting" by simp
      then show ?thesis by (blast intro: thread_step.main_put)
    qed
  next
    case at_join
    then show ?thesis by (intro join) simp_all
  next
    case at_start
    then have "c_main c = Spawn T1 # tl main_script" by (simp add: main_script_def)
    then show ?thesis by (blast intro: thread_step.main_spawn)
  next
    case at_second
    then have "c_main c = Spawn T2 # tl (tl main_script)" by (simp add: main_script_def)
    then show ?thesis by (blast intro: thread_step.main_spawn)
  qed
qed

lemma in_exit_progress:
  assumes "in_exit c" and "\<not> finished c"
  shows "\<exists>c'. thread_step c c'"
proof -
  obtain r where r: "c_main c = puts r" using assms(1) unfolding in_exit_def by blast
  with assms(2) obtain x r' where "r = x # r'" by (cases r) (auto simp: finished_def)
  with r have "c_main c = Put x # puts r'" by simp
  then show ?thesis by (blast intro: thread_step.main_put)
qed

lemma before_exit_not_finished:
  assumes "before_exit c" shows "\<not> finished c"
proof -
  obtain m where "main_at c m" using assms unfolding before_exit_def by blast
  then have "c_main c \<noteq> []"
  proof cases
    case at_start
    then show ?thesis unfolding main_script_def by simp
  next
    case at_second
    then show ?thesis unfolding main_script_def by simp
  next
    case (at_waiting r)
    then show ?thesis by simp
  next
    case at_join
    then show ?thesis by simp
  qed
  then show ?thesis by (simp add: finished_def)
qed

lemma thread_run_first: "thread_run b d \<Longrightarrow> thread_step a b \<Longrightarrow> thread_run a d"
proof (induction rule: thread_run.induct)
  case (here c)
  show ?case by (rule thread_run.more [OF thread_run.here here])
next
  case (more c c' c'')
  show ?case by (rule thread_run.more [OF more.IH [OF more.prems] more.hyps(2)])
qed

lemma run_can_finish:
  assumes "thread_run thread_start c"
  shows "\<exists>c'. thread_run c c' \<and> finished c'"
  using assms
proof (induction "work c" arbitrary: c rule: less_induct)
  case less
  note inv = thread_run_inv [OF less.prems]
  show ?case
  proof (cases "finished c")
    case True
    then show ?thesis using thread_run.here by blast
  next
    case False
    then obtain c1 where st: "thread_step c c1"
      using inv before_exit_progress in_exit_progress by blast
    then have "work c1 < work c" using work_step [OF st inv] by simp
    moreover have "thread_run thread_start c1" using less.prems st by (rule thread_run.more)
    ultimately obtain c2 where "thread_run c1 c2" "finished c2" using less.hyps by blast
    then show ?thesis using thread_run_first [OF _ st] by blast
  qed
qed

section \<open>The properties\<close>

text \<open>
  C18: The program ends. No reachable state is stuck unless \<open>main\<close> has returned, every step, whichever
  thread takes it, leaves one step less to do, so that no run is longer than the work of the start,
  and from every reachable state \<open>main\<close> can still return.
\<close>

theorem threads_end:
  assumes "thread_run thread_start c"
  shows "(finished c \<or> (\<exists>c'. thread_step c c')) \<and> (\<forall>c'. thread_step c c' \<longrightarrow> work c = Suc (work c')) \<and>
    (\<exists>c'. thread_run c c' \<and> finished c')"
  using thread_run_inv [OF assms] before_exit_progress in_exit_progress work_step run_can_finish [OF assms] by blast

corollary threads_end_sample:
  "\<exists>c'. thread_run thread_start c' \<and> finished c'"
  using threads_end [OF thread_run.here] by blast

text \<open>
  C19: What the program prints. However the threads are scheduled, when \<open>main\<close> has returned both threads
  have ended, and the output is some character-wise interleaving of the lines of the two threads with
  the first line of \<open>main\<close>, followed, after all of it, by \<open>main exiting.\<close>
\<close>

theorem threads_output:
  assumes "thread_run thread_start c" and "finished c"
  shows "c_threads c = (\<lambda>_. Some []) \<and>
    (\<exists>w \<in> merged waiting (text_of \<circ> body). c_out c = w @ exiting)"
proof -
  have "in_exit c" using thread_run_inv [OF assms(1)] before_exit_not_finished assms(2) by blast
  then obtain w e r where c: "c_main c = puts r" "e @ r = exiting" "c_threads c = (\<lambda>_. Some [])" "c_out c = w @ e"
    "w \<in> merged waiting (text_of \<circ> body)"
    unfolding in_exit_def by blast
  moreover have "r = []" using c(1) assms(2) by (cases r) (simp_all add: finished_def)
  ultimately show ?thesis by auto
qed

corollary threads_output_sample:
  "\<exists>c. thread_run thread_start c \<and> (\<exists>w. c_out c = w @ exiting)"
proof -
  obtain c where c: "thread_run thread_start c" "finished c"
    using run_can_finish [OF thread_run.here] by blast
  from threads_output [OF c] c(1) show ?thesis by blast
qed

end
