(* ===== verification/Object_Lifetime.thy ===== *)
theory Object_Lifetime
  imports Mem_Pool "HOL-Library.Multiset"
begin

text \<open>
  \<open>project/mem_pool.hpp\<close> for types whose constructors and destructors do something: \<open>allocate\<close> runs a
  constructor in the storage of an element, \<open>deallocate\<close> the destructor before the link takes the storage over.
  What they do is an effect on a state \<open>'s\<close>, a counter of instances for example. The destructor of the pool
  itself is that of its vector of bytes, and runs no destructor of an object.
\<close>

section \<open>Storage that holds a link or an object\<close>

text \<open>\<open>first8\<close> is what the first eight bytes of an object would read as.\<close>

datatype 'a cell = Link size_t | Object 'a

definition cell_overlay :: "('a \<Rightarrow> size_t) \<Rightarrow> 'a cell overlay" where
  "cell_overlay first8 =
     \<lparr>get_idx = (\<lambda>c. case c of Link w \<Rightarrow> w | Object v \<Rightarrow> first8 v), set_idx = (\<lambda>w _. Link w)\<rparr>"

interpretation co: storage_overlay "cell_overlay first8" for first8
  by unfold_locales (simp add: cell_overlay_def)

section \<open>Operations\<close>

record ('a, 's) class_of =
  on_construct :: "'a \<Rightarrow> 's \<Rightarrow> 's"
  on_destroy :: "'a \<Rightarrow> 's \<Rightarrow> 's"

record ('a, 's) managed =
  mg_pool :: "'a cell mem_pool"
  mg_state :: 's

definition managed_new :: "('a \<Rightarrow> size_t) \<Rightarrow> size_t \<Rightarrow> 's \<Rightarrow> ('a, 's) managed result" where
  "managed_new first8 n s =
     rbind (mem_pool_new (cell_overlay first8) (Link 0) n) (\<lambda>p. Inr \<lparr>mg_pool = p, mg_state = s\<rparr>)"

definition managed_allocate ::
  "('a, 's) class_of \<Rightarrow> ('a \<Rightarrow> size_t) \<Rightarrow> ('a, 's) managed \<Rightarrow> 'a \<Rightarrow> ptr \<times> ('a, 's) managed"
where
  "managed_allocate C first8 m v = (case allocate (cell_overlay first8) (mg_pool m) (Object v) of
     (None, p) \<Rightarrow> (None, m\<lparr>mg_pool := p\<rparr>)
   | (Some i, p) \<Rightarrow> (Some i, m\<lparr>mg_pool := p, mg_state := on_construct C v (mg_state m)\<rparr>))"

text \<open>To run the destructor on storage that holds no object is an error of the client.\<close>

definition managed_deallocate ::
  "('a, 's) class_of \<Rightarrow> ('a \<Rightarrow> size_t) \<Rightarrow> ptr \<Rightarrow> ('a, 's) managed \<Rightarrow> ('a, 's) managed result"
where
  "managed_deallocate C first8 pt m = (case pt of
     None \<Rightarrow> Inl NullDeref
   | Some i \<Rightarrow>
       if i < length (store (mg_pool m)) then
         (case object (store (mg_pool m) ! i) of
            Link _ \<Rightarrow> Inl OutOfRange
          | Object v \<Rightarrow>
              let s = on_destroy C v (mg_state m) in
              rbind (deallocate (cell_overlay first8) pt (mg_pool m)) (\<lambda>p. Inr \<lparr>mg_pool = p, mg_state = s\<rparr>))
       else Inl OutOfRange)"

text \<open>\<open>*p\<close>.\<close>

definition managed_read :: "ptr \<Rightarrow> ('a, 's) managed \<Rightarrow> 'a result" where
  "managed_read pt m = (case pt of
     None \<Rightarrow> Inl NullDeref
   | Some i \<Rightarrow>
       if i < length (store (mg_pool m)) then
         (case object (store (mg_pool m) ! i) of Link _ \<Rightarrow> Inl OutOfRange | Object v \<Rightarrow> Inr v)
       else Inl OutOfRange)"

section \<open>Live slots hold objects\<close>

definition object_of :: "'a cell \<Rightarrow> 'a" where
  "object_of c = (case c of Object v \<Rightarrow> v | Link _ \<Rightarrow> undefined)"

definition managed_free :: "('a \<Rightarrow> size_t) \<Rightarrow> ('a, 's) managed \<Rightarrow> nat list" where
  "managed_free first8 m = free_slots (cell_overlay first8) (mg_pool m)"

definition managed_cap :: "('a, 's) managed \<Rightarrow> nat" where
  "managed_cap m = pool_cap (mg_pool m)"

definition managed_contents :: "('a, 's) managed \<Rightarrow> nat \<Rightarrow> 'a" where
  "managed_contents m i = object_of (pool_contents (mg_pool m) i)"

definition managed_ok :: "('a \<Rightarrow> size_t) \<Rightarrow> ('a, 's) managed \<Rightarrow> bool" where
  "managed_ok first8 m \<longleftrightarrow> pool_ok (cell_overlay first8) (mg_pool m) \<and>
     (\<forall>i < managed_cap m. i \<notin> set (managed_free first8 m) \<longrightarrow>
        pool_contents (mg_pool m) i = Object (managed_contents m i))"

lemma managed_allocate_full:
  "managed_ok first8 m \<Longrightarrow> managed_free first8 m = [] \<Longrightarrow> managed_allocate C first8 m v = (None, m)"
  using co.alloc.alloc_full [of first8 "mg_pool m" "Object v"]
  by (simp add: managed_ok_def managed_free_def managed_allocate_def)

lemma managed_allocate_free:
  assumes ok: "managed_ok first8 m" and free: "managed_free first8 m = f # fs"
  obtains m' where "managed_allocate C first8 m v = (Some f, m')" "managed_ok first8 m'"
    "managed_free first8 m' = fs" "managed_cap m' = managed_cap m" "managed_contents m' f = v"
    "\<forall>j. j \<noteq> f \<longrightarrow> managed_contents m' j = managed_contents m j" "mg_state m' = on_construct C v (mg_state m)"
proof -
  from ok have p: "pool_ok (cell_overlay first8) (mg_pool m)" by (simp add: managed_ok_def)
  obtain p' where p': "allocate (cell_overlay first8) (mg_pool m) (Object v) = (Some f, p')"
    "pool_ok (cell_overlay first8) p'" "free_slots (cell_overlay first8) p' = fs" "pool_cap p' = pool_cap (mg_pool m)"
    "pool_contents p' f = Object v" "\<forall>j. j \<noteq> f \<longrightarrow> pool_contents p' j = pool_contents (mg_pool m) j"
    using co.alloc.alloc_free [OF p, of f fs "Object v"] free by (auto simp: managed_free_def)
  let ?m' = "m\<lparr>mg_pool := p', mg_state := on_construct C v (mg_state m)\<rparr>"
  have "pool_contents p' i = Object (object_of (pool_contents p' i))"
    if "i < pool_cap (mg_pool m)" "i \<notin> set fs" for i
  proof (cases "i = f")
    case True
    then show ?thesis using p'(5) by (simp add: object_of_def)
  next
    case False
    then show ?thesis using ok free that p'(6)
      by (simp add: managed_ok_def managed_cap_def managed_contents_def)
  qed
  then have "managed_ok first8 ?m'"
    using p' by (simp add: managed_ok_def managed_free_def managed_cap_def managed_contents_def)
  then show thesis
    using p' by (intro that [of ?m']) (simp_all add: managed_allocate_def managed_free_def managed_cap_def
        managed_contents_def object_of_def)
qed

lemma managed_deallocate_live:
  assumes ok: "managed_ok first8 m" and i: "i < managed_cap m" "i \<notin> set (managed_free first8 m)"
  obtains m' where "managed_deallocate C first8 (Some i) m = Inr m'" "managed_ok first8 m'"
    "managed_free first8 m' = i # managed_free first8 m" "managed_cap m' = managed_cap m"
    "\<forall>j. j \<noteq> i \<longrightarrow> managed_contents m' j = managed_contents m j"
    "mg_state m' = on_destroy C (managed_contents m i) (mg_state m)"
proof -
  from ok have p: "pool_ok (cell_overlay first8) (mg_pool m)" by (simp add: managed_ok_def)
  have o: "object (store (mg_pool m) ! i) = Object (managed_contents m i)" "i < length (store (mg_pool m))"
    using ok i by (simp_all add: managed_ok_def pool_contents_def managed_cap_def pool_cap_def)
  obtain p' where p': "deallocate (cell_overlay first8) (Some i) (mg_pool m) = Inr p'"
    "pool_ok (cell_overlay first8) p'" "free_slots (cell_overlay first8) p' = i # managed_free first8 m"
    "pool_cap p' = pool_cap (mg_pool m)" "\<forall>j. j \<noteq> i \<longrightarrow> pool_contents p' j = pool_contents (mg_pool m) j"
    using co.alloc.dealloc_live [OF p, of i] i by (auto simp: managed_free_def managed_cap_def)
  let ?m' = "\<lparr>mg_pool = p', mg_state = on_destroy C (managed_contents m i) (mg_state m)\<rparr>"
  have "managed_ok first8 ?m'"
    using ok p' by (auto simp: managed_ok_def managed_free_def managed_cap_def managed_contents_def)
  then show thesis
    using p' o by (intro that [of ?m']) (simp_all add: managed_deallocate_def Let_def managed_free_def managed_cap_def
        managed_contents_def)
qed

lemma managed_allocator:
  "slot_allocator (managed_allocate C first8) (managed_deallocate C first8) (managed_free first8) managed_cap
     managed_contents (managed_ok first8)"
proof
  fix m :: "('a, 'b) managed" and v f fs i
  assume ok: "managed_ok first8 m"
  then have p: "pool_ok (cell_overlay first8) (mg_pool m)" by (simp add: managed_ok_def)
  show "managed_free first8 m = [] \<Longrightarrow> managed_allocate C first8 m v = (None, m)"
    using ok by (rule managed_allocate_full)
  show "distinct (managed_free first8 m)"
    using co.alloc.free_distinct [OF p] by (simp add: managed_free_def)
  show "f \<in> set (managed_free first8 m) \<Longrightarrow> f < managed_cap m"
    using co.alloc.free_below [OF p] by (simp add: managed_free_def managed_cap_def)
  show "managed_free first8 m = f # fs \<Longrightarrow> \<exists>m'. managed_allocate C first8 m v = (Some f, m') \<and> managed_ok first8 m' \<and>
      managed_free first8 m' = fs \<and> managed_cap m' = managed_cap m \<and> managed_contents m' f = v \<and>
      (\<forall>j. j \<noteq> f \<longrightarrow> managed_contents m' j = managed_contents m j)"
    using managed_allocate_free [OF ok] by metis
  show "i < managed_cap m \<Longrightarrow> i \<notin> set (managed_free first8 m) \<Longrightarrow>
      \<exists>m'. managed_deallocate C first8 (Some i) m = Inr m' \<and> managed_ok first8 m' \<and>
      managed_free first8 m' = i # managed_free first8 m \<and> managed_cap m' = managed_cap m \<and>
      (\<forall>j. j \<noteq> i \<longrightarrow> managed_contents m' j = managed_contents m j)"
    using managed_deallocate_live [OF ok] by metis
qed

interpretation mg: slot_allocator "managed_allocate C first8" "managed_deallocate C first8" "managed_free first8"
  managed_cap managed_contents "managed_ok first8" for C first8
  by (rule managed_allocator)

lemma managed_new_ok:
  assumes "n > 0"
  obtains m where "managed_new first8 n s = Inr m" "managed_ok first8 m" "managed_free first8 m = [0..<unat n]"
    "managed_cap m = unat n" "mg_state m = s"
proof -
  obtain p where p: "mem_pool_new (cell_overlay first8) (Link 0) n = Inr p" "pool_repr (cell_overlay first8) p [0..<unat n]"
    "pool_cap p = unat n" using assms by (rule co.mem_pool_new_repr)
  let ?m = "\<lparr>mg_pool = p, mg_state = s\<rparr>"
  have "managed_ok first8 ?m" "managed_free first8 ?m = [0..<unat n]" "managed_cap ?m = unat n"
    using p(2,3) by (auto simp: managed_ok_def managed_free_def managed_cap_def pool_repr_ok pool_repr_free_slots)
  then show thesis using p(1) by (intro that [of ?m]) (simp_all add: managed_new_def)
qed

section \<open>Every object is destroyed once\<close>

text \<open>A class that keeps a ledger: all objects constructed so far, and all objects destroyed.\<close>

definition ledger :: "('a, 'a multiset \<times> 'a multiset) class_of" where
  "ledger = \<lparr>on_construct = (\<lambda>v (c, d). (add_mset v c, d)), on_destroy = (\<lambda>v (c, d). (c, add_mset v d))\<rparr>"

text \<open>The objects that live in the pool.\<close>

definition living :: "('a \<Rightarrow> size_t) \<Rightarrow> ('a, 's) managed \<Rightarrow> 'a multiset" where
  "living first8 m = image_mset (managed_contents m) (mset_set ({..<managed_cap m} - set (managed_free first8 m)))"

lemma living_new: "managed_free first8 m = [0..<managed_cap m] \<Longrightarrow> living first8 m = {#}"
  by (simp add: living_def atLeast0LessThan)

lemma living_insert:
  assumes "A = insert f B" and "f \<notin> B" and "finite B"
    and "\<forall>j. j \<noteq> f \<longrightarrow> managed_contents m' j = managed_contents m j"
  shows "image_mset (managed_contents m') (mset_set A) =
    add_mset (managed_contents m' f) (image_mset (managed_contents m) (mset_set B))"
proof -
  have "image_mset (managed_contents m') (mset_set B) = image_mset (managed_contents m) (mset_set B)"
    using assms(2-4) by (intro image_mset_cong) auto
  with assms(1-3) show ?thesis by simp
qed

lemma living_allocate:
  assumes ok: "managed_ok first8 m" and free: "managed_free first8 m = f # fs"
  shows "living first8 (snd (managed_allocate C first8 m v)) = add_mset v (living first8 m)"
proof -
  obtain m' where m': "managed_allocate C first8 m v = (Some f, m')"
    "managed_free first8 m' = fs" "managed_cap m' = managed_cap m" "managed_contents m' f = v"
    "\<forall>j. j \<noteq> f \<longrightarrow> managed_contents m' j = managed_contents m j"
    using managed_allocate_free [OF ok free, of C v] by metis
  have "f < managed_cap m" "f \<notin> set fs" using mg.free_below [OF ok] mg.free_distinct [OF ok] free by auto
  then have "{..<managed_cap m} - set fs = insert f ({..<managed_cap m} - set (f # fs))" by auto
  from living_insert [OF this _ _ m'(5)] have "living first8 m' = add_mset v (living first8 m)"
    unfolding living_def m'(2-4) free by simp
  then show ?thesis by (simp add: m'(1))
qed

lemma living_deallocate:
  assumes ok: "managed_ok first8 m" and i: "i < managed_cap m" "i \<notin> set (managed_free first8 m)"
    and m': "managed_deallocate C first8 (Some i) m = Inr m'"
  shows "living first8 m = add_mset (managed_contents m i) (living first8 m')"
proof -
  obtain m1 where m1: "managed_deallocate C first8 (Some i) m = Inr m1" "managed_free first8 m1 = i # managed_free first8 m"
    "managed_cap m1 = managed_cap m" "\<forall>j. j \<noteq> i \<longrightarrow> managed_contents m1 j = managed_contents m j"
    using managed_deallocate_live [OF ok i, of C] by metis
  have "m1 = m'" using m1(1) m' by simp
  note f = m1(2-4) [unfolded this]
  have A: "{..<managed_cap m} - set (managed_free first8 m) =
      insert i ({..<managed_cap m} - set (i # managed_free first8 m))" using i by auto
  have "\<forall>j. j \<noteq> i \<longrightarrow> managed_contents m j = managed_contents m' j" using f(3) by simp
  from living_insert [OF A _ _ this] show ?thesis unfolding living_def f(1,2) by simp
qed

lemma ledger_run:
  assumes "managed_ok first8 m" and "valid_requests (managed_cap m) rs (managed_free first8 m)"
    and "fst (mg_state m) = snd (mg_state m) + living first8 m"
  shows "\<exists>m'. pool_run (managed_allocate ledger first8) (managed_deallocate ledger first8) rs m =
      Inr (fst (free_run rs (managed_free first8 m)), m') \<and>
    managed_ok first8 m' \<and> managed_free first8 m' = snd (free_run rs (managed_free first8 m)) \<and>
    managed_cap m' = managed_cap m \<and> fst (mg_state m') = snd (mg_state m') + living first8 m'"
  using assms
proof (induction rs arbitrary: m)
  case (Cons r rs)
  show ?case
  proof (cases r)
    case (Alloc v)
    show ?thesis
    proof (cases "managed_free first8 m")
      case Nil
      then show ?thesis using Cons.IH [of m] Cons.prems managed_allocate_full [OF Cons.prems(1) Nil, of ledger v]
        by (fastforce simp: Alloc split: prod.splits)
    next
      case (Cons f fs)
      obtain m1 where m1: "managed_allocate ledger first8 m v = (Some f, m1)" "managed_ok first8 m1"
        "managed_free first8 m1 = fs" "managed_cap m1 = managed_cap m" "mg_state m1 = on_construct ledger v (mg_state m)"
        using managed_allocate_free [OF Cons.prems(1) Cons, of ledger v] by metis
      have "fst (mg_state m1) = snd (mg_state m1) + living first8 m1"
        using living_allocate [OF Cons.prems(1) Cons, of ledger v] Cons.prems(3) m1(1,5)
        by (simp add: ledger_def split: prod.splits)
      with Cons.IH [of m1] m1 Cons.prems(2) show ?thesis
        by (fastforce simp: Alloc Cons split: prod.splits)
    qed
  next
    case (Dealloc i)
    then have i: "i < managed_cap m" "i \<notin> set (managed_free first8 m)" using Cons.prems(2) by simp_all
    obtain m1 where m1: "managed_deallocate ledger first8 (Some i) m = Inr m1" "managed_ok first8 m1"
      "managed_free first8 m1 = i # managed_free first8 m" "managed_cap m1 = managed_cap m"
      "mg_state m1 = on_destroy ledger (managed_contents m i) (mg_state m)"
      using managed_deallocate_live [OF Cons.prems(1) i, of ledger] by metis
    have "fst (mg_state m1) = snd (mg_state m1) + living first8 m1"
      using living_deallocate [OF Cons.prems(1) i m1(1)] Cons.prems(3) m1(5)
      by (simp add: ledger_def split: prod.splits)
    with Cons.IH [of m1] m1 Cons.prems(2) show ?thesis by (simp add: Dealloc)
  qed
qed simp

text \<open>
  C24: Every object is destroyed exactly once. For objects of any type, whatever a well-behaved client
  allocates and gives back: no destructor is run on storage that holds no object; the objects constructed so
  far are those destroyed so far and those that live in the pool, which are as many as the slots in use. So a
  client that has given everything back leaves nothing undestroyed; what it has not given back is never
  destroyed, since the pool itself destroys nothing.
\<close>

theorem objects_destroyed_once:
  fixes rs :: "'a request list" and first8 :: "'a \<Rightarrow> size_t"
  assumes "n > 0" and "valid_requests (unat n) rs [0..<unat n]"
  shows "\<exists>m m'. managed_new first8 n ({#}, {#}) = Inr m \<and>
    pool_run (managed_allocate ledger first8) (managed_deallocate ledger first8) rs m =
      Inr (fst (free_run rs [0..<unat n]), m') \<and>
    fst (mg_state m') = snd (mg_state m') + living first8 m' \<and>
    size (living first8 m') + length (snd (free_run rs [0..<unat n])) = unat n"
proof -
  obtain m :: "('a, 'a multiset \<times> 'a multiset) managed" where m:
    "managed_new first8 n ({#}, {#}) = Inr m" "managed_ok first8 m" "managed_free first8 m = [0..<unat n]"
    "managed_cap m = unat n" "mg_state m = ({#}, {#})" using assms(1) by (rule managed_new_ok)
  obtain m' where m': "pool_run (managed_allocate ledger first8) (managed_deallocate ledger first8) rs m =
      Inr (fst (free_run rs [0..<unat n]), m')" "managed_ok first8 m'"
    "managed_free first8 m' = snd (free_run rs [0..<unat n])" "managed_cap m' = unat n"
    "fst (mg_state m') = snd (mg_state m') + living first8 m'"
    using ledger_run [OF m(2), of rs] living_new [of first8 m] m(3-5) assms(2) by auto
  have "size (living first8 m') + length (snd (free_run rs [0..<unat n])) = unat n"
    using mg.card_live [OF m'(2)] m'(3,4) by (simp add: living_def mg.live_def)
  with m(1) m'(1,5) show ?thesis by blast
qed

text \<open>Two strings, the first given back and its slot filled again: one destroyed, two living.\<close>

definition string_requests :: "string request list" where
  "string_requests = [Alloc ''bid'', Alloc ''ask'', Dealloc 0, Alloc ''mid'', Alloc ''late'']"

corollary objects_destroyed_once_sample:
  "\<exists>m m'. managed_new (\<lambda>_. 0) 2 ({#}, {#}) = Inr m \<and>
    pool_run (managed_allocate ledger (\<lambda>_. 0)) (managed_deallocate ledger (\<lambda>_. 0)) string_requests m =
      Inr ([Some 0, Some 1, Some 0, None], m') \<and>
    fst (mg_state m') = snd (mg_state m') + living (\<lambda>_. 0) m' \<and> size (living (\<lambda>_. 0) m') = 2"
proof -
  have r: "valid_requests (unat (2 :: size_t)) string_requests [0..<unat (2 :: size_t)]"
    "free_run string_requests [0..<unat (2 :: size_t)] = ([Some 0, Some 1, Some 0, None], [])"
    by code_simp+
  from objects_destroyed_once [of 2 string_requests "\<lambda>_. 0", OF _ r(1), unfolded r(2)] show ?thesis by simp
qed

end
