(* ===== verification/Byte_Memory.thy ===== *)
theory Byte_Memory
  imports Prelude
begin

text \<open>
  Memory as the machine has it: words as runs of bytes, little end first as on x86-64 and AArch64, reads and
  writes of runs of bytes, and the rules by which a compiler lays out the members of a structure. Both pools
  reinterpret the same bytes as an object, as a link and as an element, which the theories of the
  pools abstract to slots; here is what they abstract from.
\<close>

section \<open>Words as bytes\<close>

type_synonym byte = "8 word"

fun le_bytes :: "nat \<Rightarrow> u64 \<Rightarrow> byte list" where
  "le_bytes 0 w = []"
| "le_bytes (Suc n) w = ucast w # le_bytes n (drop_bit 8 w)"

fun le_word :: "byte list \<Rightarrow> u64" where
  "le_word [] = 0"
| "le_word (b # bs) = or (ucast b) (push_bit 8 (le_word bs))"

lemma length_le_bytes [simp]: "length (le_bytes n w) = n"
  by (induction n arbitrary: w) simp_all

lemma low_byte_rest: "or (ucast (ucast (w :: u64) :: byte)) (push_bit 8 (take_bit k (drop_bit 8 w))) = take_bit (8 + k) w"
  by (rule bit_word_eqI) (auto simp: bit_simps)

lemma le_word_bytes: "le_word (le_bytes n w) = take_bit (8 * n) w"
proof (induction n arbitrary: w)
  case (Suc n)
  then show ?case using low_byte_rest [of w "8 * n"] by simp
qed simp

lemma le_word_bytes_8 [simp]: "le_word (le_bytes 8 w) = w"
  using le_word_bytes [of 8 w] by (simp add: take_bit_word_eq_self)

section \<open>Runs of bytes\<close>

definition read_at :: "nat \<Rightarrow> nat \<Rightarrow> byte list \<Rightarrow> byte list" where
  "read_at off n m = take n (drop off m)"

definition write_at :: "nat \<Rightarrow> byte list \<Rightarrow> byte list \<Rightarrow> byte list" where
  "write_at off bs m = take off m @ bs @ drop (off + length bs) m"

lemma length_write_at [simp]: "off + length bs \<le> length m \<Longrightarrow> length (write_at off bs m) = length m"
  by (simp add: write_at_def)

lemma read_write_same: "off \<le> length m \<Longrightarrow> n = length bs \<Longrightarrow> read_at off n (write_at off bs m) = bs"
  by (simp add: read_at_def write_at_def)

lemma nth_write_at:
  "off + length bs \<le> length m \<Longrightarrow>
     write_at off bs m ! k = (if off \<le> k \<and> k < off + length bs then bs ! (k - off) else m ! k)"
  by (auto simp: write_at_def nth_append not_less add.commute intro!: arg_cong [where f = "\<lambda>k. m ! k"])

lemma read_write_other:
  assumes "off + length bs \<le> length m" and "p + n \<le> off \<or> off + length bs \<le> p"
  shows "read_at p n (write_at off bs m) = read_at p n m"
  unfolding read_at_def using assms by (intro nth_equalityI) (auto simp: nth_write_at)

section \<open>The layout of a structure\<close>

text \<open>\<open>sizeof\<close> and \<open>alignof\<close> of a type.\<close>

record ctype =
  size_of :: nat
  align_of :: nat

definition round_up :: "nat \<Rightarrow> nat \<Rightarrow> nat" where
  "round_up n a = (n + a - 1) div a * a"

text \<open>
  The members in the order of their declaration, each at the next multiple of its alignment; the size of
  the structure is rounded up to the largest alignment.
\<close>

fun place_fields :: "nat \<Rightarrow> ctype list \<Rightarrow> nat list \<times> nat" where
  "place_fields k [] = ([], k)"
| "place_fields k (T # Ts) =
     (let off = round_up k (align_of T);
          (offs, stop) = place_fields (off + size_of T) Ts
      in (off # offs, stop))"

definition field_offsets :: "ctype list \<Rightarrow> nat list" where
  "field_offsets Ts = fst (place_fields 0 Ts)"

definition struct_of :: "ctype list \<Rightarrow> ctype" where
  "struct_of Ts =
     (let a = fold max (map align_of Ts) 1
      in \<lparr>size_of = round_up (snd (place_fields 0 Ts)) a, align_of = a\<rparr>)"

lemma round_up_least: "0 < a \<Longrightarrow> n \<le> round_up n a" "0 < a \<Longrightarrow> round_up n a < n + a"
proof -
  assume "0 < a"
  have "(n + a - 1) div a * a + (n + a - 1) mod a = n + a - 1" by simp
  moreover have "(n + a - 1) mod a < a" using \<open>0 < a\<close> by simp
  ultimately show "n \<le> round_up n a" "round_up n a < n + a" using \<open>0 < a\<close> unfolding round_up_def by linarith+
qed

lemma round_up_dvd [simp]: "a dvd round_up n a"
  by (simp add: round_up_def)

lemma round_up_0 [simp]: "0 < a \<Longrightarrow> round_up 0 a = 0"
  by (simp add: round_up_def)

lemma round_up_1: "0 < a \<Longrightarrow> round_up (Suc 0) a = a"
  by (simp add: round_up_def)

text \<open>What the language demands of every type: a positive size that is a multiple of its alignment, a power of two.\<close>

definition complete_type :: "ctype \<Rightarrow> bool" where
  "complete_type T \<longleftrightarrow> 0 < size_of T \<and> align_of T dvd size_of T \<and> (\<exists>k. align_of T = 2 ^ k)"

lemma complete_type_align: "complete_type T \<Longrightarrow> 0 < align_of T"
  by (auto simp: complete_type_def)

lemma power_of_two_max: "\<exists>k. (a :: nat) = 2 ^ k \<Longrightarrow> \<exists>k. b = 2 ^ k \<Longrightarrow> a dvd max a b \<and> b dvd max a b \<and> (\<exists>k. max a b = 2 ^ k)"
  by (auto simp: max_def le_imp_power_dvd)

definition c_bool :: ctype where
  "c_bool = \<lparr>size_of = 1, align_of = 1\<rparr>"

definition c_u32 :: ctype where
  "c_u32 = \<lparr>size_of = 4, align_of = 4\<rparr>"

definition c_u64 :: ctype where
  "c_u64 = \<lparr>size_of = 8, align_of = 8\<rparr>"

lemma c_u64_complete: "complete_type c_u64"
  unfolding complete_type_def c_u64_def by (auto intro: exI [of _ 3])

end
