(* ===== verification/Pool_Bytes.thy ===== *)
theory Pool_Bytes
  imports Byte_Memory Slot_Allocator
begin

text \<open>
  The two pools on the bytes of their vectors: where \<open>project/mem_pool.hpp\<close> and
  \<open>project/mem_pool_separate_free_structure.hpp\<close> place the objects, the links and the flags, and their
  operations as loads, stores and pointer arithmetic on 64-bit addresses. That these are a slot allocator, for
  any type of objects, is what entitles \<open>Mem_Pool\<close> and \<open>Mem_Pool_Separate\<close> to speak of slots.
\<close>

section \<open>Elements\<close>

text \<open>An element: its size and alignment, and where its object, its link and its flag are.\<close>

record layout =
  lay_size :: nat
  lay_align :: nat
  lay_object :: nat
  lay_link :: nat
  lay_flag :: "nat option"

definition k_storage_size :: "ctype \<Rightarrow> nat" where
  "k_storage_size T = (if size_of T > 8 then size_of T else 8)"

text \<open>\<open>alignas(T) alignas(std::size_t) unsigned char object[kStorageSize]\<close>, which starts with the link.\<close>

definition object_storage :: "ctype \<Rightarrow> ctype" where
  "object_storage T = \<lparr>size_of = k_storage_size T, align_of = max (align_of T) 8\<rparr>"

definition element_layout :: "ctype \<Rightarrow> layout" where
  "element_layout T =
     (let fields = [c_bool, object_storage T];
          off = field_offsets fields ! 1
      in \<lparr>lay_size = size_of (struct_of fields), lay_align = align_of (struct_of fields),
          lay_object = off, lay_link = off, lay_flag = Some (field_offsets fields ! 0)\<rparr>)"

text \<open>\<open>alignas(T) unsigned char storage[sizeof(T)]\<close>, and the link in a member of its own.\<close>

definition block_layout :: "ctype \<Rightarrow> layout" where
  "block_layout T =
     (let fields = [T, c_u64]
      in \<lparr>lay_size = size_of (struct_of fields), lay_align = align_of (struct_of fields),
          lay_object = field_offsets fields ! 0, lay_link = field_offsets fields ! 1, lay_flag = None\<rparr>)"

section \<open>Loads and stores in the vector\<close>

record byte_pool =
  bp_base :: u64
  bp_count :: size_t
  bp_mem :: "byte list"
  bp_next :: size_t

definition get_link :: "layout \<Rightarrow> nat \<Rightarrow> byte list \<Rightarrow> size_t" where
  "get_link L i m = le_word (read_at (i * lay_size L + lay_link L) 8 m)"

definition set_link :: "layout \<Rightarrow> size_t \<Rightarrow> nat \<Rightarrow> byte list \<Rightarrow> byte list" where
  "set_link L w i m = write_at (i * lay_size L + lay_link L) (le_bytes 8 w) m"

definition set_flag :: "layout \<Rightarrow> bool \<Rightarrow> nat \<Rightarrow> byte list \<Rightarrow> byte list" where
  "set_flag L free i m = (case lay_flag L of
     None \<Rightarrow> m
   | Some f \<Rightarrow> write_at (i * lay_size L + f) [if free then 1 else 0] m)"

definition get_flag :: "layout \<Rightarrow> nat \<Rightarrow> byte list \<Rightarrow> byte list" where
  "get_flag L i m = (case lay_flag L of None \<Rightarrow> [] | Some f \<Rightarrow> read_at (i * lay_size L + f) 1 m)"

definition get_object :: "layout \<Rightarrow> nat \<Rightarrow> nat \<Rightarrow> byte list \<Rightarrow> byte list" where
  "get_object L n i m = read_at (i * lay_size L + lay_object L) n m"

definition set_object :: "layout \<Rightarrow> byte list \<Rightarrow> nat \<Rightarrow> byte list \<Rightarrow> byte list" where
  "set_object L bs i m = write_at (i * lay_size L + lay_object L) bs m"

text \<open>The address of the object of an element.\<close>

definition slot_addr :: "layout \<Rightarrow> byte_pool \<Rightarrow> nat \<Rightarrow> u64" where
  "slot_addr L b i = bp_base b + word_of_nat (i * lay_size L + lay_object L)"

section \<open>Operations\<close>

text \<open>
  The vector of value-initialised elements, and the loop of the constructor. A failed \<open>ASSERT\<close> ends the process.
\<close>

definition fresh_element :: "layout \<Rightarrow> byte list" where
  "fresh_element L = set_flag L True 0 (replicate (lay_size L) 0)"

definition pool_ASSERT :: "bool \<Rightarrow> 'b \<Rightarrow> 'b result" where
  "pool_ASSERT cond x = (if \<not> cond then Inl Aborted else Inr x)"

lemma pool_ASSERT_simps [simp]: "pool_ASSERT True x = Inr x" "pool_ASSERT False x = Inl Aborted"
  by (simp_all add: pool_ASSERT_def)

definition bytes_new :: "layout \<Rightarrow> u64 \<Rightarrow> size_t \<Rightarrow> byte_pool result" where
  "bytes_new L base num_elems =
     pool_ASSERT (num_elems > 0)
       \<lparr>bp_base = base, bp_count = num_elems,
        bp_mem = fold (\<lambda>i m. set_link L (word_of_nat i + 1) i (set_flag L True i m)) [0..<unat num_elems]
                   (concat (replicate (unat num_elems) (fresh_element L))),
        bp_next = 0\<rparr>"

text \<open>\<open>allocate\<close> answers an address, 0 for \<open>nullptr\<close>.\<close>

definition bytes_allocate :: "layout \<Rightarrow> byte list \<Rightarrow> byte_pool \<Rightarrow> u64 \<times> byte_pool" where
  "bytes_allocate L bs b =
     (if bp_next b \<ge> bp_count b then (0, b)
      else
        let i = unat (bp_next b)
        in (slot_addr L b i,
            b\<lparr>bp_next := get_link L i (bp_mem b), bp_mem := set_object L bs i (set_flag L False i (bp_mem b))\<rparr>))"

text \<open>
  \<open>deallocate\<close> steps back from the object to its element and divides by the size of an element. An address
  that is not the object of an element of the vector is a wild pointer.
\<close>

definition bytes_deallocate :: "layout \<Rightarrow> u64 \<Rightarrow> byte_pool \<Rightarrow> byte_pool result" where
  "bytes_deallocate L addr b =
     (let elem = addr - word_of_nat (lay_object L);
          off = unat (elem - bp_base b)
      in if off mod lay_size L = 0 \<and> off < length (bp_mem b) then
           let i = off div lay_size L
           in Inr (b\<lparr>bp_mem := set_link L (bp_next b) i (set_flag L True i (bp_mem b)), bp_next := word_of_nat i\<rparr>)
         else Inl (if addr = 0 then NullDeref else OutOfRange))"

text \<open>The operations of the two classes, over objects that are encoded as bytes.\<close>

definition pool_bytes_new :: "ctype \<Rightarrow> u64 \<Rightarrow> size_t \<Rightarrow> byte_pool result" where
  "pool_bytes_new T = bytes_new (element_layout T)"

definition pool_bytes_allocate :: "ctype \<Rightarrow> byte list \<Rightarrow> byte_pool \<Rightarrow> u64 \<times> byte_pool" where
  "pool_bytes_allocate T = bytes_allocate (element_layout T)"

definition pool_bytes_deallocate :: "ctype \<Rightarrow> u64 \<Rightarrow> byte_pool \<Rightarrow> byte_pool result" where
  "pool_bytes_deallocate T = bytes_deallocate (element_layout T)"

definition sep_bytes_new :: "ctype \<Rightarrow> u64 \<Rightarrow> size_t \<Rightarrow> byte_pool result" where
  "sep_bytes_new T = bytes_new (block_layout T)"

definition sep_bytes_allocate :: "ctype \<Rightarrow> byte list \<Rightarrow> byte_pool \<Rightarrow> u64 \<times> byte_pool" where
  "sep_bytes_allocate T = bytes_allocate (block_layout T)"

definition sep_bytes_deallocate :: "ctype \<Rightarrow> u64 \<Rightarrow> byte_pool \<Rightarrow> byte_pool result" where
  "sep_bytes_deallocate T = bytes_deallocate (block_layout T)"

text \<open>A client that keeps the addresses it is given; it gives back the address of a slot.\<close>

fun addr_run :: "layout \<Rightarrow> ('a \<Rightarrow> byte list) \<Rightarrow> 'a request list \<Rightarrow> byte_pool \<Rightarrow> (u64 list \<times> byte_pool) result" where
  "addr_run L enc [] b = Inr ([], b)"
| "addr_run L enc (Alloc v # rs) b =
     (case bytes_allocate L (enc v) b of (addr, b1) \<Rightarrow>
        rbind (addr_run L enc rs b1) (\<lambda>(out, b2). Inr (addr # out, b2)))"
| "addr_run L enc (Dealloc i # rs) b = rbind (bytes_deallocate L (slot_addr L b i) b) (addr_run L enc rs)"

section \<open>Addresses as slots\<close>

definition slot_of :: "layout \<Rightarrow> byte_pool \<Rightarrow> u64 \<Rightarrow> nat" where
  "slot_of L b addr = unat (addr - bp_base b) div lay_size L"

definition slot_pointer :: "layout \<Rightarrow> byte_pool \<Rightarrow> ptr \<Rightarrow> u64" where
  "slot_pointer L b p = (case p of None \<Rightarrow> 0 | Some i \<Rightarrow> slot_addr L b i)"

definition slot_allocate :: "layout \<Rightarrow> ('a \<Rightarrow> byte list) \<Rightarrow> byte_pool \<Rightarrow> 'a \<Rightarrow> ptr \<times> byte_pool" where
  "slot_allocate L enc b v = (case bytes_allocate L (enc v) b of (addr, b') \<Rightarrow>
     (if addr = 0 then None else Some (slot_of L b addr), b'))"

definition slot_deallocate :: "layout \<Rightarrow> ptr \<Rightarrow> byte_pool \<Rightarrow> byte_pool result" where
  "slot_deallocate L p b = bytes_deallocate L (slot_pointer L b p) b"

definition slot_read :: "layout \<Rightarrow> nat \<Rightarrow> (byte list \<Rightarrow> 'a) \<Rightarrow> ptr \<Rightarrow> byte_pool \<Rightarrow> 'a result" where
  "slot_read L n dec p b = (case p of
     None \<Rightarrow> Inl NullDeref
   | Some i \<Rightarrow> if i < unat (bp_count b) then Inr (dec (get_object L n i (bp_mem b))) else Inl OutOfRange)"

definition bytes_cap :: "byte_pool \<Rightarrow> nat" where
  "bytes_cap b = unat (bp_count b)"

definition bytes_free :: "layout \<Rightarrow> byte_pool \<Rightarrow> nat list" where
  "bytes_free L b = free_walk (\<lambda>i. get_link L i (bp_mem b)) [0..<bytes_cap b] (bytes_cap b) (bp_next b)"

definition bytes_contents :: "layout \<Rightarrow> nat \<Rightarrow> (byte list \<Rightarrow> 'a) \<Rightarrow> byte_pool \<Rightarrow> nat \<Rightarrow> 'a" where
  "bytes_contents L n dec b i = dec (get_object L n i (bp_mem b))"

text \<open>The vector lies in the address space, not at 0, and the links form a list without repetition.\<close>

definition bytes_fit :: "layout \<Rightarrow> u64 \<Rightarrow> nat \<Rightarrow> bool" where
  "bytes_fit L base n \<longleftrightarrow> base \<noteq> 0 \<and> unat base + n * lay_size L \<le> 2 ^ 64"

definition bytes_repr :: "layout \<Rightarrow> byte_pool \<Rightarrow> nat list \<Rightarrow> bool" where
  "bytes_repr L b fs \<longleftrightarrow>
     length (bp_mem b) = bytes_cap b * lay_size L \<and> bytes_fit L (bp_base b) (bytes_cap b) \<and> distinct fs \<and>
     chain (\<lambda>i. get_link L i (bp_mem b)) [0..<bytes_cap b] (bp_next b) fs"

definition bytes_ok :: "layout \<Rightarrow> byte_pool \<Rightarrow> bool" where
  "bytes_ok L b \<longleftrightarrow> bytes_repr L b (bytes_free L b)"

lemma bytes_cap_bound: "bytes_cap b < 2 ^ 64"
  using unsigned_less [of "bp_count b"] by (simp add: bytes_cap_def)

lemma bytes_repr_below: "bytes_repr L b fs \<Longrightarrow> f \<in> set fs \<Longrightarrow> f < bytes_cap b"
  by (auto simp: bytes_repr_def dest: chain_below)

lemma bytes_repr_free: "bytes_repr L b fs \<Longrightarrow> bytes_free L b = fs"
  unfolding bytes_free_def
  by (rule chain_walk) (auto simp: bytes_repr_def dest: chain_below intro!: distinct_below_length)

lemma bytes_repr_ok: "bytes_repr L b fs \<Longrightarrow> bytes_ok L b"
  by (simp add: bytes_ok_def bytes_repr_free)

lemma chain_links:
  "\<forall>f \<in> set fs. lk' (st ! f) = lk (st ! f) \<Longrightarrow> chain lk st i fs \<Longrightarrow> chain lk' st i fs"
  by (induction fs arbitrary: i) auto

text \<open>What a client holds after its requests: the slots it was given and has not given back.\<close>

fun held :: "'a request list \<Rightarrow> nat list \<Rightarrow> (nat \<Rightarrow> 'a option) \<Rightarrow> nat \<Rightarrow> 'a option" where
  "held [] fs h = h"
| "held (Alloc v # rs) [] h = held rs [] h"
| "held (Alloc v # rs) (f # fs) h = held rs fs (h(f \<mapsto> v))"
| "held (Dealloc i # rs) fs h = held rs (i # fs) (h(i := None))"

section \<open>Elements that do not overlap\<close>

text \<open>
  What a layout must provide for objects of \<open>n\<close> bytes: object, link and flag lie within the element, and
  the flag apart from both. The link may overlay the object.
\<close>

locale element_of =
  fixes L :: layout and n :: nat
  assumes object_fits: "lay_object L + n \<le> lay_size L" "0 < n"
    and link_fits: "lay_link L + 8 \<le> lay_size L"
    and flag_fits: "lay_flag L = Some f \<Longrightarrow> f < lay_size L \<and> (f < lay_link L \<or> lay_link L + 8 \<le> f) \<and>
      (f < lay_object L \<or> lay_object L + n \<le> f)"
begin

lemma size_pos: "0 < lay_size L"
  using object_fits by linarith

lemma within: "i < k \<Longrightarrow> p + q \<le> lay_size L \<Longrightarrow> length m = k * lay_size L \<Longrightarrow> i * lay_size L + p + q \<le> length m"
proof -
  assume "i < k" and p: "p + q \<le> lay_size L" and m: "length m = k * lay_size L"
  then have "Suc i * lay_size L \<le> length m" unfolding m by (intro mult_le_mono1) simp
  with p show ?thesis by simp
qed

lemma apart:
  assumes "i \<noteq> j" "p + q \<le> lay_size L" "p' + q' \<le> lay_size L"
  shows "i * lay_size L + p + q \<le> j * lay_size L + p' \<or> j * lay_size L + p' + q' \<le> i * lay_size L + p"
proof -
  consider "Suc i \<le> j" | "Suc j \<le> i" using assms(1) by linarith
  then show ?thesis
  proof cases
    case 1
    then have "Suc i * lay_size L \<le> j * lay_size L" by (rule mult_le_mono1)
    with assms(2) show ?thesis by simp
  next
    case 2
    then have "Suc j * lay_size L \<le> i * lay_size L" by (rule mult_le_mono1)
    with assms(3) show ?thesis by simp
  qed
qed

text \<open>Lengths are kept, and each access sees only what was written at its own place.\<close>

lemma lengths:
  assumes "i < k" "length m = k * lay_size L"
  shows "length (set_link L w i m) = k * lay_size L" "length (set_flag L c i m) = k * lay_size L"
    and "length bs = n \<Longrightarrow> length (set_object L bs i m) = k * lay_size L"
  using within [OF assms(1) link_fits assms(2)] within [OF assms(1) object_fits(1) assms(2)]
    within [OF assms(1) _ assms(2), of _ 1] flag_fits assms(2)
  by (auto simp: set_link_def set_flag_def set_object_def split: option.splits)

lemma link_after_link:
  assumes "i < k" "length m = k * lay_size L"
  shows "get_link L j (set_link L w i m) = (if i = j then w else get_link L j m)"
proof (cases "i = j")
  case True
  then show ?thesis using within [OF assms(1) link_fits assms(2)]
    by (simp add: get_link_def set_link_def read_write_same)
next
  case False
  then show ?thesis using within [OF assms(1) link_fits assms(2)] apart [OF False link_fits link_fits]
    by (auto simp: get_link_def set_link_def read_write_other)
qed

lemma read_after_flag:
  assumes "i < k" "length m = k * lay_size L" "p + q \<le> lay_size L"
    and "\<And>f. lay_flag L = Some f \<Longrightarrow> f < p \<or> p + q \<le> f"
  shows "read_at (j * lay_size L + p) q (set_flag L c i m) = read_at (j * lay_size L + p) q m"
proof (cases "lay_flag L")
  case (Some f)
  then have f: "f + 1 \<le> lay_size L" using flag_fits [of f] by auto
  have "read_at (j * lay_size L + p) q (write_at (i * lay_size L + f) [if c then 1 else 0] m) =
      read_at (j * lay_size L + p) q m"
  proof (rule read_write_other)
    show "i * lay_size L + f + length [if c then 1 else 0 :: byte] \<le> length m"
      using within [OF assms(1) f assms(2)] by simp
    show "j * lay_size L + p + q \<le> i * lay_size L + f \<or>
        i * lay_size L + f + length [if c then 1 else 0 :: byte] \<le> j * lay_size L + p"
    proof (cases "i = j")
      case True
      then show ?thesis using assms(4) [OF Some] by auto
    next
      case False
      then show ?thesis using apart [OF False f assms(3)] by auto
    qed
  qed
  then show ?thesis by (simp add: set_flag_def Some)
qed (simp add: set_flag_def)

lemma link_after_flag:
  "i < k \<Longrightarrow> length m = k * lay_size L \<Longrightarrow> get_link L j (set_flag L c i m) = get_link L j m"
  unfolding get_link_def using link_fits flag_fits by (subst read_after_flag) auto

lemma link_after_object:
  assumes "i < k" "length m = k * lay_size L" "length bs = n" "i \<noteq> j"
  shows "get_link L j (set_object L bs i m) = get_link L j m"
  using within [OF assms(1) object_fits(1) assms(2)] apart [OF assms(4) object_fits(1) link_fits] assms(3)
  by (auto simp: get_link_def set_object_def read_write_other)

lemma object_after_link:
  assumes "i < k" "length m = k * lay_size L" "i \<noteq> j"
  shows "get_object L n j (set_link L w i m) = get_object L n j m"
  using within [OF assms(1) link_fits assms(2)] apart [OF assms(3) link_fits object_fits(1)]
  by (auto simp: get_object_def set_link_def read_write_other)

lemma object_after_flag:
  "i < k \<Longrightarrow> length m = k * lay_size L \<Longrightarrow> get_object L n j (set_flag L c i m) = get_object L n j m"
  unfolding get_object_def using object_fits flag_fits by (intro read_after_flag) auto

lemma object_after_object:
  assumes "i < k" "length m = k * lay_size L" "length bs = n"
  shows "get_object L n j (set_object L bs i m) = (if i = j then bs else get_object L n j m)"
proof (cases "i = j")
  case True
  then show ?thesis using within [OF assms(1) object_fits(1) assms(2)] assms(3)
    by (simp add: get_object_def set_object_def read_write_same)
next
  case False
  then show ?thesis
    using within [OF assms(1) object_fits(1) assms(2)] apart [OF False object_fits(1) object_fits(1)] assms(3)
    by (auto simp: get_object_def set_object_def read_write_other)
qed

lemma flag_after_flag:
  assumes "i < k" "length m = k * lay_size L"
  shows "get_flag L j (set_flag L c i m) =
    (if i = j \<and> lay_flag L \<noteq> None then [if c then 1 else 0] else get_flag L j m)"
proof (cases "lay_flag L")
  case (Some f)
  then have f: "f + 1 \<le> lay_size L" using flag_fits [of f] by auto
  show ?thesis
  proof (cases "i = j")
    case True
    then show ?thesis using within [OF assms(1) f assms(2)]
      by (simp add: get_flag_def set_flag_def Some read_write_same)
  next
    case False
    then show ?thesis using within [OF assms(1) f assms(2)] apart [OF False f f]
      by (auto simp: get_flag_def set_flag_def Some read_write_other)
  qed
qed (simp add: get_flag_def set_flag_def)

lemma flag_after_write:
  assumes "i < k" "length m = k * lay_size L" "p + length bs \<le> lay_size L"
    and "\<And>f. lay_flag L = Some f \<Longrightarrow> f < p \<or> p + length bs \<le> f"
  shows "get_flag L j (write_at (i * lay_size L + p) bs m) = get_flag L j m"
proof (cases "lay_flag L")
  case (Some f)
  then have f: "f + 1 \<le> lay_size L" using flag_fits [of f] by auto
  have "read_at (j * lay_size L + f) 1 (write_at (i * lay_size L + p) bs m) = read_at (j * lay_size L + f) 1 m"
  proof (rule read_write_other)
    show "i * lay_size L + p + length bs \<le> length m"
      using within [OF assms(1) assms(3) assms(2)] by simp
    show "j * lay_size L + f + 1 \<le> i * lay_size L + p \<or> i * lay_size L + p + length bs \<le> j * lay_size L + f"
    proof (cases "i = j")
      case True
      then show ?thesis using assms(4) [OF Some] by auto
    next
      case False
      then show ?thesis using apart [OF False assms(3) f] by auto
    qed
  qed
  then show ?thesis by (simp add: get_flag_def Some)
qed (simp add: get_flag_def)

lemma flag_after_link:
  "i < k \<Longrightarrow> length m = k * lay_size L \<Longrightarrow> get_flag L j (set_link L w i m) = get_flag L j m"
  unfolding set_link_def using link_fits flag_fits by (intro flag_after_write) auto

lemma flag_after_object:
  "i < k \<Longrightarrow> length m = k * lay_size L \<Longrightarrow> length bs = n \<Longrightarrow>
     get_flag L j (set_object L bs i m) = get_flag L j m"
  unfolding set_object_def using object_fits flag_fits by (intro flag_after_write) auto

text \<open>The object of an element has an address of its own, from which the element is found again.\<close>

lemma slot_addr_unat:
  assumes "bytes_fit L (bp_base b) (bytes_cap b)" "i < bytes_cap b"
  shows "unat (slot_addr L b i) = unat (bp_base b) + i * lay_size L + lay_object L"
proof -
  have "i * lay_size L + lay_object L + n \<le> bytes_cap b * lay_size L"
    using within [OF assms(2) object_fits(1), of "replicate (bytes_cap b * lay_size L) 0"] by simp
  with assms(1) object_fits(2) have "unat (bp_base b) + (i * lay_size L + lay_object L) < 2 ^ 64"
    by (simp add: bytes_fit_def)
  moreover from this have "unat (word_of_nat (i * lay_size L + lay_object L) :: u64) = i * lay_size L + lay_object L"
    by (intro unat_word_of_nat) simp
  ultimately show ?thesis unfolding slot_addr_def by (subst unat_add_lem [THEN iffD1]) simp_all
qed

lemma slot_addr_back:
  assumes "bytes_fit L (bp_base b) (bytes_cap b)" "i < bytes_cap b"
  shows "slot_addr L b i \<noteq> 0" "slot_of L b (slot_addr L b i) = i"
    and "unat (slot_addr L b i - word_of_nat (lay_object L) - bp_base b) = i * lay_size L"
proof -
  have u: "i * lay_size L + lay_object L < bytes_cap b * lay_size L"
    using within [OF assms(2) object_fits(1), of "replicate (bytes_cap b * lay_size L) 0"] object_fits(2) by simp
  then have lt: "i * lay_size L + lay_object L < 2 ^ 64" using assms(1) by (simp add: bytes_fit_def)
  have "unat (bp_base b) > 0" using assms(1) by (simp add: bytes_fit_def unat_gt_0)
  then have "unat (slot_addr L b i) > 0" by (simp add: slot_addr_unat [OF assms])
  then show "slot_addr L b i \<noteq> 0" by (simp add: unat_gt_0)
  have "lay_object L < lay_size L" using object_fits by linarith
  moreover have "unat (word_of_nat (i * lay_size L + lay_object L) :: u64) = i * lay_size L + lay_object L"
    using lt by (intro unat_word_of_nat) simp
  ultimately show "slot_of L b (slot_addr L b i) = i"
    by (simp only: slot_of_def slot_addr_def add_diff_cancel_left' div_mult_self3 div_less)
  have "slot_addr L b i - word_of_nat (lay_object L) - bp_base b = word_of_nat (i * lay_size L)"
    by (simp add: slot_addr_def)
  then show "unat (slot_addr L b i - word_of_nat (lay_object L) - bp_base b) = i * lay_size L"
    using lt unat_word_of_nat [where 'a = 64, of "i * lay_size L"] by simp
qed

text \<open>The constructor links every element to the next one.\<close>

lemma length_fresh: "length (fresh_element L) = lay_size L"
  using lengths(2) [of 0 1 "replicate (lay_size L) 0" True] by (simp add: fresh_element_def)

lemma fresh_vector: "length (concat (replicate k (fresh_element L))) = k * lay_size L"
  by (induction k) (simp_all add: length_fresh)

lemma link_loop:
  assumes "length m = k * lay_size L" and "j \<le> k"
  defines "m' \<equiv> fold (\<lambda>i m. set_link L (word_of_nat i + 1) i (set_flag L True i m)) [0..<j] m"
  shows "length m' = k * lay_size L \<and> (\<forall>i < j. get_link L i m' = word_of_nat (Suc i))"
  using assms(2) unfolding m'_def
proof (induction j)
  case (Suc j)
  let ?m = "fold (\<lambda>i m. set_link L (word_of_nat i + 1) i (set_flag L True i m)) [0..<j] m"
  from Suc have j: "j < k" and m: "length ?m = k * lay_size L" and lk: "\<forall>i < j. get_link L i ?m = word_of_nat (Suc i)"
    by auto
  note m1 = lengths(2) [OF j m, of True]
  show ?case
    using lengths(1) [OF j m1] link_after_link [OF j m1] link_after_flag [OF j m] lk
    by (auto simp: less_Suc_eq add.commute)
qed (simp add: assms(1))

lemma bytes_full: "bytes_repr L b [] \<Longrightarrow> bytes_allocate L bs b = (0, b)"
  by (simp add: bytes_repr_def bytes_allocate_def bytes_cap_def word_le_nat_alt)

lemma bytes_allocate_repr:
  assumes "bytes_repr L b (f # fs)" and bs: "length bs = n"
  obtains b' where "bytes_allocate L bs b = (slot_addr L b f, b')" "bytes_repr L b' fs"
    "bytes_cap b' = bytes_cap b" "bp_base b' = bp_base b"
    "\<forall>j. get_object L n j (bp_mem b') = (if j = f then bs else get_object L n j (bp_mem b))"
proof -
  let ?m = "bp_mem b"
  let ?m1 = "set_flag L False f ?m"
  let ?m2 = "set_object L bs f ?m1"
  define b' where "b' = b\<lparr>bp_next := get_link L f ?m, bp_mem := ?m2\<rparr>"
  from assms have f: "unat (bp_next b) = f" "f < bytes_cap b" "f \<notin> set fs" "distinct fs"
    and ch: "chain (\<lambda>i. get_link L i ?m) [0..<bytes_cap b] (get_link L f ?m) fs"
    and m: "length ?m = bytes_cap b * lay_size L" and fit: "bytes_fit L (bp_base b) (bytes_cap b)"
    by (auto simp: bytes_repr_def)
  note m1 = lengths(2) [OF f(2) m, of False]
  have "\<not> bp_count b \<le> bp_next b" using f by (simp add: word_le_nat_alt bytes_cap_def)
  then have al: "bytes_allocate L bs b = (slot_addr L b f, b')"
    by (simp add: bytes_allocate_def Let_def f(1) b'_def)
  have "get_link L j ?m2 = get_link L j ?m" if "j \<noteq> f" for j
    using that link_after_object [OF f(2) m1 bs] link_after_flag [OF f(2) m] by metis
  moreover have "[0..<bytes_cap b] ! j = j" if "j \<in> set fs" for j using chain_below [OF ch that] by simp
  ultimately have "\<forall>j \<in> set fs. get_link L ([0..<bytes_cap b] ! j) ?m2 = get_link L ([0..<bytes_cap b] ! j) ?m"
    using f(3) by metis
  then have "chain (\<lambda>i. get_link L i ?m2) [0..<bytes_cap b] (get_link L f ?m) fs"
    using ch by (rule chain_links)
  then have "bytes_repr L b' fs"
    using f fit lengths(3) [OF f(2) m1 bs] by (simp add: bytes_repr_def b'_def bytes_cap_def)
  moreover have "get_object L n j (bp_mem b') = (if j = f then bs else get_object L n j (bp_mem b))" for j
    using object_after_object [OF f(2) m1 bs, of j] object_after_flag [OF f(2) m, of j]
    by (auto simp: b'_def)
  ultimately show thesis using al by (intro that [of b']) (simp_all add: b'_def bytes_cap_def)
qed

lemma bytes_deallocate_repr:
  assumes "bytes_repr L b fs" and i: "i < bytes_cap b" "i \<notin> set fs"
  obtains b' where "bytes_deallocate L (slot_addr L b i) b = Inr b'" "bytes_repr L b' (i # fs)"
    "bytes_cap b' = bytes_cap b" "bp_base b' = bp_base b"
    "\<forall>j. j \<noteq> i \<longrightarrow> get_object L n j (bp_mem b') = get_object L n j (bp_mem b)"
proof -
  let ?m = "bp_mem b"
  let ?m1 = "set_flag L True i ?m"
  let ?m2 = "set_link L (bp_next b) i ?m1"
  define b' where "b' = b\<lparr>bp_mem := ?m2, bp_next := word_of_nat i\<rparr>"
  from assms have ch: "chain (\<lambda>i. get_link L i ?m) [0..<bytes_cap b] (bp_next b) fs" and ds: "distinct fs"
    and m: "length ?m = bytes_cap b * lay_size L" and fit: "bytes_fit L (bp_base b) (bytes_cap b)"
    by (auto simp: bytes_repr_def)
  note m1 = lengths(2) [OF i(1) m, of True]
  have "i * lay_size L < length ?m" using i(1) m size_pos by simp
  then have de: "bytes_deallocate L (slot_addr L b i) b = Inr b'"
    using size_pos by (simp add: bytes_deallocate_def Let_def slot_addr_back(3) [OF fit i(1)] b'_def)
  have lk: "get_link L j ?m2 = (if i = j then bp_next b else get_link L j ?m)" for j
    using link_after_link [OF i(1) m1] link_after_flag [OF i(1) m] by simp
  have "[0..<bytes_cap b] ! j = j" if "j \<in> set fs" for j using chain_below [OF ch that] by simp
  then have "\<forall>j \<in> set fs. get_link L ([0..<bytes_cap b] ! j) ?m2 = get_link L ([0..<bytes_cap b] ! j) ?m"
    using i(2) lk by auto
  then have "chain (\<lambda>i. get_link L i ?m2) [0..<bytes_cap b] (bp_next b) fs" using ch by (rule chain_links)
  moreover have "unat (word_of_nat i :: size_t) = i"
    using i(1) bytes_cap_bound [of b] by (intro unat_word_of_nat) simp
  ultimately have "bytes_repr L b' (i # fs)"
    using i ds fit lk lengths(1) [OF i(1) m1] by (simp add: bytes_repr_def b'_def bytes_cap_def)
  moreover have "get_object L n j (bp_mem b') = get_object L n j (bp_mem b)" if "j \<noteq> i" for j
    using object_after_link [OF i(1) m1, of j] object_after_flag [OF i(1) m, of j] that
    by (simp add: b'_def)
  ultimately show thesis using de by (intro that [of b']) (simp_all add: b'_def bytes_cap_def)
qed

lemma bytes_new_repr:
  assumes "num > 0" and "bytes_fit L base (unat num)"
  obtains b where "bytes_new L base num = Inr b" "bytes_repr L b [0..<unat num]" "bytes_cap b = unat num"
    "bp_base b = base"
proof -
  define m where "m = fold (\<lambda>i m. set_link L (word_of_nat i + 1) i (set_flag L True i m)) [0..<unat num]
      (concat (replicate (unat num) (fresh_element L)))"
  define b where "b = \<lparr>bp_base = base, bp_count = num, bp_mem = m, bp_next = 0\<rparr>"
  have new: "bytes_new L base num = Inr b" using assms(1) by (simp add: bytes_new_def b_def m_def)
  have m: "length m = unat num * lay_size L" "\<And>i. i < unat num \<Longrightarrow> get_link L i m = word_of_nat (Suc i)"
    using link_loop [OF fresh_vector, of "unat num" "unat num"] by (simp_all add: m_def)
  have "chain (\<lambda>i. get_link L i m) [0..<unat num] (word_of_nat 0) [0..<unat num]"
    using m(2) bytes_cap_bound [of b] by (intro chain_upt) (simp_all add: bytes_cap_def b_def)
  with m(1) assms(2) have "bytes_repr L b [0..<unat num]"
    by (simp add: bytes_repr_def b_def bytes_cap_def)
  then show thesis by (rule that [OF new]) (simp_all add: b_def bytes_cap_def)
qed

text \<open>
  The pool gives a client the addresses of the slots of the stack, and keeps what the client holds.
\<close>

lemma addr_run_spec:
  assumes "bytes_repr L b fs" and "valid_requests (bytes_cap b) rs fs" and enc: "\<forall>v. length (enc v) = n"
    and "\<forall>i v. h i = Some v \<longrightarrow> i \<notin> set fs \<and> get_object L n i (bp_mem b) = enc v"
  shows "\<exists>b'. addr_run L enc rs b = Inr (map (slot_pointer L b) (fst (free_run rs fs)), b') \<and>
    bytes_repr L b' (snd (free_run rs fs)) \<and> bytes_cap b' = bytes_cap b \<and>
    (\<forall>i v. held rs fs h i = Some v \<longrightarrow> get_object L n i (bp_mem b') = enc v)"
  using assms(1,2,4)
proof (induction rs arbitrary: b fs h)
  case (Cons r rs)
  have ptr: "slot_pointer L b' = slot_pointer L b" if "bp_base b' = bp_base b" for b'
    using that by (auto simp: fun_eq_iff slot_pointer_def slot_addr_def split: option.splits)
  show ?case
  proof (cases r)
    case (Alloc v)
    show ?thesis
    proof (cases fs)
      case Nil
      have "bytes_allocate L (enc v) b = (0, b)" using Cons.prems(1) unfolding Nil by (rule bytes_full)
      then show ?thesis using Cons.IH [of b "[]" h] Cons.prems
        by (auto simp: Alloc Nil slot_pointer_def split: prod.splits)
    next
      case (Cons f gs)
      obtain b1 where b1: "bytes_allocate L (enc v) b = (slot_addr L b f, b1)" "bytes_repr L b1 gs"
        "bytes_cap b1 = bytes_cap b" "bp_base b1 = bp_base b"
        "\<forall>j. get_object L n j (bp_mem b1) = (if j = f then enc v else get_object L n j (bp_mem b))"
        using bytes_allocate_repr [OF Cons.prems(1) [unfolded Cons] enc [rule_format, of v]] by metis
      have "f \<notin> set gs" using Cons.prems(1) Cons by (simp add: bytes_repr_def)
      then have h: "\<forall>i w. (h(f \<mapsto> v)) i = Some w \<longrightarrow> i \<notin> set gs \<and> get_object L n i (bp_mem b1) = enc w"
        using Cons.prems(3) b1(5) Cons by (auto split: if_splits)
      have "valid_requests (bytes_cap b1) rs gs" using Cons.prems(2) by (simp add: Alloc Cons b1(3))
      from Cons.IH [OF b1(2) this h] obtain b' where
        "addr_run L enc rs b1 = Inr (map (slot_pointer L b1) (fst (free_run rs gs)), b')"
        "bytes_repr L b' (snd (free_run rs gs))" "bytes_cap b' = bytes_cap b1"
        "\<forall>i w. held rs gs (h(f \<mapsto> v)) i = Some w \<longrightarrow> get_object L n i (bp_mem b') = enc w"
        by blast
      then show ?thesis using b1(1,3) ptr [OF b1(4)]
        by (auto simp: Alloc Cons slot_pointer_def split: prod.splits)
    qed
  next
    case (Dealloc i)
    then have i: "i < bytes_cap b" "i \<notin> set fs" and rs: "valid_requests (bytes_cap b) rs (i # fs)"
      using Cons.prems(2) by simp_all
    obtain b1 where b1: "bytes_deallocate L (slot_addr L b i) b = Inr b1" "bytes_repr L b1 (i # fs)"
      "bytes_cap b1 = bytes_cap b" "bp_base b1 = bp_base b"
      "\<forall>j. j \<noteq> i \<longrightarrow> get_object L n j (bp_mem b1) = get_object L n j (bp_mem b)"
      using bytes_deallocate_repr [OF Cons.prems(1) i] by metis
    have h: "\<forall>j w. (h(i := None)) j = Some w \<longrightarrow> j \<notin> set (i # fs) \<and> get_object L n j (bp_mem b1) = enc w"
      using Cons.prems(3) b1(5) by auto
    from Cons.IH [OF b1(2) _ h] rs [folded b1(3)] obtain b' where
      "addr_run L enc rs b1 = Inr (map (slot_pointer L b1) (fst (free_run rs (i # fs))), b')"
      "bytes_repr L b' (snd (free_run rs (i # fs)))" "bytes_cap b' = bytes_cap b1"
      "\<forall>j w. held rs (i # fs) (h(i := None)) j = Some w \<longrightarrow> get_object L n j (bp_mem b') = enc w"
      by blast
    then show ?thesis using b1(1,3) ptr [OF b1(4)] by (simp add: Dealloc)
  qed
qed simp

end

section \<open>The pools as slot allocators\<close>

text \<open>Objects of a type: their bytes, and the object that bytes stand for.\<close>

locale object_codec =
  fixes enc :: "'a \<Rightarrow> byte list" and dec :: "byte list \<Rightarrow> 'a" and n :: nat
  assumes length_enc: "length (enc v) = n"
    and dec_enc: "dec (enc v) = v"

locale byte_allocator = element_of L n + object_codec enc dec n
  for L n and enc :: "'a \<Rightarrow> byte list" and dec
begin

lemma bytes_slot_allocator:
  "slot_allocator (slot_allocate L enc) (slot_deallocate L) (bytes_free L) bytes_cap (bytes_contents L n dec) (bytes_ok L)"
proof
  fix b :: byte_pool and v f fs i
  assume ok: "bytes_ok L b"
  then have r: "bytes_repr L b (bytes_free L b)" by (simp add: bytes_ok_def)
  then have fit: "bytes_fit L (bp_base b) (bytes_cap b)" by (simp add: bytes_repr_def)
  show "bytes_free L b = [] \<Longrightarrow> slot_allocate L enc b v = (None, b)"
    using r by (simp add: slot_allocate_def bytes_full)
  show "distinct (bytes_free L b)" using r by (simp add: bytes_repr_def)
  show "f \<in> set (bytes_free L b) \<Longrightarrow> f < bytes_cap b" using bytes_repr_below [OF r] .
  show "\<exists>b'. slot_allocate L enc b v = (Some f, b') \<and> bytes_ok L b' \<and> bytes_free L b' = fs \<and>
      bytes_cap b' = bytes_cap b \<and> bytes_contents L n dec b' f = v \<and>
      (\<forall>j. j \<noteq> f \<longrightarrow> bytes_contents L n dec b' j = bytes_contents L n dec b j)" if free: "bytes_free L b = f # fs"
  proof -
    have f: "f < bytes_cap b" using bytes_repr_below [OF r] free by simp
    obtain b' where "bytes_allocate L (enc v) b = (slot_addr L b f, b')" "bytes_repr L b' fs"
      "bytes_cap b' = bytes_cap b" "\<forall>j. get_object L n j (bp_mem b') = (if j = f then enc v else get_object L n j (bp_mem b))"
      using bytes_allocate_repr [OF r [unfolded free] length_enc [of v]] by metis
    then show ?thesis
      by (intro exI [of _ b']) (simp add: slot_allocate_def slot_addr_back [OF fit f] bytes_repr_ok bytes_repr_free bytes_contents_def dec_enc)
  qed
  show "\<exists>b'. slot_deallocate L (Some i) b = Inr b' \<and> bytes_ok L b' \<and> bytes_free L b' = i # bytes_free L b \<and>
      bytes_cap b' = bytes_cap b \<and> (\<forall>j. j \<noteq> i \<longrightarrow> bytes_contents L n dec b' j = bytes_contents L n dec b j)"
    if live: "i < bytes_cap b" "i \<notin> set (bytes_free L b)"
  proof -
    obtain b' where "bytes_deallocate L (slot_addr L b i) b = Inr b'" "bytes_repr L b' (i # bytes_free L b)"
      "bytes_cap b' = bytes_cap b" "\<forall>j. j \<noteq> i \<longrightarrow> get_object L n j (bp_mem b') = get_object L n j (bp_mem b)"
      using bytes_deallocate_repr [OF r live] by metis
    then show ?thesis
      by (intro exI [of _ b']) (simp add: slot_deallocate_def slot_pointer_def bytes_repr_ok bytes_repr_free bytes_contents_def)
  qed
qed

end

sublocale byte_allocator \<subseteq> bytes: slot_allocator "slot_allocate L enc" "slot_deallocate L" "bytes_free L"
  bytes_cap "bytes_contents L n dec" "bytes_ok L"
  by (rule bytes_slot_allocator)

section \<open>The layouts of the two pools\<close>

text \<open>For every complete type the members of an element are where the compiler must put them.\<close>

lemma element_layout_eq:
  "element_layout T =
     (let a = max (align_of T) 8
      in \<lparr>lay_size = round_up (round_up 1 a + k_storage_size T) a, lay_align = a,
          lay_object = round_up 1 a, lay_link = round_up 1 a, lay_flag = Some 0\<rparr>)"
  by (simp add: element_layout_def field_offsets_def struct_of_def object_storage_def c_bool_def Let_def)

lemma block_layout_eq:
  assumes "complete_type T"
  shows "block_layout T =
     (let a = max (align_of T) 8
      in \<lparr>lay_size = round_up (round_up (size_of T) 8 + 8) a, lay_align = a,
          lay_object = 0, lay_link = round_up (size_of T) 8, lay_flag = None\<rparr>)"
  using complete_type_align [OF assms]
  by (simp add: block_layout_def field_offsets_def struct_of_def c_u64_def Let_def max.commute)

lemma element_layout_fits: "complete_type T \<Longrightarrow> element_of (element_layout T) (size_of T)"
proof
  fix f
  assume T: "complete_type T"
  define a where "a = max (align_of T) 8"
  have a: "0 < a" "8 \<le> a" by (simp_all add: a_def)
  have le: "a + k_storage_size T \<le> round_up (a + k_storage_size T) a" using a(1) by (rule round_up_least)
  have L: "element_layout T = \<lparr>lay_size = round_up (a + k_storage_size T) a, lay_align = a, lay_object = a,
      lay_link = a, lay_flag = Some 0\<rparr>"
    by (simp add: element_layout_eq Let_def a_def [symmetric] round_up_1 a)
  have k: "size_of T \<le> k_storage_size T" "8 \<le> k_storage_size T" by (simp_all add: k_storage_size_def)
  show "lay_object (element_layout T) + size_of T \<le> lay_size (element_layout T)" using le k by (simp add: L)
  show "0 < size_of T" using T by (simp add: complete_type_def)
  show "lay_link (element_layout T) + 8 \<le> lay_size (element_layout T)" using le k by (simp add: L)
  show "f < lay_size (element_layout T) \<and> (f < lay_link (element_layout T) \<or> lay_link (element_layout T) + 8 \<le> f) \<and>
      (f < lay_object (element_layout T) \<or> lay_object (element_layout T) + size_of T \<le> f)"
    if "lay_flag (element_layout T) = Some f"
    using that le k a by (simp add: L)
qed

lemma block_layout_fits: "complete_type T \<Longrightarrow> element_of (block_layout T) (size_of T)"
proof
  fix f
  assume T: "complete_type T"
  define a where "a = max (align_of T) 8"
  have a: "0 < a" by (simp add: a_def)
  have le: "round_up (size_of T) 8 + 8 \<le> round_up (round_up (size_of T) 8 + 8) a" using a by (rule round_up_least)
  have L: "block_layout T = \<lparr>lay_size = round_up (round_up (size_of T) 8 + 8) a, lay_align = a, lay_object = 0,
      lay_link = round_up (size_of T) 8, lay_flag = None\<rparr>"
    by (simp add: block_layout_eq [OF T] Let_def a_def)
  show "lay_object (block_layout T) + size_of T \<le> lay_size (block_layout T)"
    using le round_up_least(1) [of 8 "size_of T"] by (simp add: L)
  show "0 < size_of T" using T by (simp add: complete_type_def)
  show "lay_link (block_layout T) + 8 \<le> lay_size (block_layout T)" using le by (simp add: L)
  show "f < lay_size (block_layout T) \<and> (f < lay_link (block_layout T) \<or> lay_link (block_layout T) + 8 \<le> f) \<and>
      (f < lay_object (block_layout T) \<or> lay_object (block_layout T) + size_of T \<le> f)"
    if "lay_flag (block_layout T) = Some f"
    using that by (simp add: L)
qed

end
