(* ===== verification/Order_Bytes.thy ===== *)
theory Order_Bytes
  imports Pool_Bytes Order_Model
begin

text \<open>
  The pool of the book, \<open>MemPool<Order>\<close>, on bytes: where the members of \<open>Order\<close> are, so that the link of a
  free element overlays \<open>order_id\<close> and nothing else, and that the pool on bytes does in every step what the
  pool of slots in \<open>Mem_Pool\<close> does, for every client.
\<close>

section \<open>Pools whose link overlays the object\<close>

text \<open>
  An encoding of objects under which the overlay of the slot model is what the bytes do: the first eight bytes
  are the link, and writing it leaves the other bytes.
\<close>

locale overlaid_pool = element_of L n
  for L n +
  fixes ov :: "'a overlay" and enc :: "'a \<Rightarrow> byte list" and zero :: 'a
  assumes length_enc: "length (enc v) = n"
    and link_at_object: "lay_link L = lay_object L"
    and enc_get: "take 8 (enc v) = le_bytes 8 (get_idx ov v)"
    and enc_set: "enc (set_idx ov w v) = le_bytes 8 w @ drop 8 (enc v)"
    and enc_zero: "enc zero = replicate n 0"
    and flag_first: "lay_flag L = Some 0"
begin

lemma size_8: "8 \<le> n"
  using arg_cong [OF enc_get, of length] length_enc by simp

lemma get_set_idx: "get_idx ov (set_idx ov w v) = w"
  using arg_cong [OF enc_get [of "set_idx ov w v"], of le_word] by (simp add: enc_set)

lemma link_of_object: "get_object L n i m = enc v \<Longrightarrow> get_link L i m = get_idx ov v"
proof -
  assume "get_object L n i m = enc v"
  then have "take 8 (read_at (i * lay_size L + lay_object L) n m) = le_bytes 8 (get_idx ov v)"
    by (simp add: get_object_def enc_get)
  moreover have "take 8 (read_at (i * lay_size L + lay_object L) n m) = read_at (i * lay_size L + lay_object L) 8 m"
    using size_8 by (simp add: read_at_def min_def)
  ultimately show ?thesis by (simp add: get_link_def link_at_object)
qed

lemma object_after_own_link:
  assumes "i < k" "length m = k * lay_size L" "get_object L n i m = enc v"
  shows "get_object L n i (set_link L w i m) = enc (set_idx ov w v)"
proof -
  let ?p = "i * lay_size L + lay_object L"
  have fit: "?p + n \<le> length m" using within [OF assms(1) object_fits(1) assms(2)] .
  have "read_at ?p n (write_at ?p (le_bytes 8 w) m) = le_bytes 8 w @ drop 8 (read_at ?p n m)"
    using fit size_8 by (simp add: read_at_def write_at_def drop_take add.commute min_def)
  with assms(3) show ?thesis by (simp add: get_object_def set_link_def link_at_object enc_set)
qed

text \<open>A store and the bytes of a vector hold the same: every object, dead or alive, and every flag.\<close>

definition same_store :: "'a element list \<Rightarrow> byte list \<Rightarrow> bool" where
  "same_store st m \<longleftrightarrow>
     length m = length st * lay_size L \<and>
     (\<forall>i < length st. get_object L n i m = enc (object (st ! i)) \<and>
        get_flag L i m = [if is_free_or_in_use (st ! i) then 1 else 0])"

lemma same_store_write:
  assumes "same_store st m" and i: "i < length st"
  shows "same_store (st[i := (st ! i)\<lparr>object := v\<rparr>]) (set_object L (enc v) i m)"
proof -
  from assms have m: "length m = length st * lay_size L" by (simp add: same_store_def)
  show ?thesis
    using assms lengths(3) [OF i m length_enc] object_after_object [OF i m length_enc, of _ v]
      flag_after_object [OF i m length_enc, of _ v]
    by (auto simp: same_store_def nth_list_update)
qed

lemma same_store_flag:
  assumes "same_store st m" and i: "i < length st"
  shows "same_store (st[i := (st ! i)\<lparr>is_free_or_in_use := c\<rparr>]) (set_flag L c i m)"
proof -
  from assms have m: "length m = length st * lay_size L" by (simp add: same_store_def)
  show ?thesis
    using assms lengths(2) [OF i m] object_after_flag [OF i m] flag_after_flag [OF i m] flag_first
    by (auto simp: same_store_def nth_list_update)
qed

lemma same_store_link:
  assumes "same_store st m" and i: "i < length st"
  shows "same_store (st[i := set_next_free_of ov w (st ! i)]) (set_link L w i m)"
proof -
  from assms have m: "length m = length st * lay_size L"
    and o: "get_object L n i m = enc (object (st ! i))" using i by (simp_all add: same_store_def)
  show ?thesis
    using assms lengths(1) [OF i m] object_after_own_link [OF i m o] object_after_link [OF i m] flag_after_link [OF i m]
    by (auto simp: same_store_def nth_list_update set_next_free_of_def)
qed

lemma same_store_link_of:
  "same_store st m \<Longrightarrow> i < length st \<Longrightarrow> get_link L i m = next_free_of ov (st ! i)"
  by (simp add: same_store_def link_of_object next_free_of_def)

text \<open>An element is taken, and given back.\<close>

lemma same_store_take:
  assumes "same_store st m" and i: "i < length st"
  shows "same_store (st[i := (st ! i)\<lparr>is_free_or_in_use := False, object := v\<rparr>])
    (set_object L (enc v) i (set_flag L False i m))"
  using same_store_write [OF same_store_flag [OF assms, of False], of i v] i by simp

lemma same_store_release:
  assumes "same_store st m" and i: "i < length st"
  shows "same_store (st[i := set_next_free_of ov w ((st ! i)\<lparr>is_free_or_in_use := True\<rparr>)])
    (set_link L w i (set_flag L True i m))"
  using same_store_link [OF same_store_flag [OF assms, of True], of i w] i by simp

text \<open>The vector of fresh elements is a store of objects of zeros.\<close>

lemma read_replicate:
  "i < k \<Longrightarrow> p + q \<le> length e \<Longrightarrow> read_at (i * length e + p) q (concat (replicate k e)) = read_at p q e"
proof (induction k arbitrary: i)
  case (Suc k)
  show ?case
  proof (cases i)
    case 0
    then show ?thesis using Suc.prems by (simp add: read_at_def)
  next
    case (Suc j)
    then show ?thesis using Suc.IH [of j] Suc.prems by (simp add: read_at_def add.assoc)
  qed
qed simp

lemma same_store_fresh:
  "same_store (replicate k \<lparr>is_free_or_in_use = True, object = zero\<rparr>) (concat (replicate k (fresh_element L)))"
proof -
  let ?z = "replicate (lay_size L) 0 :: byte list"
  have z: "length ?z = 1 * lay_size L" by simp
  have "get_object L n 0 (fresh_element L) = enc zero"
    using object_after_flag [OF _ z, of 0 0 True] object_fits
    by (simp add: fresh_element_def enc_zero get_object_def read_at_def min_def)
  moreover have "get_flag L 0 (fresh_element L) = [1]"
    using flag_after_flag [OF _ z, of 0 0 True] flag_first by (simp add: fresh_element_def)
  moreover have "0 + 1 \<le> lay_size L" using size_pos by simp
  ultimately show ?thesis
    using read_replicate [where e = "fresh_element L"] read_replicate [of _ _ 0 1 "fresh_element L"] object_fits(1)
    by (simp add: same_store_def fresh_vector get_object_def get_flag_def flag_first length_fresh)
qed

lemma same_store_loop:
  assumes "same_store st m" and "j \<le> length st"
  shows "same_store
     (fold (\<lambda>i st. st[i := set_next_free_of ov (word_of_nat i + 1) ((st ! i)\<lparr>is_free_or_in_use := True\<rparr>)]) [0..<j] st)
     (fold (\<lambda>i m. set_link L (word_of_nat i + 1) i (set_flag L True i m)) [0..<j] m)"
  using assms(2)
proof (induction j)
  case (Suc j)
  have "length (fold (\<lambda>i st. st[i := set_next_free_of ov (word_of_nat i + 1) ((st ! i)\<lparr>is_free_or_in_use := True\<rparr>)]) [0..<j] st)
      = length st"
    by (induction j) simp_all
  with Suc show ?case using same_store_release by simp
qed (simp add: assms(1))

text \<open>The two pools are in the same state.\<close>

definition same_pool :: "'a mem_pool \<Rightarrow> byte_pool \<Rightarrow> bool" where
  "same_pool p b \<longleftrightarrow> same_store (store p) (bp_mem b) \<and> length (store p) = bytes_cap b \<and>
     next_free_index p = bp_next b \<and> bytes_fit L (bp_base b) (bytes_cap b)"

lemma same_pool_new:
  assumes "num > 0" and "bytes_fit L base (unat num)"
  obtains p b where "mem_pool_new ov zero num = Inr p" "bytes_new L base num = Inr b" "same_pool p b"
    "bytes_cap b = unat num" "bp_base b = base"
proof -
  define p where "p = \<lparr>store = fold (\<lambda>i st. st[i := set_next_free_of ov (word_of_nat i + 1) ((st ! i)\<lparr>is_free_or_in_use := True\<rparr>)])
       [0..<unat num] (replicate (unat num) \<lparr>is_free_or_in_use = True, object = zero\<rparr>), next_free_index = 0\<rparr>"
  have p: "mem_pool_new ov zero num = Inr p" "next_free_index p = 0"
    "store p = fold (\<lambda>i st. st[i := set_next_free_of ov (word_of_nat i + 1) ((st ! i)\<lparr>is_free_or_in_use := True\<rparr>)])
       [0..<unat num] (replicate (unat num) \<lparr>is_free_or_in_use = True, object = zero\<rparr>)"
    using assms(1) by (simp_all add: mem_pool_new_def p_def)
  define b where "b = \<lparr>bp_base = base, bp_count = num, bp_mem = fold (\<lambda>i m. set_link L (word_of_nat i + 1) i (set_flag L True i m))
       [0..<unat num] (concat (replicate (unat num) (fresh_element L))), bp_next = 0\<rparr>"
  have b: "bytes_new L base num = Inr b" "bytes_cap b = unat num" "bp_base b = base" "bp_next b = 0"
    "bp_mem b = fold (\<lambda>i m. set_link L (word_of_nat i + 1) i (set_flag L True i m))
       [0..<unat num] (concat (replicate (unat num) (fresh_element L)))"
    using assms(1) by (simp_all add: bytes_new_def bytes_cap_def b_def)
  have "same_store (store p) (bp_mem b)"
    unfolding p(3) b(5) by (intro same_store_loop same_store_fresh) simp
  moreover have "length (bp_mem b) = unat num * lay_size L"
    unfolding b(5) using link_loop [OF fresh_vector, of "unat num" "unat num"] by simp
  ultimately have "same_pool p b"
    using assms(2) p b size_pos by (auto simp: same_pool_def same_store_def)
  with p(1) b(1,2,3) show thesis by (intro that)
qed

lemma same_pool_allocate:
  assumes "same_pool p b"
  obtains b' where "bytes_allocate L (enc v) b = (slot_pointer L b (fst (allocate ov p v)), b')"
    "same_pool (snd (allocate ov p v)) b'" "bytes_cap b' = bytes_cap b" "bp_base b' = bp_base b"
proof (cases "bp_next b \<ge> bp_count b")
  case True
  with assms show thesis
    by (intro that [of b]) (simp_all add: same_pool_def bytes_cap_def allocate_def bytes_allocate_def slot_pointer_def)
next
  case False
  define f where "f = unat (bp_next b)"
  define b' where "b' = b\<lparr>bp_next := get_link L f (bp_mem b), bp_mem := set_object L (enc v) f (set_flag L False f (bp_mem b))\<rparr>"
  from assms have st: "same_store (store p) (bp_mem b)" and len: "length (store p) = bytes_cap b"
    and idx: "next_free_index p = bp_next b" and fit: "bytes_fit L (bp_base b) (bytes_cap b)"
    by (simp_all add: same_pool_def)
  have f: "f < length (store p)" using False by (simp add: f_def len bytes_cap_def word_le_nat_alt)
  have al: "bytes_allocate L (enc v) b = (slot_addr L b f, b')"
    using False by (simp add: bytes_allocate_def Let_def f_def b'_def)
  have sl: "allocate ov p v = (Some f, p\<lparr>next_free_index := get_link L f (bp_mem b),
      store := (store p)[f := (store p ! f)\<lparr>is_free_or_in_use := False, object := v\<rparr>]\<rparr>)"
    using False by (simp add: allocate_def Let_def idx f_def [symmetric] len bytes_cap_def same_store_link_of [OF st f])
  have "same_pool (snd (allocate ov p v)) b'"
    using same_store_take [OF st f, of v] len fit by (simp add: same_pool_def sl b'_def bytes_cap_def)
  then show thesis using al by (intro that [of b']) (simp_all add: sl slot_pointer_def b'_def bytes_cap_def)
qed

lemma same_pool_deallocate:
  assumes "same_pool p b" and i: "i < bytes_cap b"
  obtains p' b' where "deallocate ov (Some i) p = Inr p'" "bytes_deallocate L (slot_addr L b i) b = Inr b'"
    "same_pool p' b'" "bytes_cap b' = bytes_cap b" "bp_base b' = bp_base b"
proof -
  define b' where "b' = b\<lparr>bp_mem := set_link L (bp_next b) i (set_flag L True i (bp_mem b)), bp_next := word_of_nat i\<rparr>"
  define p' where "p' = p\<lparr>store := (store p)[i := set_next_free_of ov (next_free_index p)
      ((store p ! i)\<lparr>is_free_or_in_use := True\<rparr>)], next_free_index := word_of_nat i\<rparr>"
  from assms have st: "same_store (store p) (bp_mem b)" and len: "length (store p) = bytes_cap b"
    and idx: "next_free_index p = bp_next b" and fit: "bytes_fit L (bp_base b) (bytes_cap b)"
    by (simp_all add: same_pool_def)
  have sl: "deallocate ov (Some i) p = Inr p'" using i len by (simp add: deallocate_def p'_def)
  have "i * lay_size L < length (bp_mem b)" using i st len size_pos by (simp add: same_store_def)
  then have de: "bytes_deallocate L (slot_addr L b i) b = Inr b'"
    using size_pos by (simp add: bytes_deallocate_def Let_def slot_addr_back(3) [OF fit i] b'_def)
  have "same_pool p' b'"
    using same_store_release [OF st, of i "bp_next b"] i len fit
    by (simp add: same_pool_def p'_def b'_def bytes_cap_def idx)
  with sl de show thesis by (rule that) (simp_all add: b'_def bytes_cap_def)
qed

text \<open>Any client, also one that gives back what it does not hold.\<close>

lemma same_pool_run:
  assumes "same_pool p b" and "\<forall>i. Dealloc i \<in> set rs \<longrightarrow> i < bytes_cap b"
  shows "\<exists>out p' b'. pool_run (allocate ov) (deallocate ov) rs p = Inr (out, p') \<and>
    addr_run L enc rs b = Inr (map (slot_pointer L b) out, b') \<and> same_pool p' b' \<and> bytes_cap b' = bytes_cap b"
  using assms
proof (induction rs arbitrary: p b)
  case (Cons r rs)
  have ptr: "slot_pointer L b' = slot_pointer L b" if "bp_base b' = bp_base b" for b'
    using that by (auto simp: fun_eq_iff slot_pointer_def slot_addr_def split: option.splits)
  show ?case
  proof (cases r)
    case (Alloc v)
    obtain b1 where b1: "bytes_allocate L (enc v) b = (slot_pointer L b (fst (allocate ov p v)), b1)"
      "same_pool (snd (allocate ov p v)) b1" "bytes_cap b1 = bytes_cap b" "bp_base b1 = bp_base b"
      using same_pool_allocate [OF Cons.prems(1)] by metis
    from Cons.IH [OF b1(2)] Cons.prems(2) b1(3) obtain out p' b' where
      "pool_run (allocate ov) (deallocate ov) rs (snd (allocate ov p v)) = Inr (out, p')"
      "addr_run L enc rs b1 = Inr (map (slot_pointer L b1) out, b')" "same_pool p' b'" "bytes_cap b' = bytes_cap b1" by auto
    then show ?thesis using b1(1,3) ptr [OF b1(4)] by (auto simp: Alloc split: prod.splits)
  next
    case (Dealloc i)
    then have "i < bytes_cap b" using Cons.prems(2) by simp
    then obtain p1 b1 where b1: "deallocate ov (Some i) p = Inr p1" "bytes_deallocate L (slot_addr L b i) b = Inr b1"
      "same_pool p1 b1" "bytes_cap b1 = bytes_cap b" "bp_base b1 = bp_base b"
      using same_pool_deallocate [OF Cons.prems(1)] by metis
    from Cons.IH [OF b1(3)] Cons.prems(2) b1(4) obtain out p' b' where
      "pool_run (allocate ov) (deallocate ov) rs p1 = Inr (out, p')"
      "addr_run L enc rs b1 = Inr (map (slot_pointer L b1) out, b')" "same_pool p' b'" "bytes_cap b' = bytes_cap b1" by auto
    then show ?thesis using b1(1,2,4) ptr [OF b1(5)] by (simp add: Dealloc)
  qed
qed simp

end

section \<open>The members of an order\<close>

text \<open>A pointer, and an object of an enumeration without an underlying type of its own, which is an \<open>int\<close>.\<close>

definition c_pointer :: ctype where
  "c_pointer = c_u64"

definition c_order_type :: ctype where
  "c_order_type = \<lparr>size_of = 4, align_of = 4\<rparr>"

text \<open>
  \<open>std::string_view\<close>: an address and a length, in the order of libc++; libstdc++ has the length first, which the
  parameter \<open>view\<close> below covers as well, since both are eight bytes.
\<close>

definition c_string_view :: ctype where
  "c_string_view = struct_of [c_pointer, c_u64]"

definition c_node :: ctype where
  "c_node = struct_of [c_pointer, c_pointer]"

definition order_members :: "ctype list" where
  "order_members = [c_u64, c_u64, c_string_view, c_u32, c_u64, c_bool, c_order_type, c_node]"

definition c_order :: ctype where
  "c_order = struct_of order_members"

lemma c_order_eq: "size_of c_order = 72" "align_of c_order = 8" "complete_type c_order"
    "field_offsets order_members = [0, 8, 16, 32, 40, 48, 52, 56]"
  and order_element: "element_layout c_order =
    \<lparr>lay_size = 80, lay_align = 8, lay_object = 8, lay_link = 8, lay_flag = Some 0\<rparr>"
proof -
  have c: "c_order = \<lparr>size_of = 72, align_of = 8\<rparr>" by code_simp
  show "size_of c_order = 72" "align_of c_order = 8" by (simp_all add: c)
  show "complete_type c_order" unfolding c complete_type_def by (auto intro: exI [of _ 3])
  show "field_offsets order_members = [0, 8, 16, 32, 40, 48, 52, 56]" by code_simp
  show "element_layout c_order = \<lparr>lay_size = 80, lay_align = 8, lay_object = 8, lay_link = 8, lay_flag = Some 0\<rparr>"
    unfolding c by code_simp
qed

text \<open>
  The bytes of an order. Where the text of a symbol lies, and which address a pointer to an order is, is
  the matter of \<open>view\<close> and \<open>addr\<close>; the bytes between the members stay 0.
\<close>

definition type_number :: "order_type \<Rightarrow> u64" where
  "type_number ty = (case ty of Limit \<Rightarrow> 0 | Market \<Rightarrow> 1)"

definition order_bytes :: "(string \<Rightarrow> u64 \<times> u64) \<Rightarrow> (ptr \<Rightarrow> u64) \<Rightarrow> order \<Rightarrow> byte list" where
  "order_bytes view addr ord =
     le_bytes 8 (order_id ord) @ le_bytes 8 (client_id ord) @
     le_bytes 8 (fst (view (symbol ord))) @ le_bytes 8 (snd (view (symbol ord))) @
     le_bytes 4 (ucast (order_size ord)) @ replicate 4 0 @ le_bytes 8 (price ord) @
     [if is_buy_side ord then 1 else 0] @ replicate 3 0 @ le_bytes 4 (type_number (order_type ord)) @
     le_bytes 8 (addr (nxt (list_node ord))) @ le_bytes 8 (addr (prv (list_node ord)))"

text \<open>Every member is where the layout puts it.\<close>

lemma order_bytes_members:
  "map (\<lambda>(off, T). read_at off (size_of T) (order_bytes view addr ord)) (zip (field_offsets order_members) order_members) =
    [le_bytes 8 (order_id ord), le_bytes 8 (client_id ord),
     le_bytes 8 (fst (view (symbol ord))) @ le_bytes 8 (snd (view (symbol ord))),
     le_bytes 4 (ucast (order_size ord)), le_bytes 8 (price ord), [if is_buy_side ord then 1 else 0],
     le_bytes 4 (type_number (order_type ord)),
     le_bytes 8 (addr (nxt (list_node ord))) @ le_bytes 8 (addr (prv (list_node ord)))]"
  unfolding c_order_eq(4)
  by (simp add: order_members_def order_bytes_def read_at_def c_u64_def c_u32_def c_bool_def c_order_type_def
      c_string_view_def c_node_def c_pointer_def struct_of_def round_up_def)

text \<open>So the pool of orders on bytes overlays \<open>order_id\<close> as \<open>order_overlay\<close> says.\<close>

locale order_encoding =
  fixes view :: "string \<Rightarrow> u64 \<times> u64" and addr :: "ptr \<Rightarrow> u64"
  assumes no_symbol: "view [] = (0, 0)" and no_pointer: "addr None = 0"
begin

lemma order_overlaid: "overlaid_pool (element_layout c_order) 72 order_overlay (order_bytes view addr) zero_order"
proof -
  have "element_of (element_layout c_order) 72"
    using element_layout_fits [OF c_order_eq(3)] by (simp add: c_order_eq)
  moreover have "overlaid_pool_axioms (element_layout c_order) 72 order_overlay (order_bytes view addr) zero_order"
  proof
    fix v w
    show "length (order_bytes view addr v) = 72" by (simp add: order_bytes_def)
    show "take 8 (order_bytes view addr v) = le_bytes 8 (get_idx order_overlay v)"
      by (simp add: order_bytes_def order_overlay_def)
    show "order_bytes view addr (set_idx order_overlay w v) = le_bytes 8 w @ drop 8 (order_bytes view addr v)"
      by (simp add: order_bytes_def order_overlay_def)
    have z: "le_bytes k 0 = replicate k 0" for k by (induction k) simp_all
    show "order_bytes view addr zero_order = replicate 72 0"
      by (simp add: order_bytes_def zero_order_def mk_order_def no_symbol no_pointer type_number_def z
          replicate_add [symmetric] eval_nat_numeral)
  qed (simp_all add: order_element)
  ultimately show ?thesis by (rule overlaid_pool.intro)
qed

end

sublocale order_encoding \<subseteq> orders: overlaid_pool "element_layout c_order" 72 order_overlay "order_bytes view addr" zero_order
  by (rule order_overlaid)

end
