(* ===== verification/Byte_Claims.thy ===== *)
theory Byte_Claims
  imports Order_Bytes Pool_Bench_Correct
begin

text \<open>
  The properties of the pools on bytes: that objects are placed where they may be, that clients get the addresses
  of a stack of slots and keep what they hold, and that the pool of orders is the pool of slots that the book uses;
  and the pools of the benchmarks on bytes.
\<close>

section \<open>Where the objects are\<close>

lemma max_8_dvd: "complete_type T \<Longrightarrow> align_of T dvd max (align_of T) 8" "complete_type T \<Longrightarrow> 8 dvd max (align_of T) 8"
proof -
  have "\<exists>k. 8 = (2 :: nat) ^ k" by (rule exI [of _ 3]) simp
  then show "complete_type T \<Longrightarrow> align_of T dvd max (align_of T) 8" "complete_type T \<Longrightarrow> 8 dvd max (align_of T) 8"
    using power_of_two_max [of "align_of T" 8] by (auto simp: complete_type_def)
qed

text \<open>What is true of both layouts.\<close>

definition well_placed :: "ctype \<Rightarrow> layout \<Rightarrow> bool" where
  "well_placed T L \<longleftrightarrow> element_of L (size_of T) \<and> lay_align L dvd lay_size L \<and>
     align_of T dvd lay_align L \<and> 8 dvd lay_align L \<and> align_of T dvd lay_object L \<and> 8 dvd lay_link L"

lemma element_well_placed: "complete_type T \<Longrightarrow> well_placed T (element_layout T)"
  using element_layout_fits [of T] max_8_dvd [of T] complete_type_align [of T]
  by (simp add: well_placed_def element_layout_eq Let_def round_up_1)

lemma block_well_placed: "complete_type T \<Longrightarrow> well_placed T (block_layout T)"
  using block_layout_fits [of T] max_8_dvd [of T]
  by (simp add: well_placed_def block_layout_eq Let_def)

lemma placed_objects:
  assumes "well_placed T L" and fit: "bytes_fit L (bp_base b) (bytes_cap b)" and al: "lay_align L dvd unat (bp_base b)"
    and i: "i < bytes_cap b" and j: "j < bytes_cap b"
  shows "align_of T dvd unat (slot_addr L b i)"
    and "8 dvd unat (bp_base b) + i * lay_size L + lay_link L"
    and "slot_of L b (slot_addr L b i) = i"
    and "unat (bp_base b) \<le> unat (slot_addr L b i) \<and>
      unat (slot_addr L b i) + size_of T \<le> unat (bp_base b) + bytes_cap b * lay_size L"
    and "i \<noteq> j \<Longrightarrow> unat (slot_addr L b i) + size_of T \<le> unat (slot_addr L b j) \<or>
      unat (slot_addr L b j) + size_of T \<le> unat (slot_addr L b i)"
proof -
  have E: "element_of L (size_of T)" using assms(1) by (simp add: well_placed_def)
  note fits = element_of.object_fits(1) [OF E]
  have u: "unat (slot_addr L b i) = unat (bp_base b) + i * lay_size L + lay_object L" if "i < bytes_cap b" for i
    using element_of.slot_addr_unat [OF E fit that] .
  have T: "align_of T dvd lay_align L" and T8: "8 dvd lay_align L" using assms(1) by (simp_all add: well_placed_def)
  have size: "lay_align L dvd i * lay_size L" using assms(1) by (simp add: well_placed_def)
  show "align_of T dvd unat (slot_addr L b i)"
    unfolding u [OF i] using dvd_trans [OF T al] dvd_trans [OF T size] assms(1) by (simp add: well_placed_def)
  show "8 dvd unat (bp_base b) + i * lay_size L + lay_link L"
    using dvd_trans [OF T8 al] dvd_trans [OF T8 size] assms(1) by (simp add: well_placed_def)
  show "slot_of L b (slot_addr L b i) = i" using element_of.slot_addr_back(2) [OF E fit i] .
  have "i * lay_size L + lay_object L + size_of T \<le> bytes_cap b * lay_size L"
    using element_of.within [OF E i fits, of "replicate (bytes_cap b * lay_size L) 0"] by simp
  then show "unat (bp_base b) \<le> unat (slot_addr L b i) \<and>
      unat (slot_addr L b i) + size_of T \<le> unat (bp_base b) + bytes_cap b * lay_size L"
    by (simp add: u [OF i])
  show "unat (slot_addr L b i) + size_of T \<le> unat (slot_addr L b j) \<or>
      unat (slot_addr L b j) + size_of T \<le> unat (slot_addr L b i)" if "i \<noteq> j"
    using element_of.apart [OF E that fits fits] by (simp add: u [OF i] u [OF j])
qed

text \<open>
  C23: Objects are where they may be. In both pools, for any type, when the vector is aligned as its elements
  must be: every object is aligned as its type demands and every link as a \<open>size_t\<close>, every link lies within its
  element and every object within the vector, no two objects overlap, and the address of an object leads back to
  its slot. In \<open>MemPool\<close> the link is written over the beginning of the object, in
  \<open>MemPoolSeparateFreeStructure\<close> behind it.
\<close>

theorem objects_in_place:
  assumes "complete_type T" and "L = element_layout T \<or> L = block_layout T"
    and "bytes_fit L (bp_base b) (bytes_cap b)" and "lay_align L dvd unat (bp_base b)"
    and "i < bytes_cap b" and "j < bytes_cap b"
  shows "align_of T dvd unat (slot_addr L b i) \<and> 8 dvd unat (bp_base b) + i * lay_size L + lay_link L \<and>
    unat (slot_addr L b i) + size_of T \<le> unat (bp_base b) + bytes_cap b * lay_size L \<and>
    (i = j \<or> unat (slot_addr L b i) + size_of T \<le> unat (slot_addr L b j) \<or>
      unat (slot_addr L b j) + size_of T \<le> unat (slot_addr L b i)) \<and>
    slot_of L b (slot_addr L b i) = i \<and> lay_link L + 8 \<le> lay_size L \<and>
    lay_link (element_layout T) = lay_object (element_layout T) \<and>
    lay_object (block_layout T) + size_of T \<le> lay_link (block_layout T)"
proof -
  have w: "well_placed T L"
    using assms(1,2) element_well_placed block_well_placed by blast
  have "lay_link (element_layout T) = lay_object (element_layout T)"
    by (simp add: element_layout_eq Let_def)
  moreover have "lay_object (block_layout T) + size_of T \<le> lay_link (block_layout T)"
    using round_up_least(1) [of 8 "size_of T"] by (simp add: block_layout_eq [OF assms(1)] Let_def)
  moreover have "lay_link L + 8 \<le> lay_size L"
    using w element_of.link_fits unfolding well_placed_def by blast
  ultimately show ?thesis using placed_objects [OF w assms(3-6)] by blast
qed

text \<open>Three orders of the book at the address 4096.\<close>

definition three_orders :: byte_pool where
  "three_orders = \<lparr>bp_base = 4096, bp_count = 3, bp_mem = replicate 240 0, bp_next = 0\<rparr>"

corollary objects_in_place_sample:
  "unat (slot_addr (element_layout c_order) three_orders 2) = 4264 \<and>
   align_of c_order dvd unat (slot_addr (element_layout c_order) three_orders 2) \<and>
   unat (slot_addr (element_layout c_order) three_orders 2) + size_of c_order \<le> 4096 + 3 * 80 \<and>
   slot_of (element_layout c_order) three_orders (slot_addr (element_layout c_order) three_orders 2) = 2"
proof -
  have "bytes_fit (element_layout c_order) (bp_base three_orders) (bytes_cap three_orders)"
    "lay_align (element_layout c_order) dvd unat (bp_base three_orders)"
    by (simp_all add: order_element three_orders_def bytes_fit_def bytes_cap_def)
  note placed = objects_in_place [OF c_order_eq(3) disjI1 [OF refl] this, of 2 0]
  moreover have "unat (slot_addr (element_layout c_order) three_orders 2) = 4264"
    by (simp add: slot_addr_def order_element three_orders_def)
  ultimately show ?thesis by (simp add: three_orders_def bytes_cap_def order_element)
qed

section \<open>What a client gets\<close>

lemma byte_run:
  assumes E: "element_of L n" and "num > 0" and "bytes_fit L base (unat num)" and "\<forall>v. length (enc v) = n"
    and "valid_requests (unat num) rs [0..<unat num]"
  shows "\<exists>b b'. bytes_new L base num = Inr b \<and> bp_base b = base \<and>
    addr_run L enc rs b = Inr (map (slot_pointer L b) (fst (free_run rs [0..<unat num])), b') \<and>
    bytes_free L b' = snd (free_run rs [0..<unat num]) \<and>
    (\<forall>i v. held rs [0..<unat num] Map.empty i = Some v \<longrightarrow> get_object L n i (bp_mem b') = enc v)"
proof -
  obtain b where b: "bytes_new L base num = Inr b" "bytes_repr L b [0..<unat num]" "bytes_cap b = unat num" "bp_base b = base"
    using element_of.bytes_new_repr [OF E assms(2,3)] by metis
  from element_of.addr_run_spec [OF E b(2) _ assms(4), of rs Map.empty] assms(5) b(1,3,4) show ?thesis
    by (auto dest: bytes_repr_free)
qed

text \<open>
  C22: On bytes, for any type of objects, each pool gives a well-behaved client the addresses of the slots of a
  stack of free slots, lowest first, and 0 exactly when the stack is empty; no request faults; and every
  object that the client has not given back is there byte for byte, whatever links have been written
  around it.
\<close>

theorem byte_pools_behave:
  assumes "complete_type T" and "num > 0" and "\<forall>v. length (enc v) = size_of T"
    and "bytes_fit (element_layout T) base (unat num)" and "bytes_fit (block_layout T) base' (unat num)"
    and "valid_requests (unat num) rs [0..<unat num]"
  shows "(\<exists>b b'. pool_bytes_new T base num = Inr b \<and> bp_base b = base \<and>
      addr_run (element_layout T) enc rs b =
        Inr (map (slot_pointer (element_layout T) b) (fst (free_run rs [0..<unat num])), b') \<and>
      (\<forall>i v. held rs [0..<unat num] Map.empty i = Some v \<longrightarrow>
        get_object (element_layout T) (size_of T) i (bp_mem b') = enc v)) \<and>
    (\<exists>b b'. sep_bytes_new T base' num = Inr b \<and> bp_base b = base' \<and>
      addr_run (block_layout T) enc rs b =
        Inr (map (slot_pointer (block_layout T) b) (fst (free_run rs [0..<unat num])), b') \<and>
      (\<forall>i v. held rs [0..<unat num] Map.empty i = Some v \<longrightarrow>
        get_object (block_layout T) (size_of T) i (bp_mem b') = enc v))"
  using byte_run [OF element_layout_fits [OF assms(1)] assms(2,4,3,6)]
    byte_run [OF block_layout_fits [OF assms(1)] assms(2,5,3,6)]
  unfolding pool_bytes_new_def sep_bytes_new_def by blast

lemma number_layouts:
  "element_layout c_u64 = \<lparr>lay_size = 16, lay_align = 8, lay_object = 8, lay_link = 8, lay_flag = Some 0\<rparr>"
  "block_layout c_u64 = \<lparr>lay_size = 16, lay_align = 8, lay_object = 0, lay_link = 8, lay_flag = None\<rparr>"
  by code_simp+

text \<open>Two numbers of 64 bits in pools of two, the first given back and its slot filled again, and a third too many.\<close>

definition number_requests :: "u64 request list" where
  "number_requests = [Alloc 7, Alloc 8, Dealloc 0, Alloc 9, Alloc 10]"

corollary byte_pools_behave_sample:
  "(\<exists>b b'. pool_bytes_new c_u64 4096 2 = Inr b \<and>
      addr_run (element_layout c_u64) (le_bytes 8) number_requests b = Inr ([4104, 4120, 4104, 0], b') \<and>
      get_object (element_layout c_u64) 8 0 (bp_mem b') = le_bytes 8 9) \<and>
   (\<exists>b b'. sep_bytes_new c_u64 8192 2 = Inr b \<and>
      addr_run (block_layout c_u64) (le_bytes 8) number_requests b = Inr ([8192, 8208, 8192, 0], b') \<and>
      get_object (block_layout c_u64) 8 1 (bp_mem b') = le_bytes 8 8)"
proof -
  have r: "valid_requests (unat (2 :: size_t)) number_requests [0..<unat (2 :: size_t)]"
    "fst (free_run number_requests [0..<unat (2 :: size_t)]) = [Some 0, Some 1, Some 0, None]"
    "held number_requests [0..<unat (2 :: size_t)] Map.empty 0 = Some 9"
    "held number_requests [0..<unat (2 :: size_t)] Map.empty 1 = Some 8"
    by code_simp+
  have fit: "bytes_fit (element_layout c_u64) 4096 (unat (2 :: size_t))" "bytes_fit (block_layout c_u64) 8192 (unat (2 :: size_t))"
    by (simp_all add: bytes_fit_def number_layouts)
  have len: "\<forall>v. length (le_bytes 8 v) = size_of c_u64" by (simp add: c_u64_def)
  from byte_pools_behave [OF c_u64_complete _ len fit r(1)] obtain b b' s s' where
    "pool_bytes_new c_u64 4096 2 = Inr b" "bp_base b = 4096"
    "addr_run (element_layout c_u64) (le_bytes 8) number_requests b =
       Inr (map (slot_pointer (element_layout c_u64) b) [Some 0, Some 1, Some 0, None], b')"
    "get_object (element_layout c_u64) (size_of c_u64) 0 (bp_mem b') = le_bytes 8 9"
    "sep_bytes_new c_u64 8192 2 = Inr s" "bp_base s = 8192"
    "addr_run (block_layout c_u64) (le_bytes 8) number_requests s =
       Inr (map (slot_pointer (block_layout c_u64) s) [Some 0, Some 1, Some 0, None], s')"
    "get_object (block_layout c_u64) (size_of c_u64) 1 (bp_mem s') = le_bytes 8 8"
    unfolding r(2) using r(3,4) by (auto simp del: list.map)
  moreover have "size_of c_u64 = 8" by (simp add: c_u64_def)
  ultimately show ?thesis by (auto simp: slot_pointer_def slot_addr_def number_layouts)
qed

section \<open>The pool of orders\<close>

text \<open>
  The symbol of the book lies at an address of its own; an order's pointers to its neighbours are the addresses
  of their slots.
\<close>

definition symbol_view :: "u64 \<Rightarrow> string \<Rightarrow> u64 \<times> u64" where
  "symbol_view text_addr s = (if s = [] then (0, 0) else (text_addr, word_of_nat (length s)))"

definition order_address :: "u64 \<Rightarrow> ptr \<Rightarrow> u64" where
  "order_address base p = (case p of None \<Rightarrow> 0 | Some i \<Rightarrow> base + word_of_nat (i * 80 + 8))"

interpretation obs: order_encoding "symbol_view text_addr" "order_address base" for text_addr base
  by unfold_locales (simp_all add: symbol_view_def order_address_def)

lemma order_address_slot: "order_address (bp_base b) p = slot_pointer (element_layout c_order) b p"
  by (simp add: order_address_def slot_pointer_def slot_addr_def order_element split: option.split)

text \<open>
  C21: The pool of slots that the book is verified over is the pool of the machine. On the bytes of the vector,
  with \<open>Order\<close> laid out as a compiler does, \<open>MemPool<Order>\<close> answers every sequence of requests with the
  addresses of the slots that \<open>Mem_Pool\<close> answers, also to a client that gives back what it does not hold; and at
  the end every element has the flag and the bytes of the order that \<open>Mem_Pool\<close> has there, dead orders
  included, whose \<open>order_id\<close> alone the link has overwritten.
\<close>

theorem order_pool_on_bytes:
  assumes "num > 0" and "bytes_fit (element_layout c_order) base (unat num)"
    and "\<forall>i. Dealloc i \<in> set rs \<longrightarrow> i < unat num"
  shows "\<exists>p p' b b' out. mem_pool_new order_overlay zero_order num = Inr p \<and> pool_bytes_new c_order base num = Inr b \<and>
    pool_run (allocate order_overlay) (deallocate order_overlay) rs p = Inr (out, p') \<and>
    addr_run (element_layout c_order) (order_bytes (symbol_view text_addr) (order_address base)) rs b =
      Inr (map (order_address base) out, b') \<and>
    (\<forall>i < unat num.
      get_object (element_layout c_order) (size_of c_order) i (bp_mem b') =
        order_bytes (symbol_view text_addr) (order_address base) (object (store p' ! i)) \<and>
      get_flag (element_layout c_order) i (bp_mem b') = [if is_free_or_in_use (store p' ! i) then 1 else 0])"
proof -
  obtain p b where p: "mem_pool_new order_overlay zero_order num = Inr p" "bytes_new (element_layout c_order) base num = Inr b"
    "obs.orders.same_pool text_addr base p b" "bytes_cap b = unat num" "bp_base b = base"
    using obs.orders.same_pool_new [OF assms(1,2), of text_addr base] by metis
  obtain out p' b' where run: "pool_run (allocate order_overlay) (deallocate order_overlay) rs p = Inr (out, p')"
    "addr_run (element_layout c_order) (order_bytes (symbol_view text_addr) (order_address base)) rs b =
      Inr (map (slot_pointer (element_layout c_order) b) out, b')" "obs.orders.same_pool text_addr base p' b'" "bytes_cap b' = unat num"
    using obs.orders.same_pool_run [OF p(3), of rs] assms(3) p(4) by auto
  have "\<forall>i < unat num.
      get_object (element_layout c_order) (size_of c_order) i (bp_mem b') =
        order_bytes (symbol_view text_addr) (order_address base) (object (store p' ! i)) \<and>
      get_flag (element_layout c_order) i (bp_mem b') = [if is_free_or_in_use (store p' ! i) then 1 else 0]"
    using run(3,4) by (simp add: obs.orders.same_pool_def obs.orders.same_store_def c_order_eq(1))
  moreover have "slot_pointer (element_layout c_order) b = order_address base"
    using order_address_slot [of b] by (simp add: fun_eq_iff p(5))
  ultimately show ?thesis using p(1,2) run(1,2) by (auto simp: pool_bytes_new_def simp del: all_simps)
qed

text \<open>An order given back twice: the next two allocations get the same address.\<close>

definition twice_requests :: "order request list" where
  "twice_requests = [Alloc (mk_order 7 5 ''XYZ'' 10 100 True Limit), Dealloc 0, Dealloc 0,
     Alloc (mk_order 8 5 ''XYZ'' 10 100 True Limit), Alloc (mk_order 9 5 ''XYZ'' 20 100 True Limit)]"

corollary order_pool_on_bytes_sample:
  "\<exists>b b'. pool_bytes_new c_order 4096 3 = Inr b \<and>
    addr_run (element_layout c_order) (order_bytes (symbol_view 512) (order_address 4096)) twice_requests b =
      Inr ([4104, 4104, 4104], b') \<and>
    get_object (element_layout c_order) 72 0 (bp_mem b') =
      order_bytes (symbol_view 512) (order_address 4096) (mk_order 9 5 ''XYZ'' 20 100 True Limit)"
proof -
  have fit: "bytes_fit (element_layout c_order) 4096 (unat (3 :: size_t))"
    by (simp add: bytes_fit_def order_element)
  have slots: "\<forall>i. Dealloc i \<in> set twice_requests \<longrightarrow> i < unat (3 :: size_t)" by (simp add: twice_requests_def)
  obtain p p' b b' out where r: "mem_pool_new order_overlay zero_order 3 = Inr p" "pool_bytes_new c_order 4096 3 = Inr b"
    "pool_run (allocate order_overlay) (deallocate order_overlay) twice_requests p = Inr (out, p')"
    "addr_run (element_layout c_order) (order_bytes (symbol_view 512) (order_address 4096)) twice_requests b =
      Inr (map (order_address 4096) out, b')"
    "\<forall>i < unat (3 :: size_t). get_object (element_layout c_order) (size_of c_order) i (bp_mem b') =
        order_bytes (symbol_view 512) (order_address 4096) (object (store p' ! i))"
    using order_pool_on_bytes [OF _ fit slots, of 512] by auto
  have "rbind (mem_pool_new order_overlay zero_order 3) (\<lambda>p.
      rbind (pool_run (allocate order_overlay) (deallocate order_overlay) twice_requests p)
        (\<lambda>(out, p'). Inr (out, object (store p' ! 0)))) =
      Inr ([Some 0, Some 0, Some 0], mk_order 9 5 ''XYZ'' 20 100 True Limit)"
    by code_simp
  then have "out = [Some 0, Some 0, Some 0]" "object (store p' ! 0) = mk_order 9 5 ''XYZ'' 20 100 True Limit"
    by (simp_all add: r(1,3))
  then show ?thesis using r(2,4) r(5) [rule_format, of 0] by (simp add: order_address_def c_order_eq(1))
qed

section \<open>The pools of the benchmarks\<close>

text \<open>The orders of the benchmarks: four numbers in a row.\<close>

definition bench_order_bytes :: "bench_order \<Rightarrow> byte list" where
  "bench_order_bytes ord =
     le_bytes 8 (b_order_id ord) @ le_bytes 8 (b_price ord) @ le_bytes 8 (b_qty ord) @ le_bytes 8 (b_side ord)"

definition bench_order_of_bytes :: "byte list \<Rightarrow> bench_order" where
  "bench_order_of_bytes bs =
     \<lparr>b_order_id = le_word (read_at 0 8 bs), b_price = le_word (read_at 8 8 bs),
      b_qty = le_word (read_at 16 8 bs), b_side = le_word (read_at 24 8 bs)\<rparr>"

definition c_bench_order :: ctype where
  "c_bench_order = struct_of [c_u64, c_u64, c_u64, c_u64]"

lemma c_bench_order_eq: "c_bench_order = \<lparr>size_of = 32, align_of = 8\<rparr>"
  by code_simp

lemma c_bench_order_complete: "complete_type c_bench_order"
  unfolding complete_type_def c_bench_order_eq by (auto intro: exI [of _ 3])

interpretation boc: object_codec bench_order_bytes bench_order_of_bytes 32
  by unfold_locales (simp_all add: bench_order_bytes_def bench_order_of_bytes_def read_at_def)

interpretation bpb: byte_allocator "element_layout c_bench_order" 32 bench_order_bytes bench_order_of_bytes
  unfolding byte_allocator_def
  using element_layout_fits [OF c_bench_order_complete] boc.object_codec_axioms by (simp add: c_bench_order_eq)

interpretation sbb: byte_allocator "block_layout c_bench_order" 32 bench_order_bytes bench_order_of_bytes
  unfolding byte_allocator_def
  using block_layout_fits [OF c_bench_order_complete] boc.object_codec_axioms by (simp add: c_bench_order_eq)

text \<open>So the benchmarks can be run on them, and reading an order through its address is reading its bytes.\<close>

sublocale byte_allocator \<subseteq> readable: readable_allocator "slot_allocate L enc" "slot_deallocate L" "bytes_free L"
  bytes_cap "bytes_contents L n dec" "bytes_ok L" "slot_read L n dec"
  by unfold_locales (simp add: slot_read_def bytes_cap_def bytes_contents_def)

definition byte_bench_ops :: "layout \<Rightarrow> (byte_pool, bench_order) store_ops" where
  "byte_bench_ops L = allocator_ops (slot_allocate L bench_order_bytes) (slot_deallocate L) (slot_read L 32 bench_order_of_bytes)"

lemma byte_run_benchmark_safe:
  assumes B: "byte_allocator L 32 bench_order_bytes bench_order_of_bytes"
    and n: "n > 0" and fit: "bytes_fit L base (unat n)" and perm: "mset order = mset [0..<unat n]"
    and lim: "unat n + unat n div 2 \<le> lim"
    and ds: "churn_draws_ok (unat n) dsp" "churn_draws_ok (unat n) dsn" "churn_draws_ok (unat n) dsm"
  shows "\<exists>pool pool2 pool3 h. run_benchmark tsc buf lim (byte_bench_ops L) (bytes_new L base) order dsp dsn dsm n sk tm =
      Inr (expected_rows tsc (unat n) tm, (pool, pool2, pool3), h) \<and>
    (\<forall>p \<in> {pool, pool2, pool3}. live_in (bytes_free L) bytes_cap (bytes_contents L 32 bench_order_of_bytes) p = Map.empty) \<and>
    heap_objects (bn_pool h) = Map.empty"
proof -
  have E: "element_of L 32" using B by (simp add: byte_allocator_def)
  have R: "readable_allocator (slot_allocate L bench_order_bytes) (slot_deallocate L) (bytes_free L) bytes_cap
      (bytes_contents L 32 bench_order_of_bytes) (bytes_ok L) (slot_read L 32 bench_order_of_bytes)"
    by (intro readable_allocator.intro readable_allocator_axioms.intro byte_allocator.bytes_slot_allocator [OF B])
      (simp add: slot_read_def bytes_cap_def bytes_contents_def)
  have st: "bench_store (byte_bench_ops L) (live_in (bytes_free L) bytes_cap (bytes_contents L 32 bench_order_of_bytes))
      (\<lambda>p k. k \<le> length (bytes_free L p)) (bytes_ok L) bytes_cap"
    unfolding bench_store_def byte_bench_ops_def using readable_allocator.pool_counted_store [OF R] .
  obtain b where b: "bytes_new L base n = Inr b" "bytes_ok L b" "bytes_free L b = [0..<unat n]" "bytes_cap b = unat n"
    using element_of.bytes_new_repr [OF E n fit] bytes_repr_ok bytes_repr_free by metis
  have e: "live_in (bytes_free L) bytes_cap (bytes_contents L 32 bench_order_of_bytes) b = Map.empty"
    using b(3,4) by (intro live_in_all_free) simp
  have room: "\<forall>k \<le> unat n. k \<le> length (bytes_free L b)" by (simp add: b(3))
  have last: "\<forall>p v e. bytes_ok L p \<longrightarrow> op_alloc (byte_bench_ops L) p v \<noteq> Inl e"
    by (simp add: byte_bench_ops_def allocator_ops_def)
  show ?thesis
    by (rule bench_store.run_benchmark_safe [where n = n and new_pool = "bytes_new L base", OF st b(2) e room b(4) last n lim b(1) perm ds,
          where tsc = tsc and buf = buf and sk = sk and tm = tm]) blast
qed

text \<open>
  The benchmarks of both files run on the bytes of their pools as they do on slots. The three pools of a
  run do not touch each other, so each has bytes of its own here, all of them from the same address on.
\<close>

lemma byte_benchmarks_safe:
  assumes "n > 0" and "bytes_fit (element_layout c_bench_order) base (unat n)"
    and "bytes_fit (block_layout c_bench_order) base' (unat n)" and "mset order = mset [0..<unat n]"
    and "unat n + unat n div 2 \<le> lim"
    and "churn_draws_ok (unat n) dsp" "churn_draws_ok (unat n) dsn" "churn_draws_ok (unat n) dsm"
  shows "(\<exists>pool pool2 pool3 h. run_benchmark tsc buf lim (byte_bench_ops (element_layout c_bench_order))
      (pool_bytes_new c_bench_order base) order dsp dsn dsm n sk tm =
        Inr (expected_rows tsc (unat n) tm, (pool, pool2, pool3), h) \<and>
      (\<forall>p \<in> {pool, pool2, pool3}. bpb.readable.live_objects p = Map.empty) \<and> heap_objects (bn_pool h) = Map.empty) \<and>
    (\<exists>pool pool2 pool3 h. run_benchmark tsc buf lim (byte_bench_ops (block_layout c_bench_order))
      (sep_bytes_new c_bench_order base') order dsp dsn dsm n sk tm =
        Inr (expected_rows tsc (unat n) tm, (pool, pool2, pool3), h) \<and>
      (\<forall>p \<in> {pool, pool2, pool3}. sbb.readable.live_objects p = Map.empty) \<and> heap_objects (bn_pool h) = Map.empty)"
  unfolding pool_bytes_new_def sep_bytes_new_def
  using byte_run_benchmark_safe [OF bpb.byte_allocator_axioms assms(1,2,4-8)]
    byte_run_benchmark_safe [OF sbb.byte_allocator_axioms assms(1,3,4-8)] by blast

end
