(* ===== verification/Unit_Tests.thy ===== *)
theory Unit_Tests
  imports Book_Depth Text_Format Object_Lifetime Byte_Claims
begin

text \<open>
  The unit tests of the repository, run on the model: \<open>project/tests/order_book_test.cpp\<close> and
  \<open>project/tests/mem_pool_test.cpp\<close>. Each \<open>TEST\<close> is the sequence of its
  calls, and its value is whether all of its expectations hold; a fault on the way is a value of its
  own. That the model passes them all says that it agrees with the code on what its authors wrote down.
\<close>

section \<open>Looking at a book\<close>

text \<open>\<open>levels.at(price)\<close>, which throws when there is no such level.\<close>

definition at :: "(u64, queue) std_map \<Rightarrow> u64 \<Rightarrow> queue result" where
  "at levels pr = (case std_find levels pr of None \<Rightarrow> Inl Aborted | Some level \<Rightarrow> Inr level)"

definition contains :: "(u64, queue) std_map \<Rightarrow> u64 \<Rightarrow> bool" where
  "contains levels pr \<longleftrightarrow> std_find levels pr \<noteq> None"

text \<open>The order behind a pointer.\<close>

definition the_order :: "ptr \<Rightarrow> order_book \<Rightarrow> order result" where
  "the_order p b = read_order (order_pool b) p"

section \<open>\<open>order_book_test.cpp\<close>\<close>

definition test_AddOrder :: "bool result" where
  "test_AddOrder =
     rbind (order_book_new ''AAPL'' 10) (\<lambda>b.
     rbind (add_order 1 101 100 15000 True Limit b) (\<lambda>(o1, b).
     rbind (the_order o1 b) (\<lambda>ord.
       let e1 = o1 \<noteq> None \<and> order_id ord = 1 \<and> price ord = 15000 \<and> is_buy_side ord in
     rbind (add_order 2 102 50 15000 True Limit b) (\<lambda>(o2, b).
     rbind (the_order o2 b) (\<lambda>ord.
       let e2 = o2 \<noteq> None \<and> order_id ord = 2;
           levels = get_bid_levels b;
           e3 = length levels = 1 \<and> contains levels 15000 in
     rbind (at levels 15000) (\<lambda>level.
     rbind (the_order o1 b) (\<lambda>ord1.
     rbind (the_order o2 b) (\<lambda>ord2.
       Inr (e1 \<and> e2 \<and> e3 \<and> head_q level = o1 \<and> tail_q level = o2 \<and>
         nxt (list_node ord1) = o2 \<and> prv (list_node ord2) = o1 \<and>
         nxt (list_node ord2) = None \<and> prv (list_node ord1) = None)))))))))"

definition test_CancelOrder :: "bool result" where
  "test_CancelOrder =
     rbind (order_book_new ''AAPL'' 3) (\<lambda>b.
     rbind (add_order 1 101 100 15000 True Limit b) (\<lambda>(o1, b).
     rbind (add_order 2 101 100 15000 True Limit b) (\<lambda>(o2, b).
     rbind (add_order 3 101 100 15000 True Limit b) (\<lambda>(o3, b).
     rbind (at (get_bid_levels b) 15000) (\<lambda>level.
       let e1 = size_q level = 3 in
     rbind (cancel_order o2 b) (\<lambda>b.
     rbind (at (get_bid_levels b) 15000) (\<lambda>level.
     rbind (the_order o1 b) (\<lambda>ord1.
     rbind (the_order o3 b) (\<lambda>ord3.
       let e2 = size_q level = 2 \<and> nxt (list_node ord1) = o3 \<and> prv (list_node ord3) = o1 in
     rbind (cancel_order o1 b) (\<lambda>b.
     rbind (at (get_bid_levels b) 15000) (\<lambda>level.
     rbind (the_order o3 b) (\<lambda>ord3.
       let e3 = size_q level = 1 \<and> head_q level = o3 \<and> prv (list_node ord3) = None in
     rbind (cancel_order o3 b) (\<lambda>b.
       Inr (e1 \<and> e2 \<and> e3 \<and> \<not> contains (get_bid_levels b) 15000))))))))))))))"

text \<open>
  The next three read orders that the match may have closed: the pointer then leads to a free element
  of the pool, whose size is still there.
\<close>

definition test_MatchBidOrderPerfromsAPartialMatch :: "bool result" where
  "test_MatchBidOrderPerfromsAPartialMatch =
     rbind (order_book_new ''AAPL'' 10) (\<lambda>b.
     rbind (add_order 1 101 100 15100 False Limit b) (\<lambda>(sell100, b).
     rbind (match_bid_order 15100 5 Limit 0 b) (\<lambda>(matched, b).
     rbind (the_order sell100 b) (\<lambda>ord.
       Inr (matched = 5 \<and> order_size ord = 95)))))"

definition test_MatchBidOrderDoesNotExceedAvailableSize :: "bool result" where
  "test_MatchBidOrderDoesNotExceedAvailableSize =
     rbind (order_book_new ''AAPL'' 10) (\<lambda>b.
     rbind (add_order 1 101 100 15100 False Limit b) (\<lambda>(sell100, b).
     rbind (match_bid_order 15100 200 Limit 0 b) (\<lambda>(matched, b).
     rbind (the_order sell100 b) (\<lambda>ord.
       Inr (matched = 100 \<and> order_size ord = 0)))))"

definition test_MatchBidOrderMatchesSharesUsingFIFO :: "bool result" where
  "test_MatchBidOrderMatchesSharesUsingFIFO =
     rbind (order_book_new ''AAPL'' 10) (\<lambda>b.
     rbind (add_order 1 101 100 15100 False Limit b) (\<lambda>(o1, b).
     rbind (add_order 1 101 100 15100 False Limit b) (\<lambda>(o2, b).
     rbind (match_bid_order 15100 198 Limit 0 b) (\<lambda>(matched, b).
     rbind (the_order o1 b) (\<lambda>ord1.
     rbind (the_order o2 b) (\<lambda>ord2.
       Inr (matched = 198 \<and> order_size ord1 = 0 \<and> order_size ord2 = 2)))))))"

definition test_SellSide :: "bool result" where
  "test_SellSide =
     rbind (order_book_new ''AAPL'' 10) (\<lambda>b.
     rbind (add_order 1 101 100 15100 False Limit b) (\<lambda>(o1, b).
     rbind (the_order o1 b) (\<lambda>ord.
     rbind (at (get_ask_levels b) 15100) (\<lambda>level.
       Inr (o1 \<noteq> None \<and> \<not> is_buy_side ord \<and> length (get_ask_levels b) = 1 \<and> head_q level = o1)))))"

definition test_PoolExhaustion :: "bool result" where
  "test_PoolExhaustion =
     rbind (order_book_new ''AAPL'' 1) (\<lambda>b.
     rbind (add_order 1 101 100 15000 True Limit b) (\<lambda>(o1, b).
     rbind (add_order 2 102 100 15000 True Limit b) (\<lambda>(o2, b).
       Inr (o1 \<noteq> None \<and> o2 = None))))"

definition test_MarketBuyOrderSweepsMultipleLevels :: "bool result" where
  "test_MarketBuyOrderSweepsMultipleLevels =
     rbind (order_book_new ''AAPL'' 10) (\<lambda>b.
     rbind (add_order 1 101 100 15000 False Limit b) (\<lambda>(_, b).
     rbind (add_order 2 102 100 15100 False Limit b) (\<lambda>(_, b).
     rbind (match_bid_order 0 150 Market 0 b) (\<lambda>(matched, b).
     rbind (at (get_ask_levels b) 15100) (\<lambda>level.
     rbind (the_order (q_peek level) b) (\<lambda>first.
       Inr (matched = 150 \<and> \<not> contains (get_ask_levels b) 15000 \<and> contains (get_ask_levels b) 15100 \<and>
         size_q level = 1 \<and> order_size first = 50)))))))"

definition test_MarketSellOrderSweepsMultipleLevels :: "bool result" where
  "test_MarketSellOrderSweepsMultipleLevels =
     rbind (order_book_new ''AAPL'' 10) (\<lambda>b.
     rbind (add_order 1 101 100 15000 True Limit b) (\<lambda>(_, b).
     rbind (add_order 2 102 100 14900 True Limit b) (\<lambda>(_, b).
     rbind (match_ask_order 0 150 Market 0 b) (\<lambda>(matched, b).
     rbind (at (get_bid_levels b) 14900) (\<lambda>level.
     rbind (the_order (q_peek level) b) (\<lambda>first.
       Inr (matched = 150 \<and> \<not> contains (get_bid_levels b) 15000 \<and> contains (get_bid_levels b) 14900 \<and>
         size_q level = 1 \<and> order_size first = 50)))))))"

definition test_LimitBuyOrderMatchesUpToPrice :: "bool result" where
  "test_LimitBuyOrderMatchesUpToPrice =
     rbind (order_book_new ''AAPL'' 10) (\<lambda>b.
     rbind (add_order 1 101 100 15000 False Limit b) (\<lambda>(_, b).
     rbind (add_order 2 102 100 15100 False Limit b) (\<lambda>(_, b).
     rbind (add_order 3 103 100 15200 False Limit b) (\<lambda>(_, b).
     rbind (match_bid_order 15100 250 Limit 0 b) (\<lambda>(matched, b).
     rbind (at (get_ask_levels b) 15200) (\<lambda>level.
     rbind (the_order (q_peek level) b) (\<lambda>first.
       Inr (matched = 200 \<and> \<not> contains (get_ask_levels b) 15000 \<and> \<not> contains (get_ask_levels b) 15100 \<and>
         contains (get_ask_levels b) 15200 \<and> order_size first = 100))))))))"

definition test_LimitSellOrderMatchesDownToPrice :: "bool result" where
  "test_LimitSellOrderMatchesDownToPrice =
     rbind (order_book_new ''AAPL'' 10) (\<lambda>b.
     rbind (add_order 1 101 100 15000 True Limit b) (\<lambda>(_, b).
     rbind (add_order 2 102 100 14900 True Limit b) (\<lambda>(_, b).
     rbind (add_order 3 103 100 14800 True Limit b) (\<lambda>(_, b).
     rbind (match_ask_order 14900 250 Limit 0 b) (\<lambda>(matched, b).
     rbind (at (get_bid_levels b) 14800) (\<lambda>level.
     rbind (the_order (q_peek level) b) (\<lambda>first.
       Inr (matched = 200 \<and> \<not> contains (get_bid_levels b) 15000 \<and> \<not> contains (get_bid_levels b) 14900 \<and>
         contains (get_bid_levels b) 14800 \<and> order_size first = 100))))))))"

definition test_AddOrderTriggersMatchAndRestsRemainder :: "bool result" where
  "test_AddOrderTriggersMatchAndRestsRemainder =
     rbind (order_book_new ''AAPL'' 10) (\<lambda>b.
     rbind (add_order 1 101 100 15000 False Limit b) (\<lambda>(_, b).
     rbind (add_order 2 102 150 15000 True Limit b) (\<lambda>(o1, b).
     rbind (the_order o1 b) (\<lambda>ord.
     rbind (at (get_bid_levels b) 15000) (\<lambda>level.
       Inr (o1 \<noteq> None \<and> order_size ord = 50 \<and> contains (get_bid_levels b) 15000 \<and> head_q level = o1 \<and>
         \<not> contains (get_ask_levels b) 15000))))))"

text \<open>
  The text of a book needs the formats of the \<open>fmt\<close> library: here decimals of quotients that come out
  even, which is what the test prints.
\<close>

definition decimals :: "nat \<Rightarrow> nat \<Rightarrow> string" where
  "decimals d n = digits (n div 10 ^ d) @ ''.'' @
     (let s = digits (n mod 10 ^ d) in replicate (d - length s) (CHR ''0'') @ s)"

definition exact_fmt :: fmt_ops where
  "exact_fmt = \<lparr>fixed = (\<lambda>d n k. decimals d (n * 10 ^ d div k)), midpoint = (\<lambda>n k. decimals 2 ((n + k) * 100 div 200)),
     uint = digits, right10 = right_field 10\<rparr>"

definition test_ToString :: "bool result" where
  "test_ToString =
     rbind (order_book_new ''AAPL'' 10) (\<lambda>b.
     rbind (add_order 1 101 100 15000 True Limit b) (\<lambda>(_, b).
     rbind (add_order 2 102 100 15100 False Limit b) (\<lambda>(_, b).
       case book_to_string exact_fmt b of
         None \<Rightarrow> Inl Aborted
       | Some r \<Rightarrow> rbind r (\<lambda>output.
           Inr (string_find ''Order Book for AAPL:'' output \<noteq> None \<and> string_find ''0.100'' output \<noteq> None \<and>
             string_find ''150.00'' output \<noteq> None \<and> string_find ''151.00'' output \<noteq> None \<and>
             string_find ''Mid Price: 150.50'' output \<noteq> None \<and>
             the (string_find ''151.00'' output) < the (string_find ''150.00'' output))))))"

definition order_book_tests :: "(string \<times> bool result) list" where
  "order_book_tests =
     [(''AddOrder'', test_AddOrder), (''CancelOrder'', test_CancelOrder),
      (''MatchBidOrderPerfromsAPartialMatch'', test_MatchBidOrderPerfromsAPartialMatch),
      (''MatchBidOrderDoesNotExceedAvailableSize'', test_MatchBidOrderDoesNotExceedAvailableSize),
      (''MatchBidOrderMatchesSharesUsingFIFO'', test_MatchBidOrderMatchesSharesUsingFIFO),
      (''SellSide'', test_SellSide), (''PoolExhaustion'', test_PoolExhaustion),
      (''MarketBuyOrderSweepsMultipleLevels'', test_MarketBuyOrderSweepsMultipleLevels),
      (''MarketSellOrderSweepsMultipleLevels'', test_MarketSellOrderSweepsMultipleLevels),
      (''LimitBuyOrderMatchesUpToPrice'', test_LimitBuyOrderMatchesUpToPrice),
      (''LimitSellOrderMatchesDownToPrice'', test_LimitSellOrderMatchesDownToPrice),
      (''AddOrderTriggersMatchAndRestsRemainder'', test_AddOrderTriggersMatchAndRestsRemainder),
      (''ToString'', test_ToString)]"

lemma test_results:
  "test_AddOrder = Inr True" "test_CancelOrder = Inr True" "test_MatchBidOrderPerfromsAPartialMatch = Inr True"
  "test_MatchBidOrderDoesNotExceedAvailableSize = Inr True" "test_MatchBidOrderMatchesSharesUsingFIFO = Inr True"
  "test_SellSide = Inr True" "test_PoolExhaustion = Inr True" "test_MarketBuyOrderSweepsMultipleLevels = Inr True"
  "test_MarketSellOrderSweepsMultipleLevels = Inr True" "test_LimitBuyOrderMatchesUpToPrice = Inr True"
  "test_LimitSellOrderMatchesDownToPrice = Inr True" "test_AddOrderTriggersMatchAndRestsRemainder = Inr True"
  by code_simp+

text \<open>\<open>ToString\<close>: its book, and the text that \<open>toString\<close> gives for it.\<close>

definition build_toString :: "order_book result" where
  "build_toString =
     rbind (order_book_new ''AAPL'' 10) (\<lambda>b.
     rbind (add_order 1 101 100 15000 True Limit b) (\<lambda>(_, b).
     rbind (add_order 2 102 100 15100 False Limit b) (\<lambda>(_, b). Inr b)))"

definition toString_book :: order_book where
  "toString_book = (case build_toString of Inr b \<Rightarrow> b | Inl _ \<Rightarrow> sample_book)"

lemma toString_built: "build_toString = Inr toString_book"
  by code_simp

lemma toString_facts:
  "bid_levels toString_book = [(15000, \<lparr>q_head = Some 0, q_tail = Some 0, q_size = 1\<rparr>)]"
  "ask_levels toString_book = [(15100, \<lparr>q_head = Some (Suc 0), q_tail = Some (Suc 0), q_size = 1\<rparr>)]"
  "order_size (object (store (order_pool toString_book) ! 0)) = 100"
  "order_size (object (store (order_pool toString_book) ! Suc 0)) = 100"
  "list_node (object (store (order_pool toString_book) ! 0)) = null_node"
  "list_node (object (store (order_pool toString_book) ! Suc 0)) = null_node"
  "length (store (order_pool toString_book)) = 10" "book_symbol toString_book = ''AAPL''"
  "table_prices toString_book = [15100, 15000]"
  by code_simp+

lemma exact_fmt_simps:
  "fixed exact_fmt 3 100 1000 = decimals 3 100" "fixed exact_fmt 2 15100 100 = decimals 2 15100"
  "fixed exact_fmt 2 15000 100 = decimals 2 15000" "midpoint exact_fmt 15000 15100 = decimals 2 15050"
  "right10 exact_fmt s = right_field 10 s"
  by (simp_all add: exact_fmt_def)

lemma decimal_texts:
  "decimals 3 100 = ''0.100''" "decimals 2 15100 = ''151.00''" "decimals 2 15000 = ''150.00''"
  "decimals 2 15050 = ''150.50''"
  unfolding decimals_def by (simp_all add: digits_simps)

lemma field_texts:
  "right_field 10 ''Bids'' = ''      Bids''" "right_field 10 ''Price'' = ''     Price''"
  "right_field 10 ''Asks'' = ''      Asks''" "right_field 10 ''0'' = ''         0''"
  "right_field 10 ''0.100'' = ''     0.100''" "right_field 10 ''150.00'' = ''    150.00''"
  "right_field 10 ''151.00'' = ''    151.00''"
  by code_simp+

lemma toString_text:
  "book_to_string exact_fmt toString_book = Some (Inr
     (''Order Book for AAPL:'' @ newline @
      ''      Bids |      Price |       Asks'' @ newline @
      ''-------------------------------------'' @ newline @
      ''         0 |     151.00 |      0.100'' @ newline @
      ''     0.100 |     150.00 |          0'' @ newline @
      ''-------------------------------------'' @ newline @
      ''Mid Price: 150.50'' @ newline))"
  by (simp add: book_to_string_def toString_facts level_cell_def size_loop.simps table_text_def table_row_def
      exact_fmt_simps decimal_texts field_texts mid_price_def std_rbegin_def std_begin_def)

lemma toString_finds:
  "let output = (''Order Book for AAPL:'' @ newline @
      ''      Bids |      Price |       Asks'' @ newline @
      ''-------------------------------------'' @ newline @
      ''         0 |     151.00 |      0.100'' @ newline @
      ''     0.100 |     150.00 |          0'' @ newline @
      ''-------------------------------------'' @ newline @
      ''Mid Price: 150.50'' @ newline)
   in string_find ''Order Book for AAPL:'' output \<noteq> None \<and> string_find ''0.100'' output \<noteq> None \<and>
      string_find ''150.00'' output \<noteq> None \<and> string_find ''151.00'' output \<noteq> None \<and>
      string_find ''Mid Price: 150.50'' output \<noteq> None \<and>
      the (string_find ''151.00'' output) < the (string_find ''150.00'' output)"
  by code_simp

lemma test_ToString_result: "test_ToString = Inr True"
proof -
  obtain b0 r1 b1 r2 where "order_book_new ''AAPL'' 10 = Inr b0" "add_order 1 101 100 15000 True Limit b0 = Inr (r1, b1)"
    "add_order 2 102 100 15100 False Limit b1 = Inr (r2, toString_book)"
    using toString_built by (auto simp: build_toString_def rbind_eq_Inr)
  then show ?thesis
    using toString_finds by (simp only: test_ToString_def rbind_Inr prod.case toString_text option.case Let_def simp_thms)
qed

section \<open>\<open>mem_pool_test.cpp\<close>\<close>

text \<open>
  The storage of an element of \<open>MemPool<int>\<close> is as large as the link, eight bytes; an \<open>int\<close> is its low
  half.
\<close>

definition word_overlay :: "u64 overlay" where
  "word_overlay = \<lparr>get_idx = (\<lambda>w. w), set_idx = (\<lambda>w _. w)\<rparr>"

type_synonym int_pool = "u64 mem_pool"

definition int_pool_new :: "size_t \<Rightarrow> int_pool result" where
  "int_pool_new n = mem_pool_new word_overlay 0 n"

text \<open>Constructing an \<open>int\<close> writes the low four bytes of its storage; the others keep what they were.\<close>

definition store_int :: "int \<Rightarrow> u64 \<Rightarrow> u64" where
  "store_int k w = or (push_bit 32 (drop_bit 32 w)) (ucast (word_of_int k :: u32))"

definition int_allocate :: "int \<Rightarrow> int_pool \<Rightarrow> ptr \<times> int_pool" where
  "int_allocate k pool =
     (let idx = unat (next_free_index pool);
          storage = if idx < length (store pool) then object (store pool ! idx) else 0
      in allocate word_overlay pool (store_int k storage))"

definition int_deallocate :: "ptr \<Rightarrow> int_pool \<Rightarrow> int_pool result" where
  "int_deallocate p pool = deallocate word_overlay p pool"

definition int_at :: "ptr \<Rightarrow> int_pool \<Rightarrow> int result" where
  "int_at p pool = rbind (pool_read p pool) (\<lambda>w. Inr (sint (ucast w :: u32)))"

definition test_ExhaustPoolReturnsNull :: "bool result" where
  "test_ExhaustPoolReturnsNull =
     rbind (int_pool_new 2) (\<lambda>pool.
       let (a, pool) = int_allocate 10 pool; (b, pool) = int_allocate 20 pool in
     rbind (int_at a pool) (\<lambda>x. rbind (int_at b pool) (\<lambda>y.
       let (c, pool) = int_allocate 30 pool in
     rbind (int_deallocate a pool) (\<lambda>pool. rbind (int_deallocate b pool) (\<lambda>pool.
       Inr (a \<noteq> None \<and> b \<noteq> None \<and> x = 10 \<and> y = 20 \<and> c = None))))))"

definition test_DeallocateAndReuse :: "bool result" where
  "test_DeallocateAndReuse =
     rbind (int_pool_new 1) (\<lambda>pool.
       let (a, pool) = int_allocate 42 pool in
     rbind (int_deallocate a pool) (\<lambda>pool.
       let (b, pool) = int_allocate 99 pool in
     rbind (int_at b pool) (\<lambda>y. rbind (int_deallocate b pool) (\<lambda>pool.
       Inr (a \<noteq> None \<and> b \<noteq> None \<and> y = 99)))))"

definition test_MultipleAllocDealloc :: "bool result" where
  "test_MultipleAllocDealloc =
     rbind (int_pool_new 3) (\<lambda>pool.
       let (a, pool) = int_allocate 1 pool; (b, pool) = int_allocate 2 pool in
     rbind (int_deallocate a pool) (\<lambda>pool.
       let (c, pool) = int_allocate 3 pool in
     rbind (int_at c pool) (\<lambda>z.
       let (d, pool) = int_allocate 4 pool; (e, pool) = int_allocate 5 pool in
     rbind (int_deallocate b pool) (\<lambda>pool. rbind (int_deallocate c pool) (\<lambda>pool. rbind (int_deallocate d pool) (\<lambda>pool.
       Inr (c \<noteq> None \<and> z = 3 \<and> d \<noteq> None \<and> e = None)))))))"

definition test_IntAllocateSingleValue :: "bool result" where
  "test_IntAllocateSingleValue =
     rbind (int_pool_new 8) (\<lambda>pool.
       let (p, pool) = int_allocate 42 pool in
     rbind (int_at p pool) (\<lambda>x. rbind (int_deallocate p pool) (\<lambda>pool.
       Inr (p \<noteq> None \<and> x = 42))))"

definition test_IntAllocateZeroAndNegative :: "bool result" where
  "test_IntAllocateZeroAndNegative =
     rbind (int_pool_new 4) (\<lambda>pool.
       let (zero, pool) = int_allocate 0 pool; (neg, pool) = int_allocate (-1) pool;
           (min_val, pool) = int_allocate (-2147483648) pool; (max_val, pool) = int_allocate 2147483647 pool in
     rbind (int_at zero pool) (\<lambda>x. rbind (int_at neg pool) (\<lambda>y.
     rbind (int_at min_val pool) (\<lambda>z. rbind (int_at max_val pool) (\<lambda>w.
     rbind (int_deallocate zero pool) (\<lambda>pool. rbind (int_deallocate neg pool) (\<lambda>pool.
     rbind (int_deallocate min_val pool) (\<lambda>pool. rbind (int_deallocate max_val pool) (\<lambda>pool.
       Inr (zero \<noteq> None \<and> neg \<noteq> None \<and> min_val \<noteq> None \<and> max_val \<noteq> None \<and>
         x = 0 \<and> y = -1 \<and> z = -2147483648 \<and> w = 2147483647))))))))))"

text \<open>The loops of the tests: filling a vector of pointers, and giving all of it back.\<close>

definition fill :: "int list \<Rightarrow> int_pool \<Rightarrow> ptr list \<times> int_pool" where
  "fill ks pool = fold (\<lambda>k (ptrs, pool). let (p, pool) = int_allocate k pool in (ptrs @ [p], pool)) ks ([], pool)"

fun drain :: "ptr list \<Rightarrow> int_pool \<Rightarrow> int_pool result" where
  "drain [] pool = Inr pool"
| "drain (p # ptrs) pool = rbind (int_deallocate p pool) (drain ptrs)"

fun all_at :: "ptr list \<Rightarrow> int list \<Rightarrow> int_pool \<Rightarrow> bool result" where
  "all_at (p # ptrs) (k # ks) pool = rbind (int_at p pool) (\<lambda>x. rbind (all_at ptrs ks pool) (\<lambda>e. Inr (x = k \<and> e)))"
| "all_at _ _ pool = Inr True"

fun fill_checked :: "int list \<Rightarrow> int_pool \<Rightarrow> (ptr list \<times> bool \<times> int_pool) result" where
  "fill_checked [] pool = Inr ([], True, pool)"
| "fill_checked (k # ks) pool =
     (let (p, pool) = int_allocate k pool in
      rbind (int_at p pool) (\<lambda>x.
      rbind (fill_checked ks pool) (\<lambda>(ptrs, e, pool). Inr (p # ptrs, p \<noteq> None \<and> x = k \<and> e, pool))))"

definition test_IntAllocateAllSlots :: "bool result" where
  "test_IntAllocateAllSlots =
     (let ks = [0, 10, 20, 30, 40, 50, 60, 70, 80, 90, 100, 110, 120, 130, 140, 150] in
     rbind (int_pool_new 16) (\<lambda>pool.
       let (ptrs, pool) = fill ks pool in
     rbind (all_at ptrs ks pool) (\<lambda>e.
       let (p, pool) = int_allocate 999 pool in
     rbind (drain ptrs pool) (\<lambda>pool.
       Inr (None \<notin> set ptrs \<and> e \<and> p = None)))))"

definition test_IntDeallocateAllThenReallocate :: "bool result" where
  "test_IntDeallocateAllThenReallocate =
     rbind (int_pool_new 8) (\<lambda>pool.
       let (ptrs, pool) = fill [0, 1, 2, 3, 4, 5, 6, 7] pool in
     rbind (drain ptrs pool) (\<lambda>pool.
     rbind (fill_checked [100, 101, 102, 103, 104, 105, 106, 107] pool) (\<lambda>(ptrs, e, pool).
       let (p, pool) = int_allocate 0 pool in
     rbind (drain ptrs pool) (\<lambda>pool.
       Inr (e \<and> p = None)))))"

definition test_IntDeallocateMiddleSlot :: "bool result" where
  "test_IntDeallocateMiddleSlot =
     rbind (int_pool_new 3) (\<lambda>pool.
       let (a, pool) = int_allocate 10 pool; (b, pool) = int_allocate 20 pool; (c, pool) = int_allocate 30 pool in
     rbind (int_deallocate b pool) (\<lambda>pool.
       let (d, pool) = int_allocate 40 pool in
     rbind (int_at d pool) (\<lambda>w. rbind (int_at a pool) (\<lambda>x. rbind (int_at c pool) (\<lambda>z.
     rbind (int_deallocate a pool) (\<lambda>pool. rbind (int_deallocate c pool) (\<lambda>pool. rbind (int_deallocate d pool) (\<lambda>pool.
       Inr (a \<noteq> None \<and> b \<noteq> None \<and> c \<noteq> None \<and> d \<noteq> None \<and> w = 40 \<and> x = 10 \<and> z = 30)))))))))"

fun same_slot :: "int list \<Rightarrow> int_pool \<Rightarrow> bool result" where
  "same_slot [] pool = Inr True"
| "same_slot (i # is) pool =
     (let (p, pool) = int_allocate i pool in
      rbind (int_at p pool) (\<lambda>x. rbind (int_deallocate p pool) (\<lambda>pool.
      rbind (same_slot is pool) (\<lambda>e. Inr (p \<noteq> None \<and> x = i \<and> e)))))"

definition test_IntRepeatedAllocDeallocSameSlot :: "bool result" where
  "test_IntRepeatedAllocDeallocSameSlot = rbind (int_pool_new 1) (same_slot [0..99])"

lemma pool_test_results:
  "test_ExhaustPoolReturnsNull = Inr True" "test_DeallocateAndReuse = Inr True" "test_MultipleAllocDealloc = Inr True"
  "test_IntAllocateSingleValue = Inr True" "test_IntAllocateZeroAndNegative = Inr True"
  "test_IntAllocateAllSlots = Inr True" "test_IntDeallocateAllThenReallocate = Inr True"
  "test_IntDeallocateMiddleSlot = Inr True" "test_IntRepeatedAllocDeallocSameSlot = Inr True"
  by code_simp+

text \<open>
  The tests over other types of elements run on the pool of \<open>Object_Lifetime\<close>: a structure of an \<open>int\<close> and a
  \<open>double\<close>, which is its 64 bits here, \<open>std::string\<close>, and a class that counts its instances.
\<close>

record trivial =
  t_x :: u32
  t_y :: u64

text \<open>A class whose constructor and destructor have no effect outside the object.\<close>

definition plain :: "('a, unit) class_of" where
  "plain = \<lparr>on_construct = (\<lambda>_ s. s), on_destroy = (\<lambda>_ s. s)\<rparr>"

definition counted :: "(unit, int) class_of" where
  "counted = \<lparr>on_construct = (\<lambda>_ live. live + 1), on_destroy = (\<lambda>_ live. live - 1)\<rparr>"

text \<open>The bits of the double 2.0.\<close>

definition two_double :: u64 where
  "two_double = 0x4000000000000000"

definition test_AllocateReturnNonNull :: "bool result" where
  "test_AllocateReturnNonNull =
     rbind (managed_new (\<lambda>t. ucast (t_x t)) 4 ()) (\<lambda>pool.
       let (p, pool) = managed_allocate plain (\<lambda>t. ucast (t_x t)) pool \<lparr>t_x = 1, t_y = two_double\<rparr> in
     rbind (managed_read p pool) (\<lambda>t.
     rbind (managed_deallocate plain (\<lambda>t. ucast (t_x t)) p pool) (\<lambda>pool.
       Inr (p \<noteq> None \<and> t_x t = 1 \<and> t_y t = two_double))))"

text \<open>The first eight bytes of a string object and of an empty one are not looked at.\<close>

definition test_WorksWithNonTrivialType :: "bool result" where
  "test_WorksWithNonTrivialType =
     rbind (managed_new (\<lambda>_. 0) 4 ()) (\<lambda>pool.
       let (s, pool) = managed_allocate plain (\<lambda>_. 0) pool ''hello world'' in
     rbind (managed_read s pool) (\<lambda>t.
     rbind (managed_deallocate plain (\<lambda>_. 0) s pool) (\<lambda>pool.
       Inr (s \<noteq> None \<and> t = ''hello world''))))"

definition test_DestructorCalledOnDeallocate :: "bool result" where
  "test_DestructorCalledOnDeallocate =
     rbind (managed_new (\<lambda>_. 0) 2 0) (\<lambda>pool.
       let (a, pool) = managed_allocate counted (\<lambda>_. 0) pool ();
           (b, pool) = managed_allocate counted (\<lambda>_. 0) pool ();
           e1 = mg_state pool = 2 in
     rbind (managed_deallocate counted (\<lambda>_. 0) a pool) (\<lambda>pool.
       let e2 = mg_state pool = 1 in
     rbind (managed_deallocate counted (\<lambda>_. 0) b pool) (\<lambda>pool.
       let e3 = mg_state pool = 0 in
       Inr (e1 \<and> e2 \<and> e3))))"

lemma managed_test_results:
  "test_AllocateReturnNonNull = Inr True" "test_WorksWithNonTrivialType = Inr True"
  "test_DestructorCalledOnDeallocate = Inr True"
  by code_simp+

text \<open>
  \<open>AllSlotsAreContiguous\<close> compares addresses, so it runs on the bytes of the pool; the vector may be anywhere.
\<close>

fun addr_fill :: "u64 list \<Rightarrow> byte_pool \<Rightarrow> u64 list \<times> byte_pool" where
  "addr_fill [] pool = ([], pool)"
| "addr_fill (v # vs) pool =
     (case pool_bytes_allocate c_u64 (le_bytes 8 v) pool of (p, pool) \<Rightarrow>
        case addr_fill vs pool of (ptrs, pool) \<Rightarrow> (p # ptrs, pool))"

fun addr_drain :: "u64 list \<Rightarrow> byte_pool \<Rightarrow> byte_pool result" where
  "addr_drain [] pool = Inr pool"
| "addr_drain (p # ptrs) pool = rbind (pool_bytes_deallocate c_u64 p pool) (addr_drain ptrs)"

definition test_AllSlotsAreContiguous :: "u64 \<Rightarrow> bool result" where
  "test_AllSlotsAreContiguous base =
     rbind (pool_bytes_new c_u64 base 64) (\<lambda>pool.
       case addr_fill (map word_of_nat [0..<64]) pool of (ptrs, pool) \<Rightarrow>
     rbind (addr_drain ptrs pool) (\<lambda>pool.
       let lo = hd ptrs; hi = last ptrs in
       Inr (0 \<notin> set ptrs \<and> hi - lo < 64 * 256)))"

lemma addr_fill_run: "addr_run (element_layout c_u64) (le_bytes 8) (map Alloc vs @ rs) b =
    (case addr_fill vs b of (ptrs, b1) \<Rightarrow>
       rbind (addr_run (element_layout c_u64) (le_bytes 8) rs b1) (\<lambda>(out, b2). Inr (ptrs @ out, b2)))"
proof (induction vs arbitrary: b)
  case Nil
  show ?case by (cases "addr_run (element_layout c_u64) (le_bytes 8) rs b") simp_all
next
  case (Cons v vs)
  show ?case
    by (simp add: Cons pool_bytes_allocate_def split: prod.split)
       (auto simp: rbind_def split: sum.split)
qed

lemma bytes_deallocate_base: "bytes_deallocate L p b = Inr b' \<Longrightarrow> bp_base b' = bp_base b"
  by (auto simp: bytes_deallocate_def Let_def split: if_splits)

lemma addr_drain_run:
  "addr_run (element_layout c_u64) enc (map Dealloc is) b = Inr (out, b') \<Longrightarrow>
     out = [] \<and> addr_drain (map (slot_addr (element_layout c_u64) b) is) b = Inr b'"
proof (induction "is" arbitrary: b)
  case (Cons i "is")
  then obtain b1 where b1: "bytes_deallocate (element_layout c_u64) (slot_addr (element_layout c_u64) b i) b = Inr b1"
    "addr_run (element_layout c_u64) enc (map Dealloc is) b1 = Inr (out, b')" by (auto simp: rbind_eq_Inr)
  have "slot_addr (element_layout c_u64) b1 = slot_addr (element_layout c_u64) b"
    using bytes_deallocate_base [OF b1(1)] by (simp add: fun_eq_iff slot_addr_def)
  with Cons.IH [OF b1(2)] b1(1) show ?case by (simp add: pool_bytes_deallocate_def)
qed simp

lemma addr_fill_base: "bp_base (snd (addr_fill vs b)) = bp_base b"
proof (induction vs arbitrary: b)
  case (Cons v vs)
  have "bp_base (snd (pool_bytes_allocate c_u64 (le_bytes 8 v) b)) = bp_base b"
    by (simp add: pool_bytes_allocate_def bytes_allocate_def Let_def)
  with Cons [of "snd (pool_bytes_allocate c_u64 (le_bytes 8 v) b)"] show ?case by (simp add: case_prod_beta)
qed simp

lemma contiguous_requests:
  "valid_requests 64 (map Alloc (map word_of_nat [0..<64] :: u64 list) @ map Dealloc [0..<64]) [0..<64]"
  "fst (free_run (map Alloc (map word_of_nat [0..<64] :: u64 list) @ map Dealloc [0..<64]) [0..<64]) = map Some [0..<64]"
  by code_simp+

lemma test_AllSlotsAreContiguous_result:
  assumes fit: "bytes_fit (element_layout c_u64) base 64"
  shows "test_AllSlotsAreContiguous base = Inr True"
proof -
  let ?L = "element_layout c_u64"
  let ?vs = "map word_of_nat [0..<64] :: u64 list"
  have E: "element_of ?L 8" using element_layout_fits [OF c_u64_complete] by (simp add: c_u64_def)
  have n: "unat (64 :: size_t) = 64" by simp
  have len: "\<forall>v. length (le_bytes 8 v) = 8" by simp
  obtain b b' where b: "bytes_new ?L base 64 = Inr b" "bp_base b = base"
    "addr_run ?L (le_bytes 8) (map Alloc ?vs @ map Dealloc [0..<64]) b = Inr (map (slot_pointer ?L b) (map Some [0..<64]), b')"
    using byte_run [OF E, of 64 base "le_bytes 8" "map Alloc ?vs @ map Dealloc [0..<64]"] fit contiguous_requests
    unfolding n by auto
  obtain ptrs b1 where fill: "addr_fill ?vs b = (ptrs, b1)" by (cases "addr_fill ?vs b")
  with b(3) addr_fill_run [of ?vs "map Dealloc [0..<64]" b] obtain out where
    out: "addr_run ?L (le_bytes 8) (map Dealloc [0..<64]) b1 = Inr (out, b')"
    "ptrs @ out = map (slot_pointer ?L b) (map Some [0..<64])"
    by (auto simp: rbind_eq_Inr simp del: map_map)
  have "bp_base b1 = base" using addr_fill_base [of ?vs b] fill b(2) by simp
  then have addr: "slot_addr ?L b1 = slot_addr ?L b" by (simp add: fun_eq_iff slot_addr_def b(2))
  from addr_drain_run [OF out(1)] out(2) addr
  have ptrs: "ptrs = map (slot_addr ?L b) [0..<64]" and drain: "addr_drain ptrs b1 = Inr b'"
    by (simp_all add: slot_pointer_def comp_def)
  have cap: "bytes_cap b = 64" using b(1) by (auto simp: bytes_new_def bytes_cap_def)
  have "0 \<notin> set ptrs"
    using element_of.slot_addr_back(1) [OF E] fit by (auto simp: ptrs b(2) cap)
  moreover have "last ptrs - hd ptrs < 64 * 256"
    by (simp add: ptrs last_map hd_map slot_addr_def number_layouts)
  ultimately show ?thesis
    by (simp only: test_AllSlotsAreContiguous_def pool_bytes_new_def b(1) rbind_Inr fill prod.case drain Let_def simp_thms)
qed

definition mem_pool_tests :: "(string \<times> bool result) list" where
  "mem_pool_tests =
     [(''AllocateReturnNonNull'', test_AllocateReturnNonNull),
      (''ExhaustPoolReturnsNull'', test_ExhaustPoolReturnsNull), (''DeallocateAndReuse'', test_DeallocateAndReuse),
      (''AllSlotsAreContiguous'', test_AllSlotsAreContiguous 4096),
      (''MultipleAllocDealloc'', test_MultipleAllocDealloc),
      (''DestructorCalledOnDeallocate'', test_DestructorCalledOnDeallocate),
      (''WorksWithNonTrivialType'', test_WorksWithNonTrivialType),
      (''IntAllocateSingleValue'', test_IntAllocateSingleValue),
      (''IntAllocateZeroAndNegative'', test_IntAllocateZeroAndNegative), (''IntAllocateAllSlots'', test_IntAllocateAllSlots),
      (''IntDeallocateAllThenReallocate'', test_IntDeallocateAllThenReallocate),
      (''IntDeallocateMiddleSlot'', test_IntDeallocateMiddleSlot),
      (''IntRepeatedAllocDeallocSameSlot'', test_IntRepeatedAllocDeallocSameSlot)]"

section \<open>The result\<close>

lemma contiguous_test: "test_AllSlotsAreContiguous 4096 = Inr True"
  by (rule test_AllSlotsAreContiguous_result) (simp add: bytes_fit_def number_layouts)

text \<open>
  The model passes the unit tests of the two files: all 13 tests of the order book and all 13 of
  the memory pool run without a fault, and every expectation in them holds.
\<close>

lemma unit_tests_pass:
  "map snd order_book_tests = replicate 13 (Inr True) \<and> map snd mem_pool_tests = replicate 13 (Inr True)"
  by (simp add: order_book_tests_def mem_pool_tests_def test_results test_ToString_result pool_test_results managed_test_results
      contiguous_test
      eval_nat_numeral)

end
